(* ===== verification/Prelude.thy ===== *)
theory Prelude
  imports Main "HOL-Library.Word" "HOL-Library.Sublist"
begin

text \<open>
  Shared vocabulary of the development: the machine types the Go sources use, the
  outcome of a call that may panic or block, the fact collections the component
  theories fill, generic lemmas on lists and maps, and the locale that carries every
  proof of the form ``this holds in all reachable states''.
\<close>

section \<open>Machine types and outcomes\<close>

type_synonym byte = "8 word"
type_synonym bytes = "8 word list"
type_synonym uint16 = "16 word"
type_synonym int32 = "32 word"
type_synonym uint = "64 word"

text \<open>
  A Go call returns, panics, or never returns (it waits on a channel, a lock or a
  socket that nothing will ever serve).  Errors that the code returns are values of a
  sum type inside \<open>Return\<close>.
\<close>

datatype 'a outcome = Return 'a | Panic | Blocked

text \<open>The call \<open>x\<close>, and what follows it when it returns.\<close>

fun bind_outcome :: "'a outcome \<Rightarrow> ('a \<Rightarrow> 'b outcome) \<Rightarrow> 'b outcome" where
  "bind_outcome (Return x) f = f x"
| "bind_outcome Panic f = Panic"
| "bind_outcome Blocked f = Blocked"

lemma bind_outcome_Return_iff [simp]:
  "bind_outcome x f = Return z \<longleftrightarrow> (\<exists>y. x = Return y \<and> f y = Return z)"
  by (cases x) simp_all

lemma bind_outcome_Panic_iff [simp]:
  "bind_outcome x f = Panic \<longleftrightarrow> x = Panic \<or> (\<exists>y. x = Return y \<and> f y = Panic)"
  by (cases x) simp_all

named_theorems go_defs \<open>definitions of small operations, unfolded together\<close>
named_theorems go_inv \<open>operations keep the invariant of their component\<close>

section \<open>Lists, sums and maps\<close>

text \<open>
  A list of results of successive calls: the data up to the first error, and that error.
\<close>

fun oks :: "('e + 'a list) list \<Rightarrow> 'a list" where
  "oks [] = []"
| "oks (Inl e # rs) = []"
| "oks (Inr b # rs) = b @ oks rs"

fun first_err :: "('e + 'a) list \<Rightarrow> 'e option" where
  "first_err [] = None"
| "first_err (Inl e # rs) = Some e"
| "first_err (Inr b # rs) = first_err rs"

lemma oks_map_Inr [simp]: "oks (map Inr bs) = concat bs"
  by (induction bs) simp_all

lemma first_err_map_Inr [simp]: "first_err (map Inr bs) = None"
  by (induction bs) simp_all

lemma unat_bound: "unat (w :: 'a::len word) < 2 ^ LENGTH('a)"
  by (rule unsigned_less)

lemma ran_upd_subset: "ran (m(k \<mapsto> v)) \<subseteq> insert v (ran m)"
  by (auto simp: ran_def split: if_splits)

lemma finite_dom_upd [simp]: "finite (dom (m(k := v))) \<longleftrightarrow> finite (dom m)"
proof
  assume "finite (dom (m(k := v)))"
  moreover have "dom m \<subseteq> insert k (dom (m(k := v)))" by auto
  ultimately show "finite (dom m)" by (meson finite.insertI finite_subset)
next
  assume "finite (dom m)"
  moreover have "dom (m(k := v)) \<subseteq> insert k (dom m)" by auto
  ultimately show "finite (dom (m(k := v)))" by (meson finite.insertI finite_subset)
qed

section \<open>Reachable states\<close>

inductive reachable :: "('s \<Rightarrow> bool) \<Rightarrow> ('s \<Rightarrow> 's \<Rightarrow> bool) \<Rightarrow> 's \<Rightarrow> bool"
  for init :: "'s \<Rightarrow> bool" and step :: "'s \<Rightarrow> 's \<Rightarrow> bool" where
  start: "init s \<Longrightarrow> reachable init step s"
| step: "reachable init step s \<Longrightarrow> step s t \<Longrightarrow> reachable init step t"

lemma reachable_step1: "init s \<Longrightarrow> step s t \<Longrightarrow> reachable init step t"
  by (rule reachable.step [OF reachable.start])

text \<open>
  A component with steps is an instance of the locale below on its own initial
  states, its own step relation and its own invariant; the instance's obligations are
  the usual two, and what it gains is the invariant in every reachable state.
\<close>

locale invariant_system =
  fixes init :: "'s \<Rightarrow> bool"
    and step :: "'s \<Rightarrow> 's \<Rightarrow> bool"
    and inv :: "'s \<Rightarrow> bool"
  assumes init_inv: "init s \<Longrightarrow> inv s"
    and step_inv: "step s t \<Longrightarrow> inv s \<Longrightarrow> inv t"
begin

lemma reachable_inv: "reachable init step s \<Longrightarrow> inv s"
  by (induction rule: reachable.induct) (auto intro: init_inv step_inv)

lemma reachable_step_inv: "reachable init step s \<Longrightarrow> step s t \<Longrightarrow> inv t"
  by (rule reachable_inv [OF reachable.step])

end

end
