(* ===== verification/Aws_Types.thy ===== *)
theory Aws_Types
  imports Prelude
begin

text \<open>
  Package \<^verbatim>\<open>aws\<close>: the local proxy modes (\<^verbatim>\<open>aws/mode.go\<close>), the protocol constants
  (\<^verbatim>\<open>aws/const.go\<close>) and the tunnelling message (the struct and the enumeration that
  \<^verbatim>\<open>aws/Message.pb.go\<close> declares).  A Go string is a sequence of bytes, here a
  \<^typ>\<open>string\<close> (one \<^typ>\<open>char\<close> is one byte).
\<close>

section \<open>Modes\<close>

type_synonym mode = string

definition ModeSource :: mode where "ModeSource = ''source''"
definition ModeDestination :: mode where "ModeDestination = ''destination''"
definition ModeUnknown :: mode where "ModeUnknown = ''''"

lemmas mode_defs [go_defs] = ModeSource_def ModeDestination_def ModeUnknown_def

lemma mode_distinct [simp]:
  "ModeSource \<noteq> ModeDestination" "ModeDestination \<noteq> ModeSource"
  "ModeSource \<noteq> ModeUnknown" "ModeUnknown \<noteq> ModeSource"
  "ModeDestination \<noteq> ModeUnknown" "ModeUnknown \<noteq> ModeDestination"
  by (simp_all add: mode_defs)

definition OtherMode :: "mode \<Rightarrow> mode" where
  "OtherMode m =
     (if m = ModeDestination then ModeSource
      else if m = ModeSource then ModeDestination
      else ModeUnknown)"

definition valid_mode :: "mode \<Rightarrow> bool" where
  "valid_mode m \<longleftrightarrow> m = ModeDestination \<or> m = ModeSource"

lemma OtherMode_simps [simp]:
  "OtherMode ModeSource = ModeDestination" "OtherMode ModeDestination = ModeSource"
  "OtherMode ModeUnknown = ModeUnknown"
  by (simp_all add: OtherMode_def)

lemma OtherMode_involutive [simp]: "valid_mode m \<Longrightarrow> OtherMode (OtherMode m) = m"
  by (auto simp: valid_mode_def)

lemma OtherMode_neq [simp]: "valid_mode m \<Longrightarrow> OtherMode m \<noteq> m" "valid_mode m \<Longrightarrow> m \<noteq> OtherMode m"
  by (auto simp: valid_mode_def)

lemma OtherMode_valid [simp]: "valid_mode (OtherMode m) = valid_mode m"
  by (auto simp: valid_mode_def OtherMode_def)

lemma valid_mode_simps [simp]:
  "valid_mode ModeSource" "valid_mode ModeDestination" "\<not> valid_mode ModeUnknown"
  by (simp_all add: valid_mode_def)

section \<open>Constants\<close>

definition QueryKeyProxyMode :: string where
  "QueryKeyProxyMode = ''local-proxy-mode''"

definition HeaderKeyAccessToken :: string where
  "HeaderKeyAccessToken = ''access-token''"

definition HeaderKeyClientToken :: string where
  "HeaderKeyClientToken = ''client-token''"

definition SubProtocolV2 :: string where
  "SubProtocolV2 = ''aws.iot.securetunneling-2.0''"

definition HeaderKeyStatusReason :: string where
  "HeaderKeyStatusReason = ''X-Status-Reason''"

definition StatusReasonTunnelClosed :: string where
  "StatusReasonTunnelClosed = ''Tunnel is closed''"

text \<open>The untyped constant \<open>SizeOfMessageSize\<close> takes the type of its context; in
  \<^verbatim>\<open>aws/messagerw.go\<close> that is \<^verbatim>\<open>uint16\<close>.\<close>

definition SizeOfMessageSize :: uint16 where
  "SizeOfMessageSize = 2"

section \<open>Messages\<close>

text \<open>A proto3 enumeration is open: any \<^verbatim>\<open>int32\<close> can arrive as a type.\<close>

type_synonym message_type = int32

definition Message_UNKNOWN :: message_type where "Message_UNKNOWN = 0"
definition Message_DATA :: message_type where "Message_DATA = 1"
definition Message_STREAM_START :: message_type where "Message_STREAM_START = 2"
definition Message_STREAM_RESET :: message_type where "Message_STREAM_RESET = 3"
definition Message_SESSION_RESET :: message_type where "Message_SESSION_RESET = 4"
definition Message_SERVICE_IDS :: message_type where "Message_SERVICE_IDS = 5"

lemmas message_type_defs [go_defs] =
  Message_UNKNOWN_def Message_DATA_def Message_STREAM_START_def
  Message_STREAM_RESET_def Message_SESSION_RESET_def Message_SERVICE_IDS_def

record message =
  Type :: message_type
  StreamId :: int32
  Ignorable :: bool
  Payload :: bytes
  ServiceId :: string
  AvailableServiceIds :: "string list"

text \<open>The zero value \<^verbatim>\<open>Message{}\<close>: fields a composite literal leaves out are zero.\<close>

definition zero_message :: message where
  "zero_message =
     \<lparr>Type = 0, StreamId = 0, Ignorable = False, Payload = [], ServiceId = '''',
      AvailableServiceIds = []\<rparr>"

end
