(* ===== verification/Message_RW.thy ===== *)
theory Message_RW
  imports Aws_Types
begin

unbundle bit_operations_syntax

text \<open>
  Reading and writing tunnelling messages, \<^verbatim>\<open>aws/messagerw.go\<close>.

  The network is the list of results that the successive \<^verbatim>\<open>ReadMessage\<close> calls of the
  websocket connection will give; when the list is used up the next read waits for
  ever (\<open>Blocked\<close>).  The protobuf codec is third-party code: \<open>marshal\<close> and
  \<open>unmarshal\<close> are parameters, and what is assumed of them is the predicate
  \<open>codec_roundtrip\<close>.

  The 16-bit length arithmetic is kept at its width, because the position of the end of
  a message is computed in \<^verbatim>\<open>uint16\<close> and wraps.
\<close>

section \<open>Errors\<close>

datatype rw_error =
    ReadMessageError string           \<comment> \<open>what \<open>ReadMessage\<close> returned\<close>
  | OnlyBinaryAccepted                \<comment> \<open>a websocket frame that is not binary\<close>
  | FailedToRead rw_error             \<comment> \<open>the wrapping of \<open>readAtLeast\<close>\<close>
  | InvalidProtobuf string            \<comment> \<open>\<open>proto.Unmarshal\<close> failed\<close>
  | FailedToSerialize string          \<comment> \<open>\<open>proto.Marshal\<close> failed\<close>

section \<open>The websocket adapter\<close>

text \<open>The three results of \<^verbatim>\<open>ReadMessage\<close>; \<open>ws_err = None\<close> is a nil error.\<close>

record ws_result =
  ws_type :: int
  ws_data :: bytes
  ws_err :: "string option"

definition BinaryMessage :: int where
  "BinaryMessage = 2"

definition binaryReaderWSAdapter_Read :: "ws_result \<Rightarrow> rw_error + bytes" where
  "binaryReaderWSAdapter_Read r =
     (case ws_err r of
        Some e \<Rightarrow> Inl (ReadMessageError e)
      | None \<Rightarrow>
          if ws_type r \<noteq> BinaryMessage then Inl OnlyBinaryAccepted
          else Inr (ws_data r))"

definition NewBReaderFromWSReader :: "ws_result list \<Rightarrow> (rw_error + bytes) list" where
  "NewBReaderFromWSReader = map binaryReaderWSAdapter_Read"

section \<open>The message reader\<close>

record reader =
  binReader :: "(rw_error + bytes) list"
  messageSize :: uint16
  messageBin :: bytes

definition NewMessageReader :: "(rw_error + bytes) list \<Rightarrow> reader" where
  "NewMessageReader rs = \<lparr>binReader = rs, messageSize = 0, messageBin = []\<rparr>"

text \<open>
  The loop of \<^verbatim>\<open>readAtLeast\<close>.  The guard compares the buffer length with
  \<^verbatim>\<open>int(leastSize)\<close>.
\<close>

fun read_loop ::
  "nat \<Rightarrow> (rw_error + bytes) list \<Rightarrow> bytes \<Rightarrow>
     (rw_error + unit) outcome \<times> (rw_error + bytes) list \<times> bytes" where
  "read_loop n rs buf =
     (if length buf < n then
        (case rs of
           [] \<Rightarrow> (Blocked, [], buf)
         | Inl e # rs' \<Rightarrow> (Return (Inl (FailedToRead e)), rs', buf)
         | Inr b # rs' \<Rightarrow> read_loop n rs' (buf @ b))
      else (Return (Inr ()), rs, buf))"

declare read_loop.simps [simp del]

lemma read_loop_simps [simp]:
  "n \<le> length buf \<Longrightarrow> read_loop n rs buf = (Return (Inr ()), rs, buf)"
  "length buf < n \<Longrightarrow> read_loop n [] buf = (Blocked, [], buf)"
  "length buf < n \<Longrightarrow> read_loop n (Inl e # rs) buf = (Return (Inl (FailedToRead e)), rs, buf)"
  "length buf < n \<Longrightarrow> read_loop n (Inr b # rs) buf = read_loop n rs (buf @ b)"
  by (simp_all add: read_loop.simps [of n])

definition readAtLeast :: "uint16 \<Rightarrow> reader \<Rightarrow> (rw_error + unit) outcome \<times> reader" where
  "readAtLeast leastSize r =
     (case read_loop (unat leastSize) (binReader r) (messageBin r) of
        (res, rs, buf) \<Rightarrow> (res, r\<lparr>binReader := rs, messageBin := buf\<rparr>))"

text \<open>\<^verbatim>\<open>binary.BigEndian\<close> on two bytes.\<close>

fun be_uint16 :: "bytes \<Rightarrow> uint16" where
  "be_uint16 (b0 # b1 # _) = (ucast b1 :: uint16) OR push_bit 8 (ucast b0)"
| "be_uint16 _ = 0"

definition put_be_uint16 :: "uint16 \<Rightarrow> bytes" where
  "put_be_uint16 n = [ucast (drop_bit 8 n), ucast n]"

text \<open>
  \<^verbatim>\<open>Next\<close>, in two stages: the length prefix, and the body behind it.  The slice expression \<open>messageBin[2:end]\<close> panics when \<open>end < 2\<close>, which
  happens when the 16-bit sum wraps.
\<close>

definition Next_body ::
  "(bytes \<Rightarrow> string + message) \<Rightarrow> reader \<Rightarrow> (rw_error + message) outcome \<times> reader" where
  "Next_body unmarshal r2 =
     (let endPos = SizeOfMessageSize + messageSize r2
      in (case readAtLeast endPos r2 of
            (Blocked, r3) \<Rightarrow> (Blocked, r3)
          | (Panic, r3) \<Rightarrow> (Panic, r3)
          | (Return (Inl e), r3) \<Rightarrow> (Return (Inl e), r3)
          | (Return (Inr _), r3) \<Rightarrow>
              if endPos < SizeOfMessageSize then (Panic, r3)
              else
                let body = drop (unat SizeOfMessageSize) (take (unat endPos) (messageBin r3));
                    r4 = r3\<lparr>messageSize := 0, messageBin := drop (unat endPos) (messageBin r3)\<rparr>
                in (case unmarshal body of
                      Inl e \<Rightarrow> (Return (Inl (InvalidProtobuf e)), r4)
                    | Inr m \<Rightarrow> (Return (Inr m), r4))))"

definition Next ::
  "(bytes \<Rightarrow> string + message) \<Rightarrow> reader \<Rightarrow> (rw_error + message) outcome \<times> reader" where
  "Next unmarshal r0 =
     (case readAtLeast SizeOfMessageSize r0 of
        (Blocked, r1) \<Rightarrow> (Blocked, r1)
      | (Panic, r1) \<Rightarrow> (Panic, r1)
      | (Return (Inl e), r1) \<Rightarrow> (Return (Inl e), r1)
      | (Return (Inr _), r1) \<Rightarrow>
          let sizeBin = take (unat SizeOfMessageSize) (messageBin r1)
          in Next_body unmarshal (r1\<lparr>messageSize := be_uint16 sizeBin\<rparr>))"

text \<open>The callers' loop: \<open>n\<close> successive calls that all return a message.\<close>

fun read_messages ::
  "(bytes \<Rightarrow> string + message) \<Rightarrow> nat \<Rightarrow> reader \<Rightarrow> (message list \<times> reader) option" where
  "read_messages unmarshal 0 r = Some ([], r)"
| "read_messages unmarshal (Suc n) r =
     (case Next unmarshal r of
        (Return (Inr m), r') \<Rightarrow>
          map_option (\<lambda>(ms, r''). (m # ms, r'')) (read_messages unmarshal n r')
      | _ \<Rightarrow> None)"

section \<open>The message writer\<close>

text \<open>\<^verbatim>\<open>uint16(len(messageBin))\<close> truncates.\<close>

definition add_size :: "bytes \<Rightarrow> bytes" where
  "add_size b = put_be_uint16 (word_of_nat (length b)) @ b"

definition SerializeMessage :: "(message \<Rightarrow> string + bytes) \<Rightarrow> message \<Rightarrow> rw_error + bytes" where
  "SerializeMessage marshal m =
     (case marshal m of
        Inl e \<Rightarrow> Inl (FailedToSerialize e)
      | Inr b \<Rightarrow> Inr (add_size b))"

text \<open>What the sources rely on of \<^verbatim>\<open>proto.Marshal\<close> and \<^verbatim>\<open>proto.Unmarshal\<close>.\<close>

definition codec_roundtrip ::
  "(message \<Rightarrow> string + bytes) \<Rightarrow> (bytes \<Rightarrow> string + message) \<Rightarrow> bool" where
  "codec_roundtrip marshal unmarshal \<longleftrightarrow>
     (\<forall>m b. marshal m = Inr b \<longrightarrow> unmarshal b = Inr m)"

section \<open>Abstract view: the byte stream\<close>

text \<open>
  What a reader still has to deliver: the buffered bytes and all the bytes up to the
  first failing read.  A frame of the stream is a two-byte length and that many bytes;
  \<open>max_body\<close> is the largest length for which the end position does not wrap.
\<close>

definition pending :: "reader \<Rightarrow> bytes" where
  "pending r = messageBin r @ oks (binReader r)"

definition pending_err :: "reader \<Rightarrow> rw_error option" where
  "pending_err r = first_err (binReader r)"

definition max_body :: nat where
  "max_body = 65533"

datatype frame = NeedMore | SizeOverflow | Frame bytes bytes

definition split_frame :: "bytes \<Rightarrow> frame" where
  "split_frame bs =
     (if length bs < 2 then NeedMore
      else let n = unat (be_uint16 (take 2 bs)) in
        if max_body < n then SizeOverflow
        else if length bs < n + 2 then NeedMore
        else Frame (take n (drop 2 bs)) (drop (n + 2) bs))"

definition next_spec :: "(bytes \<Rightarrow> string + message) \<Rightarrow> reader \<Rightarrow> (rw_error + message) outcome" where
  "next_spec unmarshal r =
     (case split_frame (pending r) of
        NeedMore \<Rightarrow>
          (case pending_err r of None \<Rightarrow> Blocked | Some e \<Rightarrow> Return (Inl (FailedToRead e)))
      | SizeOverflow \<Rightarrow> Panic
      | Frame body _ \<Rightarrow>
          Return (case unmarshal body of Inl e \<Rightarrow> Inl (InvalidProtobuf e) | Inr m \<Rightarrow> Inr m))"

section \<open>Facts about the length prefix\<close>

lemma be_put_uint16 [simp]: "be_uint16 (put_be_uint16 n @ bs) = n"
proof -
  have "(ucast (ucast n :: byte) :: uint16) OR push_bit 8 (ucast (ucast (drop_bit 8 n) :: byte)) = n"
    by (rule bit_word_eqI) (auto simp: bit_simps)
  then show ?thesis by (simp add: put_be_uint16_def)
qed

lemma be_put_uint16' [simp]: "be_uint16 (put_be_uint16 n) = n"
  using be_put_uint16 [of n "[]"] by simp

lemma length_put_be_uint16 [simp]: "length (put_be_uint16 n) = 2"
  by (simp add: put_be_uint16_def)

lemma length_add_size [simp]: "length (add_size b) = length b + 2"
  by (simp add: add_size_def)

lemma unat_of_length: "length b < 65536 \<Longrightarrow> unat (word_of_nat (length b) :: uint16) = length b"
  by (simp add: unat_of_nat)

lemma endPos_wraps:
  "SizeOfMessageSize + n < SizeOfMessageSize \<longleftrightarrow> max_body < unat n"
  "\<not> max_body < unat n \<Longrightarrow> unat (SizeOfMessageSize + n) = unat n + 2"
  "max_body < unat n \<Longrightarrow> unat (SizeOfMessageSize + n) \<le> 1"
proof -
  have b: "unat n < 65536"
    using unat_bound [of n] by simp
  have s: "unat (SizeOfMessageSize + n) = (2 + unat n) mod 65536"
    unfolding SizeOfMessageSize_def unat_word_ariths(1) by simp
  show small: "\<not> max_body < unat n \<Longrightarrow> unat (SizeOfMessageSize + n) = unat n + 2"
    using s by (simp add: max_body_def)
  show big: "unat (SizeOfMessageSize + n) \<le> 1" if "max_body < unat n"
  proof -
    from that b have "unat n = 65534 \<or> unat n = 65535" by (auto simp: max_body_def)
    then show ?thesis using s by auto
  qed
  show "SizeOfMessageSize + n < SizeOfMessageSize \<longleftrightarrow> max_body < unat n"
    using small big by (cases "max_body < unat n") (auto simp: word_less_nat_alt SizeOfMessageSize_def)
qed

lemma split_frame_add_size:
  "length b \<le> max_body \<Longrightarrow> split_frame (add_size b @ rest) = Frame b rest"
  by (simp add: split_frame_def add_size_def unat_of_length max_body_def)

lemma split_frame_truncated:
  assumes "length b mod 65536 \<le> max_body"
  shows "split_frame (add_size b) =
           Frame (take (length b mod 65536) b) (drop (length b mod 65536) b)"
proof -
  have "unat (word_of_nat (length b) :: uint16) = length b mod 65536"
    by (simp add: unat_of_nat)
  moreover have "length b mod 65536 \<le> length b" by simp
  moreover have "\<not> length b < length b mod 65536" by (simp add: not_less)
  ultimately show ?thesis
    using assms by (simp add: split_frame_def add_size_def Let_def)
qed

section \<open>The reader refines the byte stream\<close>

lemma read_loop_enough:
  "n \<le> length (buf @ oks rs) \<Longrightarrow>
     \<exists>rs' buf'. read_loop n rs buf = (Return (Inr ()), rs', buf') \<and> n \<le> length buf' \<and>
       buf' @ oks rs' = buf @ oks rs \<and> first_err rs' = first_err rs"
proof (induction rs arbitrary: buf rule: oks.induct)
  case (3 b rs)
  then show ?case using 3(1) [of "buf @ b"] by (cases "length buf < n") auto
qed auto

lemma read_loop_short:
  "length (buf @ oks rs) < n \<Longrightarrow>
     fst (read_loop n rs buf) =
       (case first_err rs of None \<Rightarrow> Blocked | Some e \<Rightarrow> Return (Inl (FailedToRead e)))"
  by (induction rs arbitrary: buf rule: oks.induct) auto

lemma readAtLeast_enough:
  assumes "unat n \<le> length (pending r)"
  obtains r' where "readAtLeast n r = (Return (Inr ()), r')" "unat n \<le> length (messageBin r')"
    "pending r' = pending r" "pending_err r' = pending_err r" "messageSize r' = messageSize r"
  using read_loop_enough [of "unat n" "messageBin r" "binReader r"] assms
  by (auto simp: readAtLeast_def pending_def pending_err_def)

lemma readAtLeast_short:
  assumes "length (pending r) < unat n"
  obtains r' where "readAtLeast n r =
    (case pending_err r of None \<Rightarrow> Blocked | Some e \<Rightarrow> Return (Inl (FailedToRead e)), r')"
  using read_loop_short [of "messageBin r" "binReader r" "unat n"] assms
  by (cases "read_loop (unat n) (binReader r) (messageBin r)")
    (auto simp: readAtLeast_def pending_def pending_err_def)

lemma take_pending:
  "pending r' = pending r \<Longrightarrow> k \<le> length (messageBin r') \<Longrightarrow>
     take k (messageBin r') = take k (pending r)"
  by (simp add: pending_def) (metis append_Nil2 diff_is_0_eq take0 take_append)

lemma drop_pending:
  "pending r' = pending r \<Longrightarrow> k \<le> length (messageBin r') \<Longrightarrow>
     pending (r'\<lparr>messageSize := sz, messageBin := drop k (messageBin r')\<rparr>) = drop k (pending r)"
  by (simp add: pending_def) (metis drop_append diff_is_0_eq drop0)

text \<open>
  The central fact: what a call of \<open>Next\<close> gives depends only on the byte stream that
  is pending and on the error that ends it, never on how the bytes are cut into frames;
  and after a complete frame the stream behind it is what is left.
\<close>

lemma Next_no_header:
  assumes "length (pending r) < 2"
  shows "fst (Next unmarshal r) =
    (case pending_err r of None \<Rightarrow> Blocked | Some e \<Rightarrow> Return (Inl (FailedToRead e)))"
proof -
  from assms have "length (pending r) < unat SizeOfMessageSize"
    by (simp add: SizeOfMessageSize_def)
  then show ?thesis
    by (rule readAtLeast_short) (auto simp: Next_def split: option.splits)
qed

lemma Next_header:
  assumes "2 \<le> length (pending r)"
  obtains r2 where "Next unmarshal r = Next_body unmarshal r2" "pending r2 = pending r"
    "pending_err r2 = pending_err r" "messageSize r2 = be_uint16 (take 2 (pending r))"
proof -
  from assms have "unat SizeOfMessageSize \<le> length (pending r)"
    by (simp add: SizeOfMessageSize_def)
  then obtain r1 where r1: "readAtLeast SizeOfMessageSize r = (Return (Inr ()), r1)"
    and l1: "unat SizeOfMessageSize \<le> length (messageBin r1)"
    and p1: "pending r1 = pending r" "pending_err r1 = pending_err r"
    by (rule readAtLeast_enough)
  let ?r2 = "r1\<lparr>messageSize := be_uint16 (take (unat SizeOfMessageSize) (messageBin r1))\<rparr>"
  have "Next unmarshal r = Next_body unmarshal ?r2"
    by (simp add: Next_def r1)
  moreover have "pending ?r2 = pending r" "pending_err ?r2 = pending_err r"
    using p1 by (simp_all add: pending_def pending_err_def)
  moreover have "messageSize ?r2 = be_uint16 (take 2 (pending r))"
    using take_pending [OF p1(1) l1] by (simp add: SizeOfMessageSize_def)
  ultimately show ?thesis by (rule that)
qed

lemma Next_body_short:
  assumes "length (pending r2) < unat (messageSize r2) + 2" and "\<not> max_body < unat (messageSize r2)"
  shows "fst (Next_body unmarshal r2) =
    (case pending_err r2 of None \<Rightarrow> Blocked | Some e \<Rightarrow> Return (Inl (FailedToRead e)))"
proof -
  from assms have "length (pending r2) < unat (SizeOfMessageSize + messageSize r2)"
    by (simp add: endPos_wraps(2))
  then show ?thesis
    by (rule readAtLeast_short) (auto simp: Next_body_def Let_def split: option.splits)
qed

lemma Next_body_overflow:
  assumes "2 \<le> length (pending r2)" and "max_body < unat (messageSize r2)"
  shows "fst (Next_body unmarshal r2) = Panic"
proof -
  from assms have "unat (SizeOfMessageSize + messageSize r2) \<le> length (pending r2)"
    using endPos_wraps(3) [of "messageSize r2"] by simp
  then show ?thesis
    by (rule readAtLeast_enough) (use assms in \<open>simp add: Next_body_def endPos_wraps(1)\<close>)
qed

lemma Next_body_frame:
  assumes "unat (messageSize r2) + 2 \<le> length (pending r2)" and "\<not> max_body < unat (messageSize r2)"
  shows "fst (Next_body unmarshal r2) = Return
      (case unmarshal (take (unat (messageSize r2)) (drop 2 (pending r2))) of
         Inl e \<Rightarrow> Inl (InvalidProtobuf e) | Inr m \<Rightarrow> Inr m)"
    and "pending (snd (Next_body unmarshal r2)) = drop (unat (messageSize r2) + 2) (pending r2)"
    and "pending_err (snd (Next_body unmarshal r2)) = pending_err r2"
proof -
  let ?k = "unat (messageSize r2) + 2"
  have k: "unat (SizeOfMessageSize + messageSize r2) = ?k"
    using assms(2) by (rule endPos_wraps(2))
  have two: "unat SizeOfMessageSize = 2"
    by (simp add: SizeOfMessageSize_def)
  have no_wrap: "\<not> SizeOfMessageSize + messageSize r2 < SizeOfMessageSize"
    using assms(2) by (simp add: endPos_wraps(1))
  obtain r3 where r3: "readAtLeast (SizeOfMessageSize + messageSize r2) r2 = (Return (Inr ()), r3)"
    and l3: "?k \<le> length (messageBin r3)" and p3: "pending r3 = pending r2"
    and e3: "pending_err r3 = pending_err r2"
    using assms(1) k by (metis readAtLeast_enough)
  let ?r4 = "r3\<lparr>messageSize := 0, messageBin := drop ?k (messageBin r3)\<rparr>"
  have body: "drop 2 (take ?k (messageBin r3)) = take (unat (messageSize r2)) (drop 2 (pending r2))"
    using take_pending [OF p3 l3] by (simp add: drop_take)
  have eq: "Next_body unmarshal r2 =
      (Return (case unmarshal (take (unat (messageSize r2)) (drop 2 (pending r2))) of
         Inl e \<Rightarrow> Inl (InvalidProtobuf e) | Inr m \<Rightarrow> Inr m), ?r4)"
    by (simp add: Next_body_def Let_def r3 no_wrap k two body [simplified] split: sum.splits)
  show "fst (Next_body unmarshal r2) = Return
      (case unmarshal (take (unat (messageSize r2)) (drop 2 (pending r2))) of
         Inl e \<Rightarrow> Inl (InvalidProtobuf e) | Inr m \<Rightarrow> Inr m)"
    and "pending (snd (Next_body unmarshal r2)) = drop ?k (pending r2)"
    and "pending_err (snd (Next_body unmarshal r2)) = pending_err r2"
    using drop_pending [OF p3 l3] e3 by (simp_all add: eq pending_err_def)
qed

lemma Next_refines:
  "fst (Next unmarshal r) = next_spec unmarshal r \<and>
   (\<forall>body rest. split_frame (pending r) = Frame body rest \<longrightarrow>
      pending (snd (Next unmarshal r)) = rest \<and>
      pending_err (snd (Next unmarshal r)) = pending_err r)"
proof (cases "length (pending r) < 2")
  case True
  then show ?thesis
    using Next_no_header [of r unmarshal] by (simp add: next_spec_def split_frame_def)
next
  case False
  then obtain r2 where eq: "Next unmarshal r = Next_body unmarshal r2"
    and r2: "pending r2 = pending r" "pending_err r2 = pending_err r"
      "messageSize r2 = be_uint16 (take 2 (pending r))"
    by (meson Next_header not_less)
  consider (over) "max_body < unat (messageSize r2)"
    | (short) "\<not> max_body < unat (messageSize r2)" "length (pending r2) < unat (messageSize r2) + 2"
    | (frame) "\<not> max_body < unat (messageSize r2)" "unat (messageSize r2) + 2 \<le> length (pending r2)"
    by linarith
  then show ?thesis
  proof cases
    case over
    then show ?thesis
      using False Next_body_overflow [of r2 unmarshal]
      by (simp add: eq next_spec_def split_frame_def r2 Let_def not_less)
  next
    case short
    then show ?thesis
      using False Next_body_short [of r2 unmarshal]
      by (simp add: eq next_spec_def split_frame_def r2 Let_def not_less)
  next
    case frame
    then show ?thesis
      using False Next_body_frame [of r2 unmarshal]
      by (simp add: eq next_spec_def split_frame_def r2 Let_def not_less)
  qed
qed

section \<open>Frame codecs\<close>

text \<open>
  The interface between the writer and the reader: an encoder and a decoder that takes
  one encoded item off the front of a stream.  Its one law is enough to recover a whole
  sequence of items from the concatenation of their encodings.
\<close>

fun decode_n :: "('b list \<Rightarrow> ('p \<times> 'b list) option) \<Rightarrow> nat \<Rightarrow> 'b list \<Rightarrow> ('p list \<times> 'b list) option" where
  "decode_n dec 0 bs = Some ([], bs)"
| "decode_n dec (Suc n) bs =
     (case dec bs of
        None \<Rightarrow> None
      | Some (p, rest) \<Rightarrow> map_option (\<lambda>(ps, rest'). (p # ps, rest')) (decode_n dec n rest))"

locale frame_codec =
  fixes enc :: "'p \<Rightarrow> 'b list"
    and dec :: "'b list \<Rightarrow> ('p \<times> 'b list) option"
    and ok :: "'p \<Rightarrow> bool"
  assumes dec_enc: "ok p \<Longrightarrow> dec (enc p @ rest) = Some (p, rest)"
begin

lemma decode_n_encs:
  "list_all ok ps \<Longrightarrow> decode_n dec (length ps) (concat (map enc ps) @ rest) = Some (ps, rest)"
  by (induction ps) (simp_all add: dec_enc)

lemma prefix_free: "ok p \<Longrightarrow> ok q \<Longrightarrow> enc p @ xs = enc q @ ys \<Longrightarrow> p = q \<and> xs = ys"
  by (metis dec_enc option.inject prod.inject)

lemma stream_inj:
  "list_all ok ps \<Longrightarrow> list_all ok qs \<Longrightarrow> length ps = length qs \<Longrightarrow>
     concat (map enc ps) @ xs = concat (map enc qs) @ ys \<Longrightarrow> ps = qs \<and> xs = ys"
  by (metis decode_n_encs option.inject prod.inject)

end

definition unframe :: "bytes \<Rightarrow> (bytes \<times> bytes) option" where
  "unframe bs = (case split_frame bs of Frame b rest \<Rightarrow> Some (b, rest) | _ \<Rightarrow> None)"

interpretation sized: frame_codec add_size unframe "\<lambda>b. length b \<le> max_body"
  by unfold_locales (simp add: unframe_def split_frame_add_size)

lemma Next_unframe:
  assumes "unframe (pending r) = Some (b, rest)" and "unmarshal b = Inr m"
  obtains r' where "Next unmarshal r = (Return (Inr m), r')" "pending r' = rest"
    "pending_err r' = pending_err r"
  using assms Next_refines [of unmarshal r]
  by (cases "Next unmarshal r") (auto simp: unframe_def next_spec_def split: frame.splits)

lemma read_messages_decode:
  "decode_n unframe n (pending r) = Some (bodies, rest) \<Longrightarrow>
   list_all2 (\<lambda>b m. unmarshal b = Inr m) bodies ms \<Longrightarrow>
   \<exists>r'. read_messages unmarshal n r = Some (ms, r') \<and> pending r' = rest \<and>
     pending_err r' = pending_err r"
proof (induction n arbitrary: r bodies ms)
  case 0
  then show ?case by simp
next
  case (Suc n)
  from Suc.prems(1) obtain b bs rest1 where b: "unframe (pending r) = Some (b, rest1)"
    and bs: "decode_n unframe n rest1 = Some (bs, rest)" and bodies: "bodies = b # bs"
    by (auto split: option.splits)
  from Suc.prems(2) bodies obtain m ms' where m: "unmarshal b = Inr m" "ms = m # ms'"
    and ms': "list_all2 (\<lambda>b m. unmarshal b = Inr m) bs ms'"
    by (auto simp: list_all2_Cons1)
  obtain r1 where r1: "Next unmarshal r = (Return (Inr m), r1)" "pending r1 = rest1"
    "pending_err r1 = pending_err r"
    using b m(1) by (rule Next_unframe)
  from Suc.IH [of r1 bs ms'] r1 bs ms' obtain r' where
    "read_messages unmarshal n r1 = Some (ms', r')" "pending r' = rest"
    "pending_err r' = pending_err r1"
    by auto
  with r1 m show ?case by simp
qed

text \<open>Binary frames, as a sender's \<^verbatim>\<open>WriteMessage\<close> calls deliver them.\<close>

definition binary_frame :: "bytes \<Rightarrow> ws_result" where
  "binary_frame b = \<lparr>ws_type = BinaryMessage, ws_data = b, ws_err = None\<rparr>"

lemma adapter_binary_frames [simp]:
  "map binaryReaderWSAdapter_Read (map binary_frame bs) = map Inr bs"
  by (simp add: binary_frame_def binaryReaderWSAdapter_Read_def)

definition ws_reader :: "ws_result list \<Rightarrow> reader" where
  "ws_reader fs = NewMessageReader (NewBReaderFromWSReader fs)"

lemma pending_ws_reader [simp]:
  "pending (ws_reader fs) = oks (map binaryReaderWSAdapter_Read fs)"
  "pending_err (ws_reader fs) = first_err (map binaryReaderWSAdapter_Read fs)"
  by (simp_all add: ws_reader_def NewMessageReader_def NewBReaderFromWSReader_def
      pending_def pending_err_def)

lemma oks_append_binary [simp]:
  "oks (map binaryReaderWSAdapter_Read (map binary_frame bs @ fs)) =
     concat bs @ oks (map binaryReaderWSAdapter_Read fs)"
  "first_err (map binaryReaderWSAdapter_Read (map binary_frame bs @ fs)) =
     first_err (map binaryReaderWSAdapter_Read fs)"
  by (induction bs) (simp_all add: binary_frame_def binaryReaderWSAdapter_Read_def)

lemma SerializeMessage_Inr:
  "SerializeMessage marshal m = Inr s \<longleftrightarrow> (\<exists>b. marshal m = Inr b \<and> s = add_size b)"
  by (auto simp: SerializeMessage_def split: sum.splits)

lemma serialize_bodies:
  assumes "codec_roundtrip marshal unmarshal"
  shows "map (SerializeMessage marshal) ms = map Inr bins \<Longrightarrow>
    \<exists>bodies. bins = map add_size bodies \<and> list_all2 (\<lambda>b m. unmarshal b = Inr m) bodies ms"
proof (induction ms arbitrary: bins)
  case (Cons m ms)
  then obtain b bins' where "bins = add_size b # bins'" "marshal m = Inr b"
    "map (SerializeMessage marshal) ms = map Inr bins'"
    by (cases bins) (auto simp: SerializeMessage_Inr)
  moreover from Cons.IH [OF this(3)] obtain bodies where "bins' = map add_size bodies"
    "list_all2 (\<lambda>b m. unmarshal b = Inr m) bodies ms"
    by blast
  ultimately show ?case
    using assms by (intro exI [of _ "b # bodies"]) (auto simp: codec_roundtrip_def)
qed simp

text \<open>Reading back what was serialized.\<close>

lemma read_serialized:
  assumes "codec_roundtrip marshal unmarshal"
    and "map (SerializeMessage marshal) ms = map Inr bins"
    and "\<forall>b \<in> set bins. length b \<le> 65535"
    and "concat chunks = concat bins"
  shows "\<exists>r'. read_messages unmarshal (length ms) (ws_reader (map binary_frame chunks)) =
           Some (ms, r') \<and> messageBin r' = []"
proof -
  obtain bodies where bins: "bins = map add_size bodies"
    and bodies: "list_all2 (\<lambda>b m. unmarshal b = Inr m) bodies ms"
    using serialize_bodies [OF assms(1,2)] by blast
  have "list_all (\<lambda>b. length b \<le> max_body) bodies"
    using assms(3) by (auto simp: bins list_all_iff max_body_def)
  then have "decode_n unframe (length bodies) (concat (map add_size bodies)) = Some (bodies, [])"
    using sized.decode_n_encs [of bodies "[]"] by simp
  moreover have "pending (ws_reader (map binary_frame chunks)) = concat (map add_size bodies)"
    using assms(4) oks_append_binary(1) [of chunks "[]"] by (simp add: bins)
  moreover have "length bodies = length ms"
    using bodies by (rule list_all2_lengthD)
  ultimately show ?thesis
    using read_messages_decode [OF _ bodies, of "length ms" "ws_reader (map binary_frame chunks)" "[]"]
    by (auto simp: pending_def)
qed

section \<open>Properties\<close>

text \<open>
  C13 (refinement): a call of \<^verbatim>\<open>Next\<close> behaves as one step of a parser of the pending byte
  stream: it waits, fails, panics or delivers exactly as the length prefix of that stream
  says, however the stream is cut into websocket frames; when it takes a frame, what
  remains pending is what stands behind the frame, and the error at the end of the stream
  is still to come.
\<close>

theorem Next_refines_byte_stream:
  "fst (Next unmarshal r) = next_spec unmarshal r \<and>
   (\<forall>body rest. split_frame (pending r) = Frame body rest \<longrightarrow>
      pending (snd (Next unmarshal r)) = rest \<and>
      pending_err (snd (Next unmarshal r)) = pending_err r)"
  by (rule Next_refines)

theorem Next_refines_byte_stream_witness:
  "(let r = ws_reader (map binary_frame [[0], [1, 7], [0, 1, 9]])
    in pending (snd (Next (\<lambda>b. Inr (zero_message\<lparr>Payload := b\<rparr>)) r)) = [0, 1, 9])"
proof -
  have "split_frame (pending (ws_reader (map binary_frame [[0], [1, 7], [0, 1, 9]]))) =
      Frame [7] [0, 1, 9]"
    by (simp add: oks_append_binary(1) [of _ "[]", simplified] split_frame_def max_body_def
        del: list.map)
  then show ?thesis
    using Next_refines_byte_stream [of "\<lambda>b. Inr (zero_message\<lparr>Payload := b\<rparr>)"
        "ws_reader (map binary_frame [[0], [1, 7], [0, 1, 9]])"]
    unfolding Let_def by blast
qed

text \<open>
  C4 (roundtrip): messages written with \<^verbatim>\<open>SerializeMessage\<close> arrive intact and in order
  whatever the fragmentation: if the bytes of the serialized messages, each of at most
  65533 bytes of protobuf, reach the reader in any division into binary websocket frames,
  then reading as many messages as were written gives exactly these messages, and no byte
  is left in the reader's buffer.
\<close>

theorem serialized_messages_survive_fragmentation:
  assumes "codec_roundtrip marshal unmarshal"
    and "map (SerializeMessage marshal) ms = map Inr bins"
    and "\<forall>b \<in> set bins. length b \<le> 65535"
    and "concat chunks = concat bins"
  shows "\<exists>r'. read_messages unmarshal (length ms) (ws_reader (map binary_frame chunks)) =
           Some (ms, r') \<and> messageBin r' = []"
  by (rule read_serialized [OF assms])

text \<open>A codec that satisfies the hypothesis, for the witnesses: messages with a payload only.\<close>

definition payload_marshal :: "message \<Rightarrow> string + bytes" where
  "payload_marshal m =
     (if m = zero_message\<lparr>Payload := Payload m\<rparr> then Inr (Payload m) else Inl ''unsupported'')"

definition payload_unmarshal :: "bytes \<Rightarrow> string + message" where
  "payload_unmarshal b = Inr (zero_message\<lparr>Payload := b\<rparr>)"

lemma payload_codec: "codec_roundtrip payload_marshal payload_unmarshal"
  by (simp add: codec_roundtrip_def payload_marshal_def payload_unmarshal_def split: if_splits)

theorem serialized_messages_survive_fragmentation_witness:
  "\<exists>r'. read_messages payload_unmarshal (length [(), ()])
       (ws_reader (map binary_frame [[0], [1, 7, 0], [], [2, 8, 9]])) =
     Some ([zero_message\<lparr>Payload := [7]\<rparr>, zero_message\<lparr>Payload := [8, 9]\<rparr>], r') \<and> messageBin r' = []"
proof -
  let ?ms = "[zero_message\<lparr>Payload := [7]\<rparr>, zero_message\<lparr>Payload := [8, 9]\<rparr>]"
  have "map (SerializeMessage payload_marshal) ?ms = map Inr [[0, 1, 7], [0, 2, 8, 9]]"
    by (simp add: SerializeMessage_def payload_marshal_def zero_message_def add_size_def
        put_be_uint16_def)
  note w = serialized_messages_survive_fragmentation [OF payload_codec this,
      of "[[0], [1, 7, 0], [], [2, 8, 9]]"]
  have len: "length ?ms = length [(), ()]" by simp
  show ?thesis by (rule w [unfolded len]) simp_all
qed

text \<open>
  C37 (safety): \<^verbatim>\<open>Next\<close> panics on an oversized length prefix.  The end position
  is computed in \<^verbatim>\<open>uint16\<close>, so for a prefix of 65534 or 65535 it wraps to 0 or 1 and the
  slice \<open>messageBin[2:end]\<close> is out of order; the panic happens whatever follows and however
  the bytes arrive, and for no other prefix.
\<close>

theorem Next_panics_iff_size_wraps:
  "fst (Next unmarshal r) = Panic \<longleftrightarrow>
     2 \<le> length (pending r) \<and> 65534 \<le> unat (be_uint16 (take 2 (pending r)))"
  using Next_refines [of unmarshal r]
  by (auto simp: next_spec_def split_frame_def max_body_def Let_def split: option.splits)

text \<open>
  The writer does not reject what the reader cannot take.  A message whose
  protobuf body has 65534 or 65535 bytes is serialized without an error and makes the
  reader on the other side panic.
\<close>

theorem oversized_message_panics_reader:
  assumes "marshal m = Inr b" and "65534 \<le> length b" and "length b \<le> 65535"
    and "pending r = add_size b @ rest"
  shows "SerializeMessage marshal m = Inr (add_size b) \<and> fst (Next unmarshal r) = Panic"
proof -
  have "split_frame (pending r) = SizeOverflow"
    using assms(2-4)
    by (simp add: split_frame_def add_size_def unat_of_length max_body_def)
  then have "fst (Next unmarshal r) = Panic"
    using Next_refines [of unmarshal r] by (simp add: next_spec_def)
  with assms(1) show ?thesis by (simp add: SerializeMessage_def)
qed

theorem oversized_message_panics_reader_witness:
  "fst (Next payload_unmarshal (ws_reader [binary_frame (add_size (replicate 65534 1))])) = Panic"
proof -
  have "pending (ws_reader [binary_frame (add_size (replicate 65534 1))]) =
      add_size (replicate 65534 1) @ []"
    by (simp add: binary_frame_def binaryReaderWSAdapter_Read_def)
  then show ?thesis
    using oversized_message_panics_reader [of payload_marshal
        "zero_message\<lparr>Payload := replicate 65534 1\<rparr>" "replicate 65534 1" _ "[]" payload_unmarshal]
    by (simp add: payload_marshal_def)
qed

text \<open>
  A body of 65536 bytes or more is also serialized without an
  error, with the length modulo 65536 in front.  The reader then takes a proper prefix of
  the body as a whole message and starts the next message inside the payload: the stream
  is out of step.
\<close>

theorem truncated_size_desynchronises_reader:
  assumes "marshal m = Inr b" and "65536 \<le> length b" and "length b mod 65536 \<le> 65533"
    and "pending r = add_size b"
  defines "k \<equiv> length b mod 65536"
  shows "SerializeMessage marshal m = Inr (add_size b) \<and>
    fst (Next unmarshal r) =
      Return (case unmarshal (take k b) of Inl e \<Rightarrow> Inl (InvalidProtobuf e) | Inr m' \<Rightarrow> Inr m') \<and>
    pending (snd (Next unmarshal r)) = drop k b \<and> drop k b \<noteq> []"
proof -
  have "split_frame (pending r) = Frame (take k b) (drop k b)"
    using split_frame_truncated [of b] assms(3,4) by (simp add: max_body_def k_def)
  moreover have "drop k b \<noteq> []"
    using assms(2) mod_less_divisor [of 65536 "length b"] by (auto simp: k_def)
  ultimately show ?thesis
    using assms(1) Next_refines [of unmarshal r] by (simp add: SerializeMessage_def next_spec_def)
qed

theorem truncated_size_desynchronises_reader_witness:
  "pending (snd (Next payload_unmarshal (ws_reader [binary_frame (add_size (replicate 65536 1))]))) =
     replicate 65536 1"
proof -
  have "pending (ws_reader [binary_frame (add_size (replicate 65536 1))]) =
      add_size (replicate 65536 1)"
    by (simp add: binary_frame_def binaryReaderWSAdapter_Read_def)
  then show ?thesis
    using truncated_size_desynchronises_reader [of payload_marshal
        "zero_message\<lparr>Payload := replicate 65536 1\<rparr>" "replicate 65536 1" _ payload_unmarshal]
    by (simp add: payload_marshal_def)
qed

text \<open>
  C38 (error): a read error or a text frame is what \<^verbatim>\<open>Next\<close> reports exactly when the frames before
  it hold too little for a message; when they hold a whole message, or a size with which \<^verbatim>\<open>Next\<close>
  panics, the bad frame is not reported.  What comes behind it makes no difference.
\<close>

theorem bad_frame_is_reported:
  assumes "ws_err f = Some e \<or> (ws_err f = None \<and> ws_type f \<noteq> BinaryMessage)"
  shows "fst (Next unmarshal (ws_reader (map binary_frame chunks @ f # fs))) =
    Return (Inl (FailedToRead
      (case ws_err f of Some e' \<Rightarrow> ReadMessageError e' | None \<Rightarrow> OnlyBinaryAccepted))) \<longleftrightarrow>
    split_frame (concat chunks) = NeedMore"
  using assms Next_refines [of unmarshal "ws_reader (map binary_frame chunks @ f # fs)"]
  by (auto simp: next_spec_def binaryReaderWSAdapter_Read_def split: frame.splits sum.splits
      simp del: map_append)

theorem bad_frame_is_reported_witness:
  "fst (Next payload_unmarshal
     (ws_reader [binary_frame [0], \<lparr>ws_type = 1, ws_data = [1, 7], ws_err = None\<rparr>])) =
   Return (Inl (FailedToRead OnlyBinaryAccepted))"
  using bad_frame_is_reported [of "\<lparr>ws_type = 1, ws_data = [1, 7], ws_err = None\<rparr>" undefined
      payload_unmarshal "[[0]]" "[]"]
  by (simp add: BinaryMessage_def split_frame_def)

end
