(* ===== verification/Go_Strings.thy ===== *)
theory Go_Strings
  imports Prelude
begin

text \<open>
  The functions of Go's \<^verbatim>\<open>strings\<close> and \<^verbatim>\<open>strconv\<close> that the sources call, on byte
  strings: \<^verbatim>\<open>strings.Split\<close>, \<^verbatim>\<open>strings.Join\<close>, \<^verbatim>\<open>strings.TrimSpace\<close>,
  \<^verbatim>\<open>strings.ToLower\<close> (ASCII) and \<^verbatim>\<open>strconv.ParseUint\<close> in base 10.
\<close>

section \<open>Splitting and joining\<close>

text \<open>
  \<^verbatim>\<open>strings.Split\<close> with a non-empty separator: the parts between successive
  leftmost, non-overlapping occurrences.
\<close>

function split_on :: "string \<Rightarrow> string \<Rightarrow> string list" where
  "split_on sep [] = [[]]"
| "split_on sep (c # cs) =
     (if sep \<noteq> [] \<and> prefix sep (c # cs) then [] # split_on sep (drop (length sep) (c # cs))
      else (case split_on sep cs of [] \<Rightarrow> [[c]] | p # ps \<Rightarrow> (c # p) # ps))"
  by pat_completeness auto
termination
  by (relation "measure (\<lambda>(sep, s). length s)") (auto simp: neq_Nil_conv)

fun join :: "string \<Rightarrow> string list \<Rightarrow> string" where
  "join sep [] = []"
| "join sep [p] = p"
| "join sep (p # q # ps) = p @ sep @ join sep (q # ps)"

lemma split_on_nonempty [simp]: "split_on sep s \<noteq> []"
  by (cases s) (auto split: list.splits)

lemma join_Cons: "ps \<noteq> [] \<Longrightarrow> join sep (p # ps) = p @ sep @ join sep ps"
  by (cases ps) simp_all

lemma join_Cons_char: "join sep ((c # p) # ps) = c # join sep (p # ps)"
  by (cases ps) simp_all

lemma join_split_on: "join sep (split_on sep s) = s"
proof (induction sep s rule: split_on.induct)
  case (2 sep c cs)
  show ?case
  proof (cases "sep \<noteq> [] \<and> prefix sep (c # cs)")
    case True
    then have "join sep (split_on sep (c # cs)) = sep @ drop (length sep) (c # cs)"
      using 2(1) by (simp add: join_Cons)
    also have "\<dots> = c # cs"
      using True by (auto elim: prefixE)
    finally show ?thesis .
  next
    case False
    then show ?thesis
      using 2(2) by (cases "split_on sep cs") (auto simp: join_Cons_char)
  qed
qed simp

lemma split_on_char_part:
  "p \<in> set (split_on [x] s) \<Longrightarrow> x \<notin> set p"
proof (induction "[x]" s arbitrary: p rule: split_on.induct)
  case (2 c cs)
  then show ?case
    by (cases "split_on [x] cs") (auto split: if_splits)
qed simp

lemma split_on_char_subset: "p \<in> set (split_on [x] s) \<Longrightarrow> set p \<subseteq> set s"
proof (induction "[x]" s arbitrary: p rule: split_on.induct)
  case (2 c cs)
  then show ?case
    by (cases "split_on [x] cs") (fastforce split: if_splits)+
qed simp

lemma split_on_char_append:
  "x \<notin> set p \<Longrightarrow> split_on [x] (p @ x # rest) = p # split_on [x] rest"
  by (induction p) auto

lemma split_on_char_id: "x \<notin> set p \<Longrightarrow> split_on [x] p = [p]"
  by (induction p) auto

lemma split_on_char_join:
  "ps \<noteq> [] \<Longrightarrow> \<forall>p \<in> set ps. x \<notin> set p \<Longrightarrow> split_on [x] (join [x] ps) = ps"
  by (induction "[x]" ps rule: join.induct)
    (auto simp: split_on_char_id split_on_char_append)

lemma length_split_on_char: "length (split_on [x] s) = Suc (count_list s x)"
proof (induction "[x]" s rule: split_on.induct)
  case (2 c cs)
  then show ?case by (cases "split_on [x] cs") auto
qed simp

text \<open>The same facts for the three-character separator of an address.\<close>

lemma not_sublist_Cons: "\<not> sublist sep (c # cs) \<Longrightarrow> \<not> sublist sep cs \<and> \<not> prefix sep (c # cs)"
  by (simp add: sublist_Cons_right)

lemma split_on_id: "\<not> sublist sep s \<Longrightarrow> split_on sep s = [s]"
  by (induction s) (auto simp: sublist_Cons_right)

lemma split_on_url_append:
  "\<not> sublist ''://'' p \<Longrightarrow> split_on ''://'' (p @ '':/'' @ CHR ''/'' # rest) = p # split_on ''://'' rest"
proof (induction p)
  case (Cons c p)
  then have "\<not> sublist ''://'' p" "\<not> prefix ''://'' (c # p)"
    using not_sublist_Cons [OF Cons.prems] by (simp_all only: simp_thms)
  moreover have "\<not> prefix ''://'' (c # p @ '':/'' @ CHR ''/'' # rest)"
    using \<open>\<not> prefix ''://'' (c # p)\<close>
    by (cases p; cases "tl p") (auto split: if_splits)
  ultimately show ?case using Cons.IH by simp
qed simp

lemma split_on_head_part: "split_on sep s = p # ps \<Longrightarrow> sep \<noteq> [] \<Longrightarrow> \<not> sublist sep p"
proof (induction sep s arbitrary: p ps rule: split_on.induct)
  case (2 sep c cs)
  show ?case
  proof (cases "prefix sep (c # cs)")
    case True
    with 2 show ?thesis by auto
  next
    case False
    obtain q qs where q: "split_on sep cs = q # qs"
      by (cases "split_on sep cs") auto
    with False 2(3,4) have p: "p = c # q" by simp
    from 2(2) False q 2(4) have "\<not> sublist sep q" by blast
    moreover have "prefix q cs"
      using join_split_on [of sep cs] q by (cases qs) auto
    then have "\<not> prefix sep (c # q)"
      using False by (meson Cons_prefix_Cons prefix_order.trans)
    ultimately show ?thesis by (simp add: p sublist_Cons_right)
  qed
qed auto

lemma split_on_part: "q \<in> set (split_on sep s) \<Longrightarrow> sep \<noteq> [] \<Longrightarrow> \<not> sublist sep q"
proof (induction sep s arbitrary: q rule: split_on.induct)
  case (2 sep c cs)
  show ?case
  proof (cases "prefix sep (c # cs)")
    case True
    with 2 show ?thesis by auto
  next
    case False
    obtain p ps where p: "split_on sep cs = p # ps"
      by (cases "split_on sep cs") auto
    then have sp: "split_on sep (c # cs) = (c # p) # ps" using False by simp
    show ?thesis
    proof (cases "q = c # p")
      case True
      then show ?thesis using split_on_head_part [OF sp 2(4)] by simp
    next
      case False
      then have "q \<in> set (split_on sep cs)" using 2(3) sp p by simp
      then show ?thesis using 2(2,4) \<open>\<not> prefix sep (c # cs)\<close> by blast
    qed
  qed
qed auto

section \<open>Trimming\<close>

text \<open>
  \<^verbatim>\<open>strings.TrimSpace\<close> removes the Unicode white space at both ends.  On bytes these are
  the ASCII spaces and the UTF-8 encodings of U+0085, U+00A0, U+1680, U+2000 to U+200A,
  U+2028, U+2029, U+202F, U+205F and U+3000; a byte that starts or ends no such encoding
  stops the trimming.
\<close>

definition code :: "char \<Rightarrow> nat" where
  "code c = of_char c"

definition is_space1 :: "char \<Rightarrow> bool" where
  "is_space1 a \<longleftrightarrow> 9 \<le> code a \<and> code a \<le> 13 \<or> code a = 32"

definition is_space2 :: "char \<Rightarrow> char \<Rightarrow> bool" where
  "is_space2 a b \<longleftrightarrow> code a = 0xC2 \<and> (code b = 0x85 \<or> code b = 0xA0)"

definition is_space3 :: "char \<Rightarrow> char \<Rightarrow> char \<Rightarrow> bool" where
  "is_space3 a b c \<longleftrightarrow>
     code a = 0xE1 \<and> code b = 0x9A \<and> code c = 0x80 \<or>
     code a = 0xE2 \<and> code b = 0x80 \<and>
       (0x80 \<le> code c \<and> code c \<le> 0x8A \<or> code c = 0xA8 \<or> code c = 0xA9 \<or> code c = 0xAF) \<or>
     code a = 0xE2 \<and> code b = 0x81 \<and> code c = 0x9F \<or>
     code a = 0xE3 \<and> code b = 0x80 \<and> code c = 0x80"

text \<open>The length of the white space at the front of a string, and of a reversed string.\<close>

fun lead_space :: "string \<Rightarrow> nat" where
  "lead_space [] = 0"
| "lead_space [a] = (if is_space1 a then 1 else 0)"
| "lead_space [a, b] = (if is_space1 a then 1 else if is_space2 a b then 2 else 0)"
| "lead_space (a # b # c # _) =
     (if is_space1 a then 1 else if is_space2 a b then 2 else if is_space3 a b c then 3 else 0)"

fun trail_space :: "string \<Rightarrow> nat" where
  "trail_space [] = 0"
| "trail_space [c] = (if is_space1 c then 1 else 0)"
| "trail_space [c, b] = (if is_space1 c then 1 else if is_space2 b c then 2 else 0)"
| "trail_space (c # b # a # _) =
     (if is_space1 c then 1 else if is_space2 b c then 2 else if is_space3 a b c then 3 else 0)"

function strip :: "(string \<Rightarrow> nat) \<Rightarrow> string \<Rightarrow> string" where
  "strip f [] = []"
| "strip f (c # cs) = (if f (c # cs) = 0 then c # cs else strip f (drop (f (c # cs)) (c # cs)))"
  by pat_completeness auto
termination
  by (relation "measure (\<lambda>(f, s). length s)") auto

declare strip.simps [simp del]

definition TrimSpace :: "string \<Rightarrow> string" where
  "TrimSpace s = rev (strip trail_space (rev (strip lead_space s)))"

definition trimmed :: "string \<Rightarrow> bool" where
  "trimmed s \<longleftrightarrow> lead_space s = 0 \<and> trail_space (rev s) = 0"

lemma strip_id: "f s = 0 \<Longrightarrow> strip f s = s"
  by (cases s) (simp_all add: strip.simps)

lemma strip_step: "f s \<noteq> 0 \<Longrightarrow> s \<noteq> [] \<Longrightarrow> strip f s = strip f (drop (f s) s)"
  by (cases s) (simp_all add: strip.simps(2))

lemma strip_done: "f [] = 0 \<Longrightarrow> f (strip f s) = 0"
proof (induction f s rule: strip.induct)
  case (2 f c cs)
  then show ?case by (cases "f (c # cs) = 0") (auto simp: strip_id strip_step)
qed (simp add: strip.simps)

lemma suffix_strip: "suffix (strip f s) s"
proof (induction f s rule: strip.induct)
  case (2 f c cs)
  show ?case
  proof (cases "f (c # cs) = 0")
    case True
    then show ?thesis by (simp add: strip_id)
  next
    case False
    then have "suffix (strip f (c # cs)) (drop (f (c # cs)) (c # cs))"
      using 2 by (simp add: strip_step)
    then show ?thesis by (meson suffix_drop suffix_order.trans)
  qed
qed (simp add: strip.simps)

lemma lead_space_prefix: "prefix t s \<Longrightarrow> lead_space s = 0 \<Longrightarrow> lead_space t = 0"
  by (induction s rule: lead_space.induct; cases t rule: lead_space.cases) (auto split: if_splits)

lemma trimmed_TrimSpace [simp]: "trimmed (TrimSpace s)"
proof -
  have "suffix (strip trail_space (rev (strip lead_space s))) (rev (strip lead_space s))"
    by (rule suffix_strip)
  then have "prefix (TrimSpace s) (strip lead_space s)"
    by (simp add: TrimSpace_def suffix_to_prefix)
  then show ?thesis
    by (simp add: trimmed_def lead_space_prefix strip_done) (simp add: TrimSpace_def strip_done)
qed

lemma TrimSpace_id [simp]: "trimmed s \<Longrightarrow> TrimSpace s = s"
  by (simp add: TrimSpace_def trimmed_def strip_id)

lemma TrimSpace_idem [simp]: "TrimSpace (TrimSpace s) = TrimSpace s"
  by simp

lemma set_TrimSpace: "set (TrimSpace s) \<subseteq> set s"
proof -
  have "set (strip f t) \<subseteq> set t" for f t
    using suffix_strip by (rule set_mono_suffix)
  then show ?thesis unfolding TrimSpace_def by (metis set_rev subset_trans)
qed

lemma trimmed_Nil [simp]: "trimmed []"
  by (simp add: trimmed_def)

text \<open>
  A string that begins and ends with trimmed, non-empty pieces is trimmed when the joint
  between them is printable ASCII: no encoding of a space contains such a character.
\<close>

definition graphic :: "char \<Rightarrow> bool" where
  "graphic c \<longleftrightarrow> 33 \<le> code c \<and> code c \<le> 126"

lemma graphic_no_space [simp]:
  assumes "graphic a"
  shows "\<not> is_space1 a" "\<not> is_space2 a b" "\<not> is_space2 b a"
    "\<not> is_space3 a b c" "\<not> is_space3 b a c" "\<not> is_space3 b c a"
  using assms by (auto simp: graphic_def is_space1_def is_space2_def is_space3_def)

lemma lead_space_append_graphic:
  "graphic x \<Longrightarrow> lead_space (s @ x # t) = lead_space s"
  by (cases s rule: lead_space.cases; cases t; cases "tl t") auto

lemma trail_space_append_graphic:
  "graphic x \<Longrightarrow> trail_space (s @ x # t) = trail_space s"
  by (cases s rule: trail_space.cases; cases t; cases "tl t") auto

lemma trimmed_append_graphic:
  "graphic x \<Longrightarrow> trimmed (s @ x # t) \<longleftrightarrow> lead_space s = 0 \<and> trail_space (rev t) = 0"
  by (simp add: trimmed_def lead_space_append_graphic trail_space_append_graphic)

section \<open>Numbers and letters\<close>

definition is_digit :: "char \<Rightarrow> bool" where
  "is_digit c \<longleftrightarrow> 48 \<le> code c \<and> code c \<le> 57"

definition digits_val :: "string \<Rightarrow> nat" where
  "digits_val s = foldl (\<lambda>n c. 10 * n + (code c - 48)) 0 s"

text \<open>\<^verbatim>\<open>strconv.ParseUint(s, 10, bits)\<close>: \<open>None\<close> is a syntax or range error.\<close>

definition ParseUint10 :: "nat \<Rightarrow> string \<Rightarrow> nat option" where
  "ParseUint10 bits s =
     (if s \<noteq> [] \<and> list_all is_digit s \<and> digits_val s < 2 ^ bits then Some (digits_val s)
      else None)"

lemma is_digit_graphic: "is_digit c \<Longrightarrow> graphic c"
  by (simp add: is_digit_def graphic_def)

lemma ParseUint10_Some:
  "ParseUint10 bits s = Some n \<Longrightarrow> n < 2 ^ bits \<and> s \<noteq> [] \<and> list_all is_digit s"
  by (auto simp: ParseUint10_def split: if_splits)

definition lower_char :: "char \<Rightarrow> char" where
  "lower_char c = (if 65 \<le> code c \<and> code c \<le> 90 then char_of (code c + 32) else c)"

definition ToLower :: "string \<Rightarrow> string" where
  "ToLower = map lower_char"

end
