(* ===== verification/Service_Config.thy ===== *)
theory Service_Config
  imports Go_Strings
begin

text \<open>
  The parser of service configurations, \<^verbatim>\<open>proxy/serviceconfig.go\<close>: \<^verbatim>\<open>ParseURL\<close>
  and \<^verbatim>\<open>ParseServiceConfig\<close> with every error branch.
\<close>

section \<open>Model\<close>

datatype config_error =
    InvalidAddressFormat string   \<comment> \<open>``invalid address format. format=...''\<close>
  | InvalidPort string            \<comment> \<open>``invalid port number. port=...''\<close>
  | InvalidServiceFormat string   \<comment> \<open>``invalid service format -> ...''\<close>

record ServiceConfig =
  ServiceID :: string
  Network :: string
  Address :: string

text \<open>
  The first switch reports \<^verbatim>\<open>address\<close>, which is still empty there, and not the
  \<^verbatim>\<open>url\<close> it rejects.
\<close>

definition ParseURL :: "string \<Rightarrow> config_error + string \<times> string" where
  "ParseURL url =
     (case (case split_on ''://'' url of
              [p0] \<Rightarrow> Inr (''tcp'', p0)
            | [p0, p1] \<Rightarrow> Inr (p0, p1)
            | _ \<Rightarrow> Inl (InvalidAddressFormat '''')) of
        Inl e \<Rightarrow> Inl e
      | Inr (network0, address) \<Rightarrow>
          let network = TrimSpace network0 in
          if network = ''unix'' then Inr (network, address)
          else
            (case (case split_on '':'' address of
                     [p0] \<Rightarrow> Inr (''localhost'', p0)
                   | [p0, p1] \<Rightarrow> Inr (p0, p1)
                   | _ \<Rightarrow> Inl (InvalidAddressFormat address)) of
               Inl e \<Rightarrow> Inl e
             | Inr (host0, port0) \<Rightarrow>
                 let host = TrimSpace host0; port = TrimSpace port0 in
                 (case ParseUint10 16 port of
                    None \<Rightarrow> Inl (InvalidPort port)
                  | Some _ \<Rightarrow> Inr (network, host @ '':'' @ port))))"

text \<open>The body of the loop of \<^verbatim>\<open>ParseServiceConfig\<close>.\<close>

definition parse_service :: "string \<Rightarrow> string \<Rightarrow> config_error + ServiceConfig" where
  "parse_service serviceStr service =
     (case (case split_on ''='' service of
              [p0] \<Rightarrow> Inr ('''', p0)
            | [p0, p1] \<Rightarrow> Inr (p0, p1)
            | _ \<Rightarrow> Inl (InvalidServiceFormat serviceStr)) of
        Inl e \<Rightarrow> Inl e
      | Inr (serviceID, url) \<Rightarrow>
          (case ParseURL (TrimSpace url) of
             Inl e \<Rightarrow> Inl e
           | Inr (network, address) \<Rightarrow>
               Inr \<lparr>ServiceID = TrimSpace serviceID, Network = network, Address = address\<rparr>))"

fun parse_services :: "string \<Rightarrow> string list \<Rightarrow> config_error + ServiceConfig list" where
  "parse_services serviceStr [] = Inr []"
| "parse_services serviceStr (s # ss) =
     (case parse_service serviceStr s of
        Inl e \<Rightarrow> Inl e
      | Inr c \<Rightarrow>
          (case parse_services serviceStr ss of
             Inl e \<Rightarrow> Inl e
           | Inr cs \<Rightarrow> Inr (c # cs)))"

definition ParseServiceConfig :: "string \<Rightarrow> config_error + ServiceConfig list" where
  "ParseServiceConfig serviceStr = parse_services serviceStr (split_on '','' serviceStr)"

text \<open>The canonical spelling of a configuration.\<close>

definition show_config :: "ServiceConfig \<Rightarrow> string" where
  "show_config c = ServiceID c @ ''='' @ Network c @ ''://'' @ Address c"

section \<open>Addresses\<close>

text \<open>What \<^verbatim>\<open>ParseURL\<close> accepts, seen from its result.\<close>

definition url_ok :: "string \<Rightarrow> string \<Rightarrow> bool" where
  "url_ok network address \<longleftrightarrow>
     trimmed network \<and> \<not> sublist ''://'' network \<and>
     (if network = ''unix'' then \<not> sublist ''://'' address
      else \<exists>host port. address = host @ '':'' @ port \<and> trimmed host \<and> CHR '':'' \<notin> set host \<and>
        ParseUint10 16 port \<noteq> None)"

lemma no_url_sep: "x \<in> {CHR '':'', CHR ''/''} \<Longrightarrow> x \<notin> set s \<Longrightarrow> \<not> sublist ''://'' s"
  by (auto simp: sublist_def)

lemma digits_not_colon: "list_all is_digit s \<Longrightarrow> CHR '':'' \<notin> set s \<and> CHR ''/'' \<notin> set s"
  by (auto simp: list_all_iff is_digit_def code_def)

lemma trimmed_tcp [simp]: "trimmed ''tcp''"
  by (simp add: trimmed_def is_space1_def is_space2_def is_space3_def code_def)

lemma digits_trimmed: "s \<noteq> [] \<Longrightarrow> list_all is_digit s \<Longrightarrow> trimmed s"
proof -
  assume "s \<noteq> []" "list_all is_digit s"
  then have g: "\<forall>c \<in> set s. graphic c" "\<forall>c \<in> set (rev s). graphic c"
    by (auto simp: list_all_iff is_digit_graphic)
  have "lead_space t = 0 \<and> trail_space t = 0" if "\<forall>c \<in> set t. graphic c" for t
    using that by (cases t; cases "tl t"; cases "tl (tl t)") auto
  with g show ?thesis by (simp add: trimmed_def)
qed

lemma sublist_TrimSpace: "sublist (TrimSpace s) s"
proof -
  have "suffix (strip trail_space (rev (strip lead_space s))) (rev (strip lead_space s))"
    by (rule suffix_strip)
  then have "sublist (TrimSpace s) (strip lead_space s)"
    by (simp add: TrimSpace_def suffix_to_prefix prefix_imp_sublist)
  moreover have "sublist (strip lead_space s) s"
    using suffix_strip by (rule suffix_imp_sublist)
  ultimately show ?thesis by (rule sublist_order.order.trans)
qed

lemma no_sep_TrimSpace: "\<not> sublist x s \<Longrightarrow> \<not> sublist x (TrimSpace s)"
  using sublist_TrimSpace sublist_order.order.trans by blast

text \<open>Every way in which \<^verbatim>\<open>ParseURL\<close> succeeds.\<close>

lemma ParseURL_Inr:
  assumes "ParseURL url = Inr (network, address)"
  obtains n0 a where
    "split_on ''://'' url = [a] \<and> n0 = ''tcp'' \<or> split_on ''://'' url = [n0, a]"
    "network = TrimSpace n0"
    "network = ''unix'' \<and> address = a \<or>
     network \<noteq> ''unix'' \<and>
       (\<exists>h p. (split_on '':'' a = [p] \<and> h = ''localhost'' \<or> split_on '':'' a = [h, p]) \<and>
         address = TrimSpace h @ '':'' @ TrimSpace p \<and> ParseUint10 16 (TrimSpace p) \<noteq> None)"
proof -
  obtain n0 a where
    split: "split_on ''://'' url = [a] \<and> n0 = ''tcp'' \<or> split_on ''://'' url = [n0, a]"
    using assms by (fastforce simp: ParseURL_def split: list.splits)
  have "network = TrimSpace n0 \<and> (network = ''unix'' \<and> address = a \<or>
     network \<noteq> ''unix'' \<and>
       (\<exists>h p. (split_on '':'' a = [p] \<and> h = ''localhost'' \<or> split_on '':'' a = [h, p]) \<and>
         address = TrimSpace h @ '':'' @ TrimSpace p \<and> ParseUint10 16 (TrimSpace p) \<noteq> None))"
    using assms split
    by (auto simp: ParseURL_def Let_def split: list.splits if_splits option.splits)
  with split show ?thesis by (intro that [of a n0]) auto
qed

lemma ParseURL_ok:
  assumes "ParseURL url = Inr (network, address)"
  shows "url_ok network address"
  using assms
proof (cases rule: ParseURL_Inr)
  case (1 n0 a)
  have n0: "\<not> sublist ''://'' n0" and a: "\<not> sublist ''://'' a"
    using 1(1) split_on_part [of _ "''://''" url] no_url_sep [of "CHR '':''" "''tcp''"] by auto
  have network: "trimmed network" "\<not> sublist ''://'' network"
    using no_sep_TrimSpace [OF n0] 1(2) by auto
  have colon: "CHR '':'' \<notin> set (TrimSpace h)"
    if "split_on '':'' a = [p] \<and> h = ''localhost'' \<or> split_on '':'' a = [h, p]" for h p
    using that split_on_char_part [of h "CHR '':''" a] set_TrimSpace [of h] by auto
  have "\<exists>host port. address = host @ '':'' @ port \<and> trimmed host \<and> CHR '':'' \<notin> set host \<and>
      ParseUint10 16 port \<noteq> None" if nu: "network \<noteq> ''unix''"
  proof -
    obtain h p where hp: "split_on '':'' a = [p] \<and> h = ''localhost'' \<or> split_on '':'' a = [h, p]"
      "address = TrimSpace h @ '':'' @ TrimSpace p" "ParseUint10 16 (TrimSpace p) \<noteq> None"
      using 1(3) nu by blast
    then show ?thesis using colon [OF hp(1)] trimmed_TrimSpace by blast
  qed
  then show ?thesis
    using 1(3) a network by (auto simp: url_ok_def)
qed

lemma set_split_on: "q \<in> set (split_on sep s) \<Longrightarrow> set q \<subseteq> set s"
proof -
  assume q: "q \<in> set (split_on sep s)"
  have "set q \<subseteq> set (join sep ps)" if "q \<in> set ps" for ps
    using that by (induction sep ps rule: join.induct) auto
  from this [OF q] show ?thesis by (simp add: join_split_on)
qed

lemma set_ParseURL:
  assumes "ParseURL url = Inr (network, address)"
  shows "set network \<union> set address \<subseteq> set url \<union> set ''tcplocalhost:''"
  using assms
proof (cases rule: ParseURL_Inr)
  case (1 n0 a)
  have parts: "set n0 \<subseteq> set url \<union> set ''tcp''" "set a \<subseteq> set url"
    using 1(1) set_split_on [of _ "''://''" url] by fastforce+
  have "set (TrimSpace h @ '':'' @ TrimSpace p) \<subseteq> set url \<union> set ''tcplocalhost:''"
    if "split_on '':'' a = [p] \<and> h = ''localhost'' \<or> split_on '':'' a = [h, p]" for h p
    using that set_split_on [of _ "'':''" a] parts(2) set_TrimSpace [of h] set_TrimSpace [of p]
    by fastforce
  with 1(2,3) parts set_TrimSpace [of n0] show ?thesis by auto
qed

lemma ParseURL_trimmed_end:
  assumes "ParseURL url = Inr (network, address)" and "trimmed url"
  shows "trail_space (rev address) = 0"
  using assms(1)
proof (cases rule: ParseURL_Inr)
  case (1 n0 a)
  have g: "graphic (CHR ''/'')" "graphic (CHR '':'')" by (simp_all add: graphic_def code_def)
  show ?thesis
  proof (cases "network = ''unix''")
    case True
    then have "split_on ''://'' url = [n0, a]"
      using 1(1,2) by auto
    then have "url = n0 @ '':/'' @ CHR ''/'' # a"
      using join_split_on [of "''://''" url] by simp
    then show ?thesis
      using assms(2) True 1(3) g trimmed_append_graphic [of "CHR ''/''" "n0 @ '':/''" a] by simp
  next
    case False
    then obtain h p n where p: "address = TrimSpace h @ CHR '':'' # TrimSpace p"
      "ParseUint10 16 (TrimSpace p) = Some n"
      using 1(3) by auto
    then show ?thesis
      using ParseUint10_Some [OF p(2)] digits_trimmed [of "TrimSpace p"] g
      by (simp add: trail_space_append_graphic trimmed_def)
  qed
qed

lemma ParseURL_canonical:
  assumes "url_ok network address"
  shows "ParseURL (network @ ''://'' @ address) = Inr (network, address)"
proof -
  have "\<not> sublist ''://'' address"
  proof (cases "network = ''unix''")
    case False
    then obtain host port where "address = host @ '':'' @ port" "CHR '':'' \<notin> set host"
      "list_all is_digit port"
      using assms ParseUint10_Some by (fastforce simp: url_ok_def)
    with digits_not_colon [of port] show ?thesis
      by (auto simp: sublist_def append_eq_append_conv2 append_eq_Cons_conv Cons_eq_append_conv)
  qed (use assms in \<open>simp add: url_ok_def\<close>)
  then have "split_on ''://'' (network @ ''://'' @ address) = [network, address]"
    using assms split_on_url_append [of network address] by (simp add: url_ok_def split_on_id)
  moreover have "split_on '':'' (host @ '':'' @ port) = [host, port] \<and> TrimSpace port = port"
    if "CHR '':'' \<notin> set host" "ParseUint10 16 port = Some n" for host port n
    using that digits_not_colon [of port] digits_trimmed [of port] ParseUint10_Some [of 16 port n]
    by (simp add: split_on_char_append split_on_char_id)
  ultimately show ?thesis
    using assms by (auto simp: ParseURL_def url_ok_def Let_def)
qed

section \<open>Services\<close>

text \<open>What is known of a parsed configuration.\<close>

definition config_ok :: "ServiceConfig \<Rightarrow> bool" where
  "config_ok c \<longleftrightarrow>
     trimmed (ServiceID c) \<and> url_ok (Network c) (Address c) \<and>
     trail_space (rev (Address c)) = 0 \<and>
     CHR ''='' \<notin> set (ServiceID c @ Network c @ Address c) \<and>
     CHR '','' \<notin> set (ServiceID c @ Network c @ Address c)"

lemma parse_service_ok:
  assumes "parse_service serviceStr s = Inr c" and "CHR '','' \<notin> set s"
  shows "config_ok c"
proof -
  obtain sid url where
    split: "split_on ''='' s = [url] \<and> sid = '''' \<or> split_on ''='' s = [sid, url]"
    using assms(1) by (fastforce simp: parse_service_def split: list.splits)
  with assms(1) have c: "ParseURL (TrimSpace url) = Inr (Network c, Address c)"
    "ServiceID c = TrimSpace sid"
    by (auto simp: parse_service_def split: sum.splits)
  have part: "set (TrimSpace q) \<subseteq> set s \<and> CHR ''='' \<notin> set (TrimSpace q)"
    if "q \<in> set (split_on ''='' s)" for q
    using set_split_on [OF that] split_on_char_part [OF that] set_TrimSpace [of q] by blast
  have sid: "set (TrimSpace sid) \<subseteq> set s" "CHR ''='' \<notin> set (TrimSpace sid)"
    and url: "set (TrimSpace url) \<subseteq> set s" "CHR ''='' \<notin> set (TrimSpace url)"
    using split part [of sid] part [of url] by auto
  have "CHR ''='' \<notin> set (Network c @ Address c) \<and> CHR '','' \<notin> set (Network c @ Address c)"
    using set_ParseURL [OF c(1)] url assms(2) by auto
  moreover have "CHR '','' \<notin> set (TrimSpace sid)"
    using sid(1) assms(2) by blast
  ultimately show ?thesis
    using c sid ParseURL_ok [OF c(1)] ParseURL_trimmed_end [OF c(1)]
    by (simp add: config_ok_def)
qed

lemma parse_service_canonical:
  assumes "config_ok c"
  shows "parse_service serviceStr (show_config c) = Inr c"
proof -
  have g: "graphic (CHR ''/'')" "graphic (CHR '':'')" by (simp_all add: graphic_def code_def)
  have "split_on ''='' (show_config c) = [ServiceID c, Network c @ ''://'' @ Address c]"
    using assms by (simp add: config_ok_def show_config_def split_on_char_append split_on_char_id)
  moreover have "trimmed (Network c @ ''://'' @ Address c)"
    using assms g
    by (simp add: config_ok_def url_ok_def trimmed_append_graphic trimmed_def [of "Network c"]
        trail_space_append_graphic)
  ultimately show ?thesis
    using assms ParseURL_canonical [of "Network c" "Address c"]
    by (simp add: parse_service_def config_ok_def)
qed

lemma parse_services_iff:
  "parse_services serviceStr ss = Inr cs \<longleftrightarrow>
     list_all2 (\<lambda>s c. parse_service serviceStr s = Inr c) ss cs"
  by (induction serviceStr ss arbitrary: cs rule: parse_services.induct)
    (auto simp: list_all2_Cons1 split: sum.splits)

lemma ParseServiceConfig_config_ok:
  assumes "ParseServiceConfig s = Inr cs" and "c \<in> set cs"
  shows "config_ok c"
proof -
  have all: "list_all2 (\<lambda>p c. parse_service s p = Inr c) (split_on '','' s) cs"
    using assms(1) by (simp add: ParseServiceConfig_def parse_services_iff)
  obtain i where i: "i < length cs" "c = cs ! i"
    using assms(2) by (auto simp: in_set_conv_nth)
  have "parse_service s (split_on '','' s ! i) = Inr c"
    using list_all2_nthD2 [OF all i(1)] i(2) by simp
  moreover have "split_on '','' s ! i \<in> set (split_on '','' s)"
    using i(1) list_all2_lengthD [OF all] by simp
  ultimately show ?thesis
    using parse_service_ok split_on_char_part by blast
qed

section \<open>Properties\<close>

text \<open>What the simplifier needs to run the parser on a concrete string.\<close>

lemmas config_eval =
  ParseServiceConfig_def parse_service_def ParseURL_def Let_def TrimSpace_def strip.simps
  is_space1_def is_space2_def is_space3_def code_def ParseUint10_def is_digit_def digits_val_def

text \<open>
  C28 (roundtrip): what the parser accepts has a canonical spelling that it parses to the same
  configurations: writing each result as \<open>serviceID=network://address\<close>, with the defaults and
  the trimming made explicit, joining with commas and parsing again gives the same list.
\<close>

theorem ParseServiceConfig_canonical:
  assumes "ParseServiceConfig s = Inr cs"
  shows "ParseServiceConfig (join '','' (map show_config cs)) = Inr cs"
proof -
  let ?t = "join '','' (map show_config cs)"
  have ok: "config_ok c" if "c \<in> set cs" for c
    using assms that by (rule ParseServiceConfig_config_ok)
  have "CHR '','' \<notin> set (show_config c)" if "c \<in> set cs" for c
    using ok [OF that] by (simp add: config_ok_def show_config_def)
  moreover have "cs \<noteq> []"
    using assms by (auto simp: ParseServiceConfig_def parse_services_iff)
  ultimately have "split_on '','' ?t = map show_config cs"
    by (intro split_on_char_join) auto
  moreover have "list_all2 (\<lambda>p c. parse_service ?t p = Inr c) (map show_config cs) cs"
    using ok by (auto simp: list_all2_conv_all_nth parse_service_canonical)
  ultimately show ?thesis
    by (simp add: ParseServiceConfig_def parse_services_iff)
qed

theorem ParseServiceConfig_canonical_witness:
  "ParseServiceConfig ''ssh=tcp://localhost:22,rdp=tcp://localhost:3389'' =
     ParseServiceConfig ''ssh=22, rdp=3389''"
proof -
  have *: "ParseServiceConfig ''ssh=22, rdp=3389'' =
      Inr [\<lparr>ServiceID = ''ssh'', Network = ''tcp'', Address = ''localhost:22''\<rparr>,
           \<lparr>ServiceID = ''rdp'', Network = ''tcp'', Address = ''localhost:3389''\<rparr>]"
    by (simp add: config_eval)
  show ?thesis
    using ParseServiceConfig_canonical [OF *] unfolding * by (simp add: show_config_def)
qed

text \<open>
  Every accepted configuration is usable: one per comma-separated part, and each
  either names a unix socket or has an address \<open>host:port\<close> whose host has no colon and whose
  port is a decimal number of at most 65535.
\<close>

theorem ParseServiceConfig_accepts_valid_ports:
  assumes "ParseServiceConfig s = Inr cs"
  shows "length cs = Suc (count_list s (CHR '','')) \<and>
    (\<forall>c \<in> set cs. Network c = ''unix'' \<or>
      (\<exists>host port n. Address c = host @ '':'' @ port \<and> CHR '':'' \<notin> set host \<and>
         ParseUint10 16 port = Some n \<and> n \<le> 65535))"
proof -
  have "length cs = length (split_on '','' s)"
    using assms by (auto simp: ParseServiceConfig_def parse_services_iff dest: list_all2_lengthD)
  moreover have "Network c = ''unix'' \<or> (\<exists>host port n. Address c = host @ '':'' @ port \<and>
      CHR '':'' \<notin> set host \<and> ParseUint10 16 port = Some n \<and> n \<le> 65535)" if "c \<in> set cs" for c
    using ParseServiceConfig_config_ok [OF assms that] ParseUint10_Some [of 16]
    by (fastforce simp: config_ok_def url_ok_def split: if_splits)
  ultimately show ?thesis
    by (simp add: length_split_on_char)
qed

theorem ParseServiceConfig_accepts_valid_ports_witness:
  "ParseServiceConfig ''10022'' =
      Inr [\<lparr>ServiceID = '''', Network = ''tcp'', Address = ''localhost:10022''\<rparr>] \<and>
   (\<exists>host port n. ''localhost:10022'' = host @ '':'' @ port \<and> CHR '':'' \<notin> set host \<and>
      ParseUint10 16 port = Some n \<and> n \<le> 65535)"
proof -
  have *: "ParseServiceConfig ''10022'' =
      Inr [\<lparr>ServiceID = '''', Network = ''tcp'', Address = ''localhost:10022''\<rparr>]"
    by (simp add: config_eval)
  show ?thesis
    using ParseServiceConfig_accepts_valid_ports [OF *] * by simp
qed

text \<open>
  The rejections of \<^verbatim>\<open>ParseURL\<close> and what they report: an address with two
  separators is rejected with an empty format in the message, whatever the argument was; a
  host with a second colon is rejected with the address; a port that is not a number of at
  most 16 bits is rejected with that port.
\<close>

theorem ParseURL_errors:
  "(2 < length (split_on ''://'' url) \<longrightarrow> ParseURL url = Inl (InvalidAddressFormat '''')) \<and>
   (split_on ''://'' url = [n0, a] \<and> TrimSpace n0 \<noteq> ''unix'' \<and> 2 < length (split_on '':'' a) \<longrightarrow>
      ParseURL url = Inl (InvalidAddressFormat a)) \<and>
   (split_on ''://'' url = [p0] \<and> split_on '':'' p0 = [p0] \<and>
      ParseUint10 16 (TrimSpace p0) = None \<longrightarrow> ParseURL url = Inl (InvalidPort (TrimSpace p0)))"
proof -
  have long: "\<exists>x y z zs. ps = x # y # z # zs" if "2 < length ps" for ps :: "string list"
    using that by (cases ps; cases "tl ps"; cases "tl (tl ps)") auto
  show ?thesis
    using long [of "split_on ''://'' url"] long [of "split_on '':'' a"]
    by (auto simp: ParseURL_def Let_def)
qed

theorem ParseURL_errors_witness:
  "ParseURL ''unix:///tmp/ssh.sock://ssh.sock'' = Inl (InvalidAddressFormat '''') \<and>
   ParseURL ''tcp://localhost:22:10022'' = Inl (InvalidAddressFormat ''localhost:22:10022'') \<and>
   ParseURL ''65536'' = Inl (InvalidPort ''65536'')"
proof -
  have "split_on ''://'' ''unix:///tmp/ssh.sock://ssh.sock'' = [''unix'', ''/tmp/ssh.sock'', ''ssh.sock'']"
    "split_on ''://'' ''tcp://localhost:22:10022'' = [''tcp'', ''localhost:22:10022'']"
    "split_on '':'' ''localhost:22:10022'' = [''localhost'', ''22'', ''10022'']"
    "split_on ''://'' ''65536'' = [''65536'']" "split_on '':'' ''65536'' = [''65536'']"
    "TrimSpace ''tcp'' = ''tcp''" "TrimSpace ''65536'' = ''65536''"
    "ParseUint10 16 ''65536'' = None"
    by (simp_all add: config_eval)
  then show ?thesis
    using ParseURL_errors [of "''unix:///tmp/ssh.sock://ssh.sock''" undefined undefined undefined]
      ParseURL_errors [of "''tcp://localhost:22:10022''" "''tcp''" "''localhost:22:10022''" undefined]
      ParseURL_errors [of "''65536''" undefined undefined "''65536''"]
    by simp
qed

text \<open>Rows of the table in \<^verbatim>\<open>proxy/serviceconfig_test.go\<close> and some rejected texts.\<close>

lemma ParseServiceConfig_examples:
  "ParseServiceConfig ''22'' = Inr [\<lparr>ServiceID = '''', Network = ''tcp'', Address = ''localhost:22''\<rparr>]"
  "ParseServiceConfig ''rdp=localhost:3389'' =
     Inr [\<lparr>ServiceID = ''rdp'', Network = ''tcp'', Address = ''localhost:3389''\<rparr>]"
  "ParseServiceConfig ''http=unix:///tmp/http.sock'' =
     Inr [\<lparr>ServiceID = ''http'', Network = ''unix'', Address = ''/tmp/http.sock''\<rparr>]"
  "ParseServiceConfig ''ssh=22=a'' = Inl (InvalidServiceFormat ''ssh=22=a'')"
  "ParseServiceConfig ''ssh=localhost:22:10022'' = Inl (InvalidAddressFormat ''localhost:22:10022'')"
  "ParseServiceConfig ''65536'' = Inl (InvalidPort ''65536'')"
  by (simp_all add: config_eval)

end
