(* ===== verification/Stream_Id.thy ===== *)
theory Stream_Id
  imports Prelude
begin

text \<open>
  The generator of stream identifiers, \<^verbatim>\<open>proxy/idgen.go\<close>: a counter in the millions
  and the time of day in the low six decimal digits, converted to \<^verbatim>\<open>int32\<close>.  Go's
  \<^verbatim>\<open>int\<close> is 64 bits wide.
\<close>

section \<open>Model\<close>

definition maxCounter :: uint where
  "maxCounter = 2147"

record streamIDGen =
  counter :: uint

definition newStreamIDGen :: streamIDGen where
  "newStreamIDGen = \<lparr>counter = 0\<rparr>"

text \<open>
  A reading of the clock is an hour, a minute and a second; formatting it with
  \<^verbatim>\<open>150405\<close> and reading the digits as a number gives \<open>hms\<close>.
\<close>

type_synonym clock = "nat \<times> nat \<times> nat"

fun valid_clock :: "clock \<Rightarrow> bool" where
  "valid_clock (h, m, s) \<longleftrightarrow> h < 24 \<and> m < 60 \<and> s < 60"

fun hms :: "clock \<Rightarrow> nat" where
  "hms (h, m, s) = h * 10000 + m * 100 + s"

definition generate :: "streamIDGen \<Rightarrow> clock \<Rightarrow> int32 \<times> streamIDGen" where
  "generate idGen now =
     (let c0 = (if counter idGen = maxCounter then 0 else counter idGen);
          c1 = c0 + 1;
          id64 = c1 * 1000000 + word_of_nat (hms now)
      in (ucast id64, idGen\<lparr>counter := c1\<rparr>))"

fun generate_all :: "streamIDGen \<Rightarrow> clock list \<Rightarrow> int32 list \<times> streamIDGen" where
  "generate_all g [] = ([], g)"
| "generate_all g (t # ts) =
     (let (i, g1) = generate g t; (is, g2) = generate_all g1 ts in (i # is, g2))"

section \<open>The counter stays in its field\<close>

definition gen_inv :: "streamIDGen \<Rightarrow> bool" where
  "gen_inv g \<longleftrightarrow> unat (counter g) \<le> 2147"

lemma new_gen_inv [go_inv]: "gen_inv newStreamIDGen"
  by (simp add: gen_inv_def newStreamIDGen_def)

lemma hms_bound: "valid_clock t \<Longrightarrow> hms t \<le> 235959"
  by (cases t) auto

text \<open>One step of the counter, and the identifier it gives, as natural numbers.\<close>

definition next_counter :: "nat \<Rightarrow> nat" where
  "next_counter c = c mod 2147 + 1"

lemma generate_counter:
  assumes "gen_inv g"
  shows "unat (counter (snd (generate g t))) = next_counter (unat (counter g))"
proof (cases "counter g = maxCounter")
  case True
  then show ?thesis by (simp add: generate_def next_counter_def maxCounter_def Let_def)
next
  case False
  then have "unat (counter g) \<noteq> unat maxCounter"
    by (metis word_unat_eq_iff)
  then have "unat (counter g) < 2147"
    using assms by (simp add: gen_inv_def maxCounter_def)
  moreover from this have "unat (counter g + 1) = unat (counter g) + 1"
    by (subst unat_word_ariths(1)) simp
  ultimately show ?thesis
    using False by (simp add: generate_def next_counter_def Let_def)
qed

lemma next_counter_bound: "next_counter c \<le> 2147"
proof -
  have "c mod 2147 < 2147" by (rule mod_less_divisor) simp
  then show ?thesis by (simp add: next_counter_def)
qed

lemma generate_inv [go_inv]: "gen_inv g \<Longrightarrow> gen_inv (snd (generate g t))"
  using generate_counter [of g t] next_counter_bound [of "unat (counter g)"]
  by (simp add: gen_inv_def)

lemma unat_int32_of_nat: "n < 2 ^ 32 \<Longrightarrow> unat (ucast (word_of_nat n :: uint) :: int32) = n"
  by (simp add: unsigned_of_nat take_bit_nat_eq_self)

lemma sint_int32_small:
  assumes "unat (w :: int32) < 2 ^ 31"
  shows "sint w = int (unat w)"
proof -
  have u: "uint w = int (unat w)" by simp
  have "int (unat w) < int (2 ^ 31)" using assms by (rule iffD2 [OF of_nat_less_iff])
  then have "signed_take_bit 31 (int (unat w)) = int (unat w)"
    using order_trans [OF _ uint_ge_0, of "- 2147483648" w]
    by (intro signed_take_bit_int_eq_self) simp_all
  then show ?thesis by (simp only: sint_uint u) simp
qed

lemma generate_id:
  assumes "gen_inv g" and "valid_clock t"
  shows "unat (fst (generate g t)) = next_counter (unat (counter g)) * 1000000 + hms t"
proof -
  let ?c = "counter (snd (generate g t))"
  have c: "unat ?c = next_counter (unat (counter g))"
    using assms(1) by (rule generate_counter)
  have small: "unat ?c * 1000000 + hms t < 2 ^ 32"
    using hms_bound [OF assms(2)] generate_inv [OF assms(1), of t] by (simp add: gen_inv_def)
  have "fst (generate g t) = ucast (?c * 1000000 + word_of_nat (hms t))"
    by (simp add: generate_def Let_def)
  also have "?c * 1000000 + word_of_nat (hms t) = word_of_nat (unat ?c * 1000000 + hms t)"
    by simp
  also have "unat (ucast (word_of_nat (unat ?c * 1000000 + hms t) :: uint) :: int32) =
      unat ?c * 1000000 + hms t"
    using small by (rule unat_int32_of_nat)
  finally show ?thesis by (simp add: c)
qed

text \<open>The counters of successive calls run through the cycle 1, ..., 2147.\<close>

lemma next_counter_add: "next_counter (next_counter c + k) = next_counter (c + Suc k)"
proof -
  have "(c mod 2147 + Suc k) mod 2147 = (c + Suc k) mod 2147"
    by (rule mod_add_left_eq)
  then show ?thesis by (simp add: next_counter_def)
qed

lemma next_counter_eq: "next_counter (c + i) = next_counter (c + j) \<longleftrightarrow> i mod 2147 = j mod 2147"
proof -
  have "x mod 2147 = y mod 2147 \<longleftrightarrow> (2147::int) dvd int x - int y" for x y
  proof -
    have "x mod 2147 = y mod 2147 \<longleftrightarrow> int (x mod 2147) = int (y mod 2147)"
      by (simp only: of_nat_eq_iff)
    also have "\<dots> \<longleftrightarrow> int x mod 2147 = int y mod 2147"
      by (simp only: of_nat_mod of_nat_numeral)
    finally show ?thesis by (simp only: mod_eq_dvd_iff)
  qed
  then show ?thesis by (simp add: next_counter_def)
qed

lemma length_generate_all [simp]: "length (fst (generate_all g ts)) = length ts"
  by (induction ts arbitrary: g) (simp_all add: case_prod_beta Let_def)

lemma generate_all_nth:
  "gen_inv g \<Longrightarrow> list_all valid_clock ts \<Longrightarrow> i < length ts \<Longrightarrow>
     unat (fst (generate_all g ts) ! i) =
       next_counter (unat (counter g) + i) * 1000000 + hms (ts ! i)"
proof (induction ts arbitrary: g i)
  case (Cons t ts)
  let ?g1 = "snd (generate g t)"
  show ?case
  proof (cases i)
    case 0
    then show ?thesis
      using Cons.prems generate_id [of g t] by (simp add: case_prod_beta Let_def)
  next
    case (Suc k)
    have "unat (fst (generate_all ?g1 ts) ! k) =
        next_counter (unat (counter ?g1) + k) * 1000000 + hms (ts ! k)"
      using Cons Suc generate_inv [of g t] by simp
    then show ?thesis
      using Cons.prems Suc by (simp add: case_prod_beta Let_def generate_counter next_counter_add)
  qed
qed simp

lemma generate_all_eq_iff:
  assumes "gen_inv g" and "list_all valid_clock ts" and "i < length ts" and "j < length ts"
  shows "fst (generate_all g ts) ! i = fst (generate_all g ts) ! j \<longleftrightarrow>
    i mod 2147 = j mod 2147 \<and> hms (ts ! i) = hms (ts ! j)"
proof -
  have fields: "a * 1000000 + x = b * 1000000 + y \<longleftrightarrow> a = b \<and> x = y"
    if "x \<le> 235959" "y \<le> 235959" for a b x y :: nat
  proof
    assume eq: "a * 1000000 + x = b * 1000000 + y"
    have "a = (a * 1000000 + x) div 1000000" "b = (b * 1000000 + y) div 1000000"
      using that by simp_all
    with eq have "a = b" by simp
    with eq show "a = b \<and> x = y" by simp
  qed simp
  have "hms (ts ! i) \<le> 235959" "hms (ts ! j) \<le> 235959"
    using assms(2-4) by (auto simp: list_all_length intro: hms_bound)
  then show ?thesis
    using assms
    by (simp add: word_unat_eq_iff [where 'a = 32] generate_all_nth fields next_counter_eq)
qed

section \<open>Properties\<close>

text \<open>
  Every identifier is a positive \<^verbatim>\<open>int32\<close> and nothing is lost in the conversion:
  the counter, between 1 and 2147, can be read back from the millions and the time from
  the low six digits; the largest possible value is below \<open>2 ^ 31\<close>.
\<close>

theorem generate_fits_int32:
  assumes "gen_inv g" and "valid_clock t"
  shows "sint (fst (generate g t)) =
           int (unat (counter (snd (generate g t)))) * 1000000 + int (hms t) \<and>
         1000000 \<le> sint (fst (generate g t)) \<and> sint (fst (generate g t)) \<le> 2147235959 \<and>
         gen_inv (snd (generate g t))"
proof -
  let ?i = "fst (generate g t)" and ?c = "unat (counter (snd (generate g t)))"
  have u: "unat ?i = ?c * 1000000 + hms t"
    using assms by (simp add: generate_id generate_counter)
  have c: "1 \<le> ?c" "?c \<le> 2147"
    using generate_inv [OF assms(1), of t] generate_counter [OF assms(1), of t]
    by (simp_all add: gen_inv_def next_counter_def)
  then have b: "1000000 \<le> unat ?i" "unat ?i \<le> 2147235959"
    using u hms_bound [OF assms(2)] by simp_all
  then have "sint ?i = int (unat ?i)"
    by (intro sint_int32_small) simp
  then have "sint ?i = int ?c * 1000000 + int (hms t)"
    "1000000 \<le> sint ?i" "sint ?i \<le> 2147235959"
    using b by (simp_all only: u of_nat_add of_nat_mult of_nat_numeral)
  then show ?thesis
    using generate_inv [OF assms(1), of t] by blast
qed

theorem generate_fits_int32_witness:
  "sint (fst (generate newStreamIDGen (23, 59, 59))) \<le> 2147235959"
  using generate_fits_int32 [OF new_gen_inv, of "(23, 59, 59)"] by simp

text \<open>
  As long as at most 2147 streams are started, their identifiers are pairwise
  different, whatever the clock does (also when it stands still or goes back).
\<close>

theorem generated_ids_distinct:
  assumes "gen_inv g" and "list_all valid_clock ts" and "length ts \<le> 2147"
  shows "distinct (fst (generate_all g ts))"
proof -
  have "i = j" if "i < length ts" "j < length ts" "i mod 2147 = j mod 2147" for i j
    using that(3)
    unfolding mod_less [OF order_less_le_trans [OF that(1) assms(3)]]
      mod_less [OF order_less_le_trans [OF that(2) assms(3)]] .
  then show ?thesis
    unfolding distinct_conv_nth length_generate_all
    using generate_all_eq_iff [OF assms(1,2)] by blast
qed

theorem generated_ids_distinct_witness:
  "distinct (fst (generate_all newStreamIDGen (replicate 2147 (12, 30, 0))))"
  using generated_ids_distinct [OF new_gen_inv, of "replicate 2147 (12, 30, 0)"]
  by (simp add: list_all_iff)

text \<open>
  Exactly when identifiers repeat.  Two streams of a run get the same identifier if
  and only if the number of calls between them is a multiple of 2147 and they were started at
  the same second of the day.
\<close>

theorem generated_ids_collide_iff:
  assumes "gen_inv g" and "list_all valid_clock ts" and "i < length ts" and "j < length ts"
  shows "fst (generate_all g ts) ! i = fst (generate_all g ts) ! j \<longleftrightarrow>
    i mod 2147 = j mod 2147 \<and> hms (ts ! i) = hms (ts ! j)"
  using assms by (rule generate_all_eq_iff)

theorem generated_ids_collide_iff_witness:
  "fst (generate_all newStreamIDGen (replicate 2148 (12, 30, 0))) ! 0 =
     fst (generate_all newStreamIDGen (replicate 2148 (12, 30, 0))) ! 2147"
  using generated_ids_collide_iff [OF new_gen_inv, of "replicate 2148 (12, 30, 0)" 0 2147]
  by (simp add: list_all_iff)

end
