(* ===== verification/Versioned_Store.thy ===== *)
theory Versioned_Store
  imports Prelude
begin

text \<open>
  The contract of one table of the server's \<^verbatim>\<open>Store\<close> interface
  (\<^verbatim>\<open>misc/server/store.go\<close>): a keyed table whose elements carry a revision, with an
  update that succeeds only on the revision it was read at.  The lemmas of the locale are
  what the services rely on; \<^verbatim>\<open>Data_Table\<close> and \<^verbatim>\<open>Memory_Store\<close> provide it.
\<close>

datatype ('k, 'e) store_op = Add 'e | Update 'e | Delete 'k

text \<open>A run of operations, ignoring their errors, and the number of updates of one key that
  succeed in it.\<close>

fun store_run ::
  "('e \<Rightarrow> 's \<Rightarrow> 'err option \<times> 's) \<Rightarrow> ('e \<Rightarrow> 's \<Rightarrow> 'err option \<times> 's) \<Rightarrow> ('k \<Rightarrow> 's \<Rightarrow> 's) \<Rightarrow>
     ('k, 'e) store_op list \<Rightarrow> 's \<Rightarrow> 's" where
  "store_run add upd del [] s = s"
| "store_run add upd del (Add e # ops) s = store_run add upd del ops (snd (add e s))"
| "store_run add upd del (Update e # ops) s = store_run add upd del ops (snd (upd e s))"
| "store_run add upd del (Delete k # ops) s = store_run add upd del ops (del k s)"

fun ok_updates ::
  "('e \<Rightarrow> 's \<Rightarrow> 'err option \<times> 's) \<Rightarrow> ('e \<Rightarrow> 's \<Rightarrow> 'err option \<times> 's) \<Rightarrow> ('k \<Rightarrow> 's \<Rightarrow> 's) \<Rightarrow>
     ('e \<Rightarrow> 'k) \<Rightarrow> 'k \<Rightarrow> ('k, 'e) store_op list \<Rightarrow> 's \<Rightarrow> nat" where
  "ok_updates add upd del key k [] s = 0"
| "ok_updates add upd del key k (Add e # ops) s =
     ok_updates add upd del key k ops (snd (add e s))"
| "ok_updates add upd del key k (Update e # ops) s =
     (if key e = k \<and> fst (upd e s) = None then 1 else 0) +
       ok_updates add upd del key k ops (snd (upd e s))"
| "ok_updates add upd del key k (Delete j # ops) s =
     ok_updates add upd del key k ops (del j s)"

locale versioned_store =
  fixes get :: "'s \<Rightarrow> 'k \<Rightarrow> 'e option"
    and add :: "'e \<Rightarrow> 's \<Rightarrow> 'err option \<times> 's"
    and upd :: "'e \<Rightarrow> 's \<Rightarrow> 'err option \<times> 's"
    and del :: "'k \<Rightarrow> 's \<Rightarrow> 's"
    and key :: "'e \<Rightarrow> 'k"
    and rev :: "'e \<Rightarrow> uint"
    and set_rev :: "uint \<Rightarrow> 'e \<Rightarrow> 'e"
    and inv :: "'s \<Rightarrow> bool"
  assumes key_set_rev: "key (set_rev r e) = key e"
    and rev_set_rev: "rev (set_rev r e) = r"
    and get_key: "inv s \<Longrightarrow> get s k = Some e \<Longrightarrow> key e = k"
    and add_fresh: "inv s \<Longrightarrow> get s (key e) = None \<Longrightarrow>
      fst (add e s) = None \<and> get (snd (add e s)) = (get s)(key e \<mapsto> e)"
    and add_present: "inv s \<Longrightarrow> get s (key e) = Some d \<Longrightarrow>
      fst (add e s) \<noteq> None \<and> snd (add e s) = s"
    and upd_current: "inv s \<Longrightarrow> get s (key e) = Some d \<Longrightarrow> rev d = rev e \<Longrightarrow>
      fst (upd e s) = None \<and> get (snd (upd e s)) = (get s)(key e \<mapsto> set_rev (rev d + 1) e)"
    and upd_stale: "inv s \<Longrightarrow> get s (key e) = Some d \<Longrightarrow> rev d \<noteq> rev e \<Longrightarrow>
      fst (upd e s) \<noteq> None \<and> snd (upd e s) = s"
    and upd_missing: "inv s \<Longrightarrow> get s (key e) = None \<Longrightarrow>
      fst (upd e s) \<noteq> None \<and> snd (upd e s) = s"
    and get_del: "inv s \<Longrightarrow> get (del k s) = (get s)(k := None)"
    and inv_add: "inv s \<Longrightarrow> inv (snd (add e s))"
    and inv_upd: "inv s \<Longrightarrow> inv (snd (upd e s))"
    and inv_del: "inv s \<Longrightarrow> inv (del k s)"
begin

lemma get_add:
  assumes "inv s"
  shows "get (snd (add e s)) =
    (case get s (key e) of None \<Rightarrow> (get s)(key e \<mapsto> e) | Some _ \<Rightarrow> get s)"
  using add_fresh [OF assms, of e] add_present [OF assms, of e] by (auto split: option.splits)

lemma upd_None_iff:
  assumes "inv s"
  shows "fst (upd e s) = None \<longleftrightarrow> (\<exists>d. get s (key e) = Some d \<and> rev d = rev e)"
proof (cases "get s (key e)")
  case None
  then show ?thesis using upd_missing [OF assms, of e] by simp
next
  case (Some d)
  then show ?thesis
    using upd_current [OF assms, of e d] upd_stale [OF assms, of e d]
    by (cases "rev d = rev e") simp_all
qed

lemma get_upd:
  assumes "inv s"
  shows "get (snd (upd e s)) =
    (if fst (upd e s) = None then (get s)(key e \<mapsto> set_rev (rev e + 1) e) else get s)"
proof (cases "fst (upd e s) = None")
  case True
  then obtain d where "get s (key e) = Some d" "rev d = rev e"
    using assms by (auto simp: upd_None_iff)
  then show ?thesis using upd_current [OF assms, of e d] True by simp
next
  case False
  then have "snd (upd e s) = s"
    using upd_stale [OF assms, of e] upd_missing [OF assms, of e] assms
    by (cases "get s (key e)") (auto simp: upd_None_iff)
  with False show ?thesis by (simp del: not_None_eq)
qed

lemma run_inv: "inv s \<Longrightarrow> inv (store_run add upd del ops s)"
proof (induction ops arbitrary: s)
  case (Cons op ops)
  then show ?case by (cases op) (simp_all add: inv_add inv_upd inv_del)
qed simp

text \<open>The revision of an element counts the updates of its key.\<close>

lemma run_rev:
  "inv s \<Longrightarrow> get s k = Some d \<Longrightarrow> Delete k \<notin> set ops \<Longrightarrow>
     \<exists>d'. get (store_run add upd del ops s) k = Some d' \<and>
       rev d' = rev d + word_of_nat (ok_updates add upd del key k ops s)"
proof (induction ops arbitrary: s d)
  case Nil
  then show ?case by simp
next
  case (Cons op ops)
  show ?case
  proof (cases op)
    case (Add e)
    have "get (snd (add e s)) k = Some d"
      using Cons.prems(1,2) by (auto simp: get_add split: option.splits)
    with Cons Add show ?thesis by (simp add: inv_add)
  next
    case (Update e)
    show ?thesis
    proof (cases "key e = k \<and> fst (upd e s) = None")
      case True
      then have "get (snd (upd e s)) k = Some (set_rev (rev e + 1) e)" "rev e = rev d"
        using Cons.prems(1,2) by (auto simp: get_upd upd_None_iff)
      with Cons.IH [of "snd (upd e s)"] Cons.prems True Update show ?thesis
        by (auto simp: rev_set_rev add.assoc inv_upd)
    next
      case False
      then have "get (snd (upd e s)) k = Some d"
        using Cons.prems(1,2) by (auto simp: get_upd)
      with Cons False Update show ?thesis by (auto simp: inv_upd)
    qed
  next
    case (Delete j)
    then have "get (del j s) k = Some d"
      using Cons.prems by (auto simp: get_del)
    with Cons Delete show ?thesis by (simp add: inv_del)
  qed
qed

text \<open>
  Optimistic concurrency: an element that was read before other updates of the same key went
  through cannot be written back.
\<close>

lemma stale_update_rejected:
  assumes "inv s" and "get s (key e) = Some d" and "rev e = rev d"
    and "Delete (key e) \<notin> set ops"
    and "0 < ok_updates add upd del key (key e) ops s"
    and "ok_updates add upd del key (key e) ops s < 2 ^ 64"
    and "s' = store_run add upd del ops s"
  shows "fst (upd e s') \<noteq> None \<and> snd (upd e s') = s'"
proof -
  let ?n = "ok_updates add upd del key (key e) ops s"
  obtain d' where d': "get s' (key e) = Some d'" "rev d' = rev d + word_of_nat ?n"
    using run_rev [OF assms(1,2,4)] assms(7) by auto
  have "unat (word_of_nat ?n :: uint) = ?n"
    using assms(6) by (simp add: unsigned_of_nat take_bit_nat_eq_self)
  then have "word_of_nat ?n \<noteq> (0 :: uint)"
    using assms(5) by (metis less_irrefl unsigned_0)
  then have "rev d' \<noteq> rev e"
    using d'(2) assms(3) by simp
  moreover have "inv s'" using assms(1,7) run_inv by simp
  ultimately show ?thesis using upd_stale d'(1) by blast
qed

end

end
