(* ===== verification/Data_Table.thy ===== *)
theory Data_Table
  imports Versioned_Store
begin

text \<open>
  The generic table of \<^verbatim>\<open>misc/server/store_memory.go\<close>: a map, and an operator that
  reads the key and the revision of an element.  Every method holds the table's lock for
  its whole body, so it is one atomic operation here.  Go ranges over a map in an
  unspecified order: the listing takes the order as an argument.
\<close>

section \<open>Model\<close>

record ('k, 'e) operator =
  GetKey :: "'e \<Rightarrow> 'k"
  GetRev :: "'e \<Rightarrow> uint"
  SetRev :: "uint \<Rightarrow> 'e \<Rightarrow> 'e"

record ('k, 'e) dataTable =
  name :: string
  dataMap :: "'k \<rightharpoonup> 'e"
  operator :: "('k, 'e) operator"

datatype 'k table_error =
    AlreadyExisted string 'k   \<comment> \<open>``... data has already existed''\<close>
  | DataNotFound string 'k     \<comment> \<open>``... data not found''\<close>
  | UpdateConflict string 'k   \<comment> \<open>``... data update conflict''\<close>

definition table_getWithKey :: "('k, 'e) dataTable \<Rightarrow> 'k \<Rightarrow> 'e option" where
  "table_getWithKey table key = dataMap table key"

definition table_list :: "'k list \<Rightarrow> ('e \<Rightarrow> bool) option \<Rightarrow> ('k, 'e) dataTable \<Rightarrow> 'e list" where
  "table_list order predicate table =
     (let p = (case predicate of None \<Rightarrow> (\<lambda>_. True) | Some p \<Rightarrow> p)
      in filter p (List.map_filter (dataMap table) order))"

definition table_add :: "'e \<Rightarrow> ('k, 'e) dataTable \<Rightarrow> 'k table_error option \<times> ('k, 'e) dataTable" where
  "table_add value table =
     (let key = GetKey (operator table) value
      in (case dataMap table key of
            Some _ \<Rightarrow> (Some (AlreadyExisted (name table) key), table)
          | None \<Rightarrow> (None, table\<lparr>dataMap := (dataMap table)(key \<mapsto> value)\<rparr>)))"

definition table_update :: "'e \<Rightarrow> ('k, 'e) dataTable \<Rightarrow> 'k table_error option \<times> ('k, 'e) dataTable" where
  "table_update value table =
     (let key = GetKey (operator table) value
      in (case dataMap table key of
            None \<Rightarrow> (Some (DataNotFound (name table) key), table)
          | Some target \<Rightarrow>
              let targetRev = GetRev (operator table) target;
                  currentRev = GetRev (operator table) value
              in if targetRev \<noteq> currentRev then (Some (UpdateConflict (name table) key), table)
                 else (None, table\<lparr>dataMap := (dataMap table)
                         (key \<mapsto> SetRev (operator table) (targetRev + 1) value)\<rparr>)))"

definition table_delete :: "'k \<Rightarrow> ('k, 'e) dataTable \<Rightarrow> ('k, 'e) dataTable" where
  "table_delete key table = table\<lparr>dataMap := (dataMap table)(key := None)\<rparr>"

definition empty_table :: "string \<Rightarrow> ('k, 'e) operator \<Rightarrow> ('k, 'e) dataTable" where
  "empty_table n op = \<lparr>name = n, dataMap = Map.empty, operator = op\<rparr>"

lemmas table_defs = table_getWithKey_def table_add_def table_update_def table_delete_def Let_def

section \<open>Invariant\<close>

text \<open>Every element is stored under its own key, and the map is finite.\<close>

definition table_inv :: "('k, 'e) operator \<Rightarrow> ('k, 'e) dataTable \<Rightarrow> bool" where
  "table_inv op t \<longleftrightarrow>
     operator t = op \<and> finite (dom (dataMap t)) \<and>
     (\<forall>k e. dataMap t k = Some e \<longrightarrow> GetKey op e = k)"

lemma empty_table_inv [go_inv]: "table_inv op (empty_table n op)"
  by (simp add: table_inv_def empty_table_def)

lemma table_add_inv [go_inv]: "table_inv op t \<Longrightarrow> table_inv op (snd (table_add e t))"
  by (auto simp: table_inv_def table_defs split: option.splits)

lemma table_delete_inv [go_inv]: "table_inv op t \<Longrightarrow> table_inv op (table_delete k t)"
  by (auto simp: table_inv_def table_defs split: if_splits)

text \<open>Any valid iteration order lists each element of the map once.\<close>

definition iteration_order :: "('k, 'e) dataTable \<Rightarrow> 'k list \<Rightarrow> bool" where
  "iteration_order t order \<longleftrightarrow> distinct order \<and> set order = dom (dataMap t)"

lemma set_table_list:
  assumes "iteration_order t order"
  shows "set (table_list order predicate t) =
       {e \<in> ran (dataMap t). case predicate of None \<Rightarrow> True | Some p \<Rightarrow> p e}"
proof -
  have "set (List.map_filter (dataMap t) order) = ran (dataMap t)"
    using assms by (force simp: iteration_order_def List.map_filter_def ran_def dom_def)
  then show ?thesis by (auto simp: table_list_def Let_def split: option.splits)
qed

lemma length_table_list_all:
  assumes "iteration_order t order"
  shows "length (table_list order None t) = card (dom (dataMap t))"
proof -
  have "filter (\<lambda>x. dataMap t x \<noteq> None) order = order"
    using assms by (auto simp: iteration_order_def intro!: filter_True)
  then have "length (List.map_filter (dataMap t) order) = length order"
    by (simp add: List.map_filter_def)
  then show ?thesis
    using assms by (simp add: table_list_def iteration_order_def distinct_card [symmetric])
qed

section \<open>The operator contract, and the table as a versioned store\<close>

locale table_operator =
  fixes op :: "('k, 'e) operator"
  assumes GetKey_SetRev: "GetKey op (SetRev op r e) = GetKey op e"
    and GetRev_SetRev: "GetRev op (SetRev op r e) = r"
begin

lemma table_update_inv: "table_inv op t \<Longrightarrow> table_inv op (snd (table_update e t))"
  by (auto simp: table_inv_def table_defs GetKey_SetRev split: option.splits if_splits)

text \<open>Each table whose operator is \<open>op\<close>; the errors are as the code reports them.\<close>

lemma table_update_cases:
  assumes "operator t = op"
  shows "table_update e t =
    (case dataMap t (GetKey op e) of
       None \<Rightarrow> (Some (DataNotFound (name t) (GetKey op e)), t)
     | Some d \<Rightarrow>
         if GetRev op d \<noteq> GetRev op e then (Some (UpdateConflict (name t) (GetKey op e)), t)
         else (None, t\<lparr>dataMap := (dataMap t)(GetKey op e \<mapsto> SetRev op (GetRev op d + 1) e)\<rparr>))"
  using assms by (simp add: table_update_def Let_def split: option.splits)

sublocale versioned_store table_getWithKey table_add table_update table_delete
  "GetKey op" "GetRev op" "SetRev op" "table_inv op"
  by unfold_locales
    (auto simp: GetKey_SetRev GetRev_SetRev table_update_inv table_add_inv table_delete_inv
      table_inv_def table_defs fun_eq_iff split: option.splits if_splits)

end

end
