(* ===== verification/Server_Ids.thy ===== *)
theory Server_Ids
  imports Go_Strings
begin

text \<open>
  Identifiers and access tokens of the server, \<^verbatim>\<open>misc/server/id.go\<close>.  The random
  source is a parameter \<open>rnd\<close>: \<open>rnd n\<close> is what the \<open>n\<close>-th read of it gives, an
  error or a number; \<^verbatim>\<open>rand.Int\<close> returns a number below its bound.
\<close>

section \<open>Model\<close>

definition separator :: string where
  "separator = ''_''"

definition token_TunnelID :: "string \<Rightarrow> string" where
  "token_TunnelID tok = (case split_on separator tok of p # _ \<Rightarrow> p | [] \<Rightarrow> [])"

record IDTokenGen =
  TunnelIDDigit :: nat
  TokenDigit :: nat
  ConnectionIDDigit :: nat

type_synonym random = "nat \<Rightarrow> string + nat"

definition rand_Int :: "random \<Rightarrow> nat \<Rightarrow> nat \<Rightarrow> string + nat" where
  "rand_Int rnd n bound = (case rnd n of Inl e \<Rightarrow> Inl e | Inr k \<Rightarrow> Inr (k mod bound))"

definition availableChars :: string where
  "availableChars = ''0123456789abcdefghijklmnopqrstuvwxyzABCDEFGHIJKLMNOPQRSTUVWXYZ''"

datatype id_error = RandomFailed string   \<comment> \<open>``failed to generate random number''\<close>

text \<open>The loop of \<^verbatim>\<open>GenerateID\<close>; the second component is the position in the random source.\<close>

fun GenerateID :: "random \<Rightarrow> nat \<Rightarrow> nat \<Rightarrow> (id_error + string) \<times> nat" where
  "GenerateID rnd n 0 = (Inr [], n)"
| "GenerateID rnd n (Suc digit) =
     (case rand_Int rnd n (length availableChars) of
        Inl e \<Rightarrow> (Inl (RandomFailed e), Suc n)
      | Inr k \<Rightarrow>
          (case GenerateID rnd (Suc n) digit of
             (Inl e, n') \<Rightarrow> (Inl e, n')
           | (Inr s, n') \<Rightarrow> (Inr (availableChars ! k # s), n')))"

definition NewTunnelID :: "IDTokenGen \<Rightarrow> random \<Rightarrow> nat \<Rightarrow> (id_error + string) \<times> nat" where
  "NewTunnelID g rnd n = GenerateID rnd n (TunnelIDDigit g)"

definition NewToken :: "IDTokenGen \<Rightarrow> random \<Rightarrow> nat \<Rightarrow> string \<Rightarrow> (id_error + string) \<times> nat" where
  "NewToken g rnd n tunnelID =
     (case GenerateID rnd n (TokenDigit g) of
        (Inl e, n') \<Rightarrow> (Inl e, n')
      | (Inr s, n') \<Rightarrow> (Inr (tunnelID @ separator @ s), n'))"

record IDTokens =
  TunnelID :: string
  SourceToken :: string
  DestinationToken :: string

definition NewIDTokens :: "IDTokenGen \<Rightarrow> random \<Rightarrow> nat \<Rightarrow> (id_error + IDTokens) \<times> nat" where
  "NewIDTokens g rnd n =
     (case NewTunnelID g rnd n of
        (Inl e, n1) \<Rightarrow> (Inl e, n1)
      | (Inr tunnelID, n1) \<Rightarrow>
          (case NewToken g rnd n1 tunnelID of
             (Inl e, n2) \<Rightarrow> (Inl e, n2)
           | (Inr sourceToken, n2) \<Rightarrow>
               (case NewToken g rnd n2 tunnelID of
                  (Inl e, n3) \<Rightarrow> (Inl e, n3)
                | (Inr destinationToken, n3) \<Rightarrow>
                    (Inr \<lparr>TunnelID = tunnelID, SourceToken = sourceToken,
                          DestinationToken = destinationToken\<rparr>, n3))))"

definition NewConnectionID :: "IDTokenGen \<Rightarrow> random \<Rightarrow> nat \<Rightarrow> string \<Rightarrow> (id_error + string) \<times> nat" where
  "NewConnectionID g rnd n tunnelID =
     (case GenerateID rnd n (ConnectionIDDigit g) of
        (Inl e, n') \<Rightarrow> (Inl e, n')
      | (Inr s, n') \<Rightarrow> (Inr (tunnelID @ separator @ s), n'))"

section \<open>Generated strings\<close>

lemma availableChars_plain: "c \<in> set availableChars \<Longrightarrow> c \<noteq> CHR ''_''"
  by (auto simp: availableChars_def)

lemma GenerateID_Inr:
  "GenerateID rnd n d = (Inr s, n') \<Longrightarrow> length s = d \<and> set s \<subseteq> set availableChars \<and> n' = n + d"
proof (induction d arbitrary: n s)
  case (Suc d)
  then obtain k s' where s: "rand_Int rnd n (length availableChars) = Inr k"
    "GenerateID rnd (Suc n) d = (Inr s', n')" "s = availableChars ! k # s'"
    by (auto split: sum.splits prod.splits)
  have "k < length availableChars"
    using s(1) by (auto simp: rand_Int_def availableChars_def split: sum.splits)
  with Suc.IH [OF s(2)] s(3) show ?case by simp
qed simp

lemma GenerateID_no_separator: "GenerateID rnd n d = (Inr s, n') \<Longrightarrow> CHR ''_'' \<notin> set s"
  using GenerateID_Inr availableChars_plain by blast

lemma token_TunnelID_append:
  "CHR ''_'' \<notin> set tid \<Longrightarrow> token_TunnelID (tid @ separator @ s) = tid"
  by (simp add: token_TunnelID_def separator_def split_on_char_append)

lemma token_TunnelID_plain: "CHR ''_'' \<notin> set (token_TunnelID tok)"
proof (cases "split_on ''_'' tok")
  case (Cons p ps)
  then have "p \<in> set (split_on ''_'' tok)" by simp
  then show ?thesis
    using Cons split_on_char_part [of p "CHR ''_''" tok] by (simp add: token_TunnelID_def separator_def)
qed simp

lemma NewToken_Inr:
  "NewToken g rnd n tid = (Inr tok, n') \<Longrightarrow> CHR ''_'' \<notin> set tid \<Longrightarrow>
     token_TunnelID tok = tid \<and> tok \<noteq> []"
  by (auto simp: NewToken_def token_TunnelID_append separator_def split: prod.splits sum.splits)
    (metis separator_def token_TunnelID_append append_Cons append_Nil)

lemma NewConnectionID_Inr:
  "NewConnectionID g rnd n tid = (Inr cid, n') \<Longrightarrow> CHR ''_'' \<notin> set tid \<Longrightarrow>
     token_TunnelID cid = tid \<and> cid \<noteq> []"
  by (auto simp: NewConnectionID_def separator_def split: prod.splits sum.splits)
    (metis separator_def token_TunnelID_append append_Cons append_Nil)

lemma NewTunnelID_Inr:
  "NewTunnelID g rnd n = (Inr tid, n') \<Longrightarrow> CHR ''_'' \<notin> set tid \<and> length tid = TunnelIDDigit g"
  using GenerateID_Inr GenerateID_no_separator by (fastforce simp: NewTunnelID_def)

lemma NewIDTokens_Inr:
  assumes "NewIDTokens g rnd n = (Inr ids, n')"
  shows "token_TunnelID (SourceToken ids) = TunnelID ids"
    "token_TunnelID (DestinationToken ids) = TunnelID ids"
    "length (TunnelID ids) = TunnelIDDigit g" "CHR ''_'' \<notin> set (TunnelID ids)"
proof -
  obtain tid n1 s n2 d n3 where t: "NewTunnelID g rnd n = (Inr tid, n1)"
    and s: "NewToken g rnd n1 tid = (Inr s, n2)" and d: "NewToken g rnd n2 tid = (Inr d, n3)"
    and ids: "ids = \<lparr>TunnelID = tid, SourceToken = s, DestinationToken = d\<rparr>"
    using assms by (auto simp: NewIDTokens_def split: prod.splits sum.splits)
  have t': "CHR ''_'' \<notin> set tid" "length tid = TunnelIDDigit g"
    using NewTunnelID_Inr [OF t] by auto
  then show "token_TunnelID (SourceToken ids) = TunnelID ids"
    "token_TunnelID (DestinationToken ids) = TunnelID ids"
    "length (TunnelID ids) = TunnelIDDigit g" "CHR ''_'' \<notin> set (TunnelID ids)"
    using NewToken_Inr [OF s t'(1)] NewToken_Inr [OF d t'(1)] by (auto simp: ids)
qed

section \<open>Properties\<close>

text \<open>
  The tunnel of a token is found again.  Whenever \<^verbatim>\<open>NewIDTokens\<close> succeeds, both
  tokens carry the tunnel identifier, \<^verbatim>\<open>AccessToken.TunnelID\<close> gives it back (the identifier and
  the random part cannot contain the separator), and so does \<^verbatim>\<open>ConnectionID.TunnelID\<close> for a
  connection identifier made for that tunnel.
\<close>

theorem NewIDTokens_roundtrip:
  assumes "NewIDTokens g rnd n = (Inr ids, n')"
  shows "token_TunnelID (SourceToken ids) = TunnelID ids \<and>
    token_TunnelID (DestinationToken ids) = TunnelID ids \<and>
    length (TunnelID ids) = TunnelIDDigit g \<and>
    (\<forall>m cid m'. NewConnectionID g rnd m (TunnelID ids) = (Inr cid, m') \<longrightarrow>
       token_TunnelID cid = TunnelID ids)"
  using NewIDTokens_Inr [OF assms] NewConnectionID_Inr by auto

theorem NewIDTokens_roundtrip_witness:
  "token_TunnelID ''a_b'' = ''a'' \<and> token_TunnelID ''a_c'' = ''a''"
proof -
  have "NewIDTokens \<lparr>TunnelIDDigit = 1, TokenDigit = 1, ConnectionIDDigit = 1\<rparr>
        (\<lambda>n. Inr (n + 10)) 0 =
      (Inr \<lparr>TunnelID = ''a'', SourceToken = ''a_b'', DestinationToken = ''a_c''\<rparr>, 3)"
    by (simp add: NewIDTokens_def NewTunnelID_def NewToken_def rand_Int_def availableChars_def
        separator_def)
  from NewIDTokens_roundtrip [OF this] show ?thesis by simp
qed

end
