(* ===== verification/Tunnels.thy ===== *)
theory Tunnels
  imports Server_Ids Aws_Types
begin

text \<open>
  The data of the tunnel server, \<^verbatim>\<open>misc/server/tunnel.go\<close>.  Fields of Go structs that
  share a name carry a prefix here (\<open>t_\<close> tunnel, \<open>p_\<close> peer, \<open>c_\<close> connection).
  A \<^verbatim>\<open>Tunnel\<close> is copied by value but holds \<^emph>\<open>pointers\<close> to its two peers: the peers live in a
  heap, a list of which a pointer is an index, so that all copies of a tunnel share them
  as they do in Go.  A \<^verbatim>\<open>time.Time\<close> is its number of nanoseconds since Go's zero time, a
  \<^verbatim>\<open>time.Duration\<close> a 64-bit integer that wraps.
\<close>

section \<open>Times\<close>

type_synonym time = int

definition zero_time :: time where
  "zero_time = 0"

definition Minute :: uint where
  "Minute = 60000000000"

text \<open>\<^verbatim>\<open>now.Add(time.Duration(minutes) * time.Minute)\<close>\<close>

definition add_minutes :: "time \<Rightarrow> uint \<Rightarrow> time" where
  "add_minutes now minutes = now + sint (minutes * Minute)"

section \<open>Tunnels, peers and connections\<close>

definition TunnelStatusOpen :: string where "TunnelStatusOpen = ''OPEN''"
definition TunnelStatusClosed :: string where "TunnelStatusClosed = ''CLOSED''"
definition ConnStatusUnknown :: string where "ConnStatusUnknown = ''''"
definition ConnStatusConnected :: string where "ConnStatusConnected = ''CONNECTED''"
definition ConnStatusDisconnected :: string where "ConnStatusDisconnected = ''DISCONNECTED''"

lemmas status_defs = TunnelStatusOpen_def TunnelStatusClosed_def ConnStatusUnknown_def
  ConnStatusConnected_def ConnStatusDisconnected_def

record Peer =
  p_ConnectionID :: string
  p_ClientToken :: string
  p_NumOfConn :: int

definition zero_Peer :: Peer where
  "zero_Peer = \<lparr>p_ConnectionID = '''', p_ClientToken = '''', p_NumOfConn = 0\<rparr>"

type_synonym peer_ptr = "nat option"   \<comment> \<open>\<^verbatim>\<open>nil\<close> is \<open>None\<close>\<close>

record Tunnel =
  t_ID :: string
  t_Rev :: uint
  t_SourceToken :: string
  t_SourcePeer :: peer_ptr
  t_DestinationToken :: string
  t_DestinationPeer :: peer_ptr
  t_Services :: "string list"
  t_ThingName :: string
  t_TimeoutMinutes :: uint
  t_Payload :: string
  t_LifetimeAt :: time
  t_CreatedAt :: time
  t_LastUpdatedAt :: time

definition zero_Tunnel :: Tunnel where
  "zero_Tunnel = \<lparr>t_ID = '''', t_Rev = 0, t_SourceToken = '''', t_SourcePeer = None,
     t_DestinationToken = '''', t_DestinationPeer = None, t_Services = [], t_ThingName = '''',
     t_TimeoutMinutes = 0, t_Payload = '''', t_LifetimeAt = zero_time, t_CreatedAt = zero_time,
     t_LastUpdatedAt = zero_time\<rparr>"

definition Tunnel_Peer :: "Tunnel \<Rightarrow> string \<Rightarrow> peer_ptr" where
  "Tunnel_Peer tunnel mode =
     (if mode = ModeDestination then t_DestinationPeer tunnel
      else if mode = ModeSource then t_SourcePeer tunnel
      else None)"

definition Tunnel_Token :: "Tunnel \<Rightarrow> string \<Rightarrow> string" where
  "Tunnel_Token tunnel mode =
     (if mode = ModeDestination then t_DestinationToken tunnel
      else if mode = ModeSource then t_SourceToken tunnel
      else '''')"

definition Tunnel_Status :: "time \<Rightarrow> Tunnel \<Rightarrow> string" where
  "Tunnel_Status now tunnel =
     (let expired = t_LifetimeAt tunnel < now
      in if expired then TunnelStatusClosed else TunnelStatusOpen)"

definition Tunnel_Open :: "time \<Rightarrow> Tunnel \<Rightarrow> bool" where
  "Tunnel_Open now tunnel = (Tunnel_Status now tunnel = TunnelStatusOpen)"

record Connection =
  c_ID :: string
  c_Rev :: uint
  c_TunnelID :: string
  c_Mode :: string
  c_Status :: string
  c_InterServerNetwork :: string
  c_InterServerAddress :: string
  c_LastUpdatedAt :: time

definition zero_Connection :: Connection where
  "zero_Connection = \<lparr>c_ID = '''', c_Rev = 0, c_TunnelID = '''', c_Mode = '''',
     c_Status = ConnStatusUnknown, c_InterServerNetwork = '''', c_InterServerAddress = '''',
     c_LastUpdatedAt = zero_time\<rparr>"

lemma Tunnel_Open_iff [simp]: "Tunnel_Open now t \<longleftrightarrow> now \<le> t_LifetimeAt t"
  by (auto simp: Tunnel_Open_def Tunnel_Status_def status_defs)

lemma Tunnel_Status_cases:
  "Tunnel_Status now t = (if now \<le> t_LifetimeAt t then TunnelStatusOpen else TunnelStatusClosed)"
  by (simp add: Tunnel_Status_def)

lemma Tunnel_Peer_mode [simp]:
  "Tunnel_Peer t ModeDestination = t_DestinationPeer t" "Tunnel_Peer t ModeSource = t_SourcePeer t"
  by (simp_all add: Tunnel_Peer_def ModeSource_def ModeDestination_def)

lemma Tunnel_Token_mode [simp]:
  "Tunnel_Token t ModeDestination = t_DestinationToken t"
  "Tunnel_Token t ModeSource = t_SourceToken t"
  by (simp_all add: Tunnel_Token_def ModeSource_def ModeDestination_def)

text \<open>The largest timeout whose duration does not wrap: \<open>2 ^ 63\<close> nanoseconds, 292 years.\<close>

definition max_minutes :: nat where
  "max_minutes = 153722867"

lemma unat_Minute: "unat Minute = 60000000000"
  by (simp add: Minute_def)

lemma add_minutes_exact:
  assumes "unat m \<le> max_minutes"
  shows "add_minutes now m = now + int (unat m) * 60000000000"
proof -
  have le: "unat m * unat Minute \<le> 153722867 * 60000000000"
    using assms by (simp only: unat_Minute max_minutes_def mult_le_mono1)
  then have u: "unat (m * Minute) = unat m * 60000000000"
    unfolding unat_word_ariths by (simp add: unat_Minute)
  then have "unat (m * Minute) < 2 ^ 63"
    using le by (simp add: unat_Minute)
  moreover have ui: "uint (m * Minute) = int (unat (m * Minute))"
    by simp
  ultimately have "uint (m * Minute) < 2 ^ 63"
    unfolding ui of_nat_less_numeral_power_cancel_iff by simp
  then have "signed_take_bit 63 (uint (m * Minute)) = uint (m * Minute)"
    by (intro signed_take_bit_int_eq_self order.trans [OF _ uint_nonnegative]) simp_all
  then have "sint (m * Minute) = uint (m * Minute)"
    by (simp add: sint_uint)
  then show ?thesis
    unfolding add_minutes_def ui u by simp
qed

lemma bit_iff_odd_nat: "bit w n \<longleftrightarrow> odd (unat w div 2 ^ n)"
proof -
  have "bit w n \<longleftrightarrow> bit (unat w) n"
    by (auto simp: bit_unsigned_iff possible_bit_def)
  then show ?thesis by (simp add: bit_iff_odd [of "unat w"])
qed

text \<open>From there to \<open>2 ^ 64\<close> nanoseconds the duration is negative.\<close>

lemma add_minutes_negative:
  assumes "max_minutes < unat m" and "unat m \<le> 307445734"
  shows "add_minutes now m < now"
proof -
  have "unat m * unat Minute \<le> 307445734 * 60000000000"
    using assms(2) by (simp only: unat_Minute mult_le_mono1)
  moreover have "153722868 * 60000000000 \<le> unat m * unat Minute"
    using assms(1) by (simp only: unat_Minute max_minutes_def mult_le_mono1)
  ultimately have u: "unat (m * Minute) = unat m * 60000000000"
      "9223372080000000000 \<le> unat (m * Minute)"
    unfolding unat_word_ariths by (simp_all add: unat_Minute)
  have "unat (m * Minute) < 2 * 2 ^ 63"
    using unat_bound [of "m * Minute"] by simp
  moreover have "2 ^ 63 \<le> unat (m * Minute)"
    using u(2) by simp
  ultimately have "unat (m * Minute) div 2 ^ 63 = 1"
    by (intro div_nat_eqI) simp_all
  then have "bit (m * Minute) 63"
    by (simp add: bit_iff_odd_nat)
  then have "sint (m * Minute) < 0"
    using bit_last_iff [of "m * Minute"] by simp
  then show ?thesis by (simp add: add_minutes_def)
qed

end
