(* ===== verification/Memory_Store.thy ===== *)
theory Memory_Store
  imports Data_Table Tunnels
begin

text \<open>
  \<^verbatim>\<open>MemoryStore\<close> of \<^verbatim>\<open>misc/server/store_memory.go\<close>: one table of tunnels and one of
  connections, each with its operator, and the methods of the \<^verbatim>\<open>Store\<close> interface on them.
  Both tables are interpretations of the versioned store contract.
\<close>

section \<open>Model\<close>

definition tunnelOperator :: "(string, Tunnel) operator" where
  "tunnelOperator =
     \<lparr>GetKey = t_ID, GetRev = t_Rev, SetRev = (\<lambda>rev elem. elem\<lparr>t_Rev := rev\<rparr>)\<rparr>"

definition connectionOperator :: "(string, Connection) operator" where
  "connectionOperator =
     \<lparr>GetKey = c_ID, GetRev = c_Rev, SetRev = (\<lambda>rev elem. elem\<lparr>c_Rev := rev\<rparr>)\<rparr>"

record MemoryStore =
  tunnelTable :: "(string, Tunnel) dataTable"
  connectionTable :: "(string, Connection) dataTable"

definition MemoryStore_Init :: MemoryStore where
  "MemoryStore_Init =
     \<lparr>tunnelTable = empty_table ''tunnel'' tunnelOperator,
      connectionTable = empty_table ''connection'' connectionOperator\<rparr>"

text \<open>The texts of the errors.\<close>

definition table_error_text :: "string table_error \<Rightarrow> string" where
  "table_error_text e =
     (case e of
        AlreadyExisted n key \<Rightarrow> n @ '' data has already existed. key='' @ key
      | DataNotFound n key \<Rightarrow> n @ '' data not found. key='' @ key
      | UpdateConflict n key \<Rightarrow> n @ '' data update conflict. key='' @ key)"

definition GetTunnel :: "string \<Rightarrow> MemoryStore \<Rightarrow> string + Tunnel" where
  "GetTunnel tunnelID store =
     (case table_getWithKey (tunnelTable store) tunnelID of
        None \<Rightarrow> Inl (''tunnel not found id='' @ tunnelID)
      | Some tunnel \<Rightarrow> Inr tunnel)"

text \<open>
  \<^verbatim>\<open>GetTunnels\<close>, \<^verbatim>\<open>GetConnections\<close> and the two deletions return a \<^verbatim>\<open>nil\<close>
  error always; the interface lets other stores fail.
\<close>

definition GetTunnels :: "string list \<Rightarrow> MemoryStore \<Rightarrow> string + Tunnel list" where
  "GetTunnels order store = Inr (table_list order None (tunnelTable store))"

definition AddTunnel :: "Tunnel \<Rightarrow> MemoryStore \<Rightarrow> string option \<times> MemoryStore" where
  "AddTunnel tunnel store =
     (case table_add tunnel (tunnelTable store) of
        (err, table) \<Rightarrow> (map_option table_error_text err, store\<lparr>tunnelTable := table\<rparr>))"

definition UpdateTunnel :: "Tunnel \<Rightarrow> MemoryStore \<Rightarrow> string option \<times> MemoryStore" where
  "UpdateTunnel tunnel store =
     (case table_update tunnel (tunnelTable store) of
        (err, table) \<Rightarrow> (map_option table_error_text err, store\<lparr>tunnelTable := table\<rparr>))"

definition DeleteTunnel :: "string \<Rightarrow> MemoryStore \<Rightarrow> string option \<times> MemoryStore" where
  "DeleteTunnel tunnelID store =
     (None, store\<lparr>tunnelTable := table_delete tunnelID (tunnelTable store)\<rparr>)"

definition GetConnection :: "string \<Rightarrow> MemoryStore \<Rightarrow> string + Connection" where
  "GetConnection connectionID store =
     (case table_getWithKey (connectionTable store) connectionID of
        None \<Rightarrow> Inl (''connection not found id='' @ connectionID)
      | Some connection \<Rightarrow> Inr connection)"

text \<open>The search option \<open>TunnelID\<close>; the empty string selects every connection.\<close>

definition GetConnections :: "string list \<Rightarrow> string \<Rightarrow> MemoryStore \<Rightarrow> string + Connection list" where
  "GetConnections order option_TunnelID store =
     (let predicate = (\<lambda>connection.
            if option_TunnelID = '''' then True
            else if token_TunnelID (c_ID connection) = option_TunnelID then True
            else False)
      in Inr (table_list order (Some predicate) (connectionTable store)))"

definition AddConnection :: "Connection \<Rightarrow> MemoryStore \<Rightarrow> string option \<times> MemoryStore" where
  "AddConnection connection store =
     (case table_add connection (connectionTable store) of
        (err, table) \<Rightarrow> (map_option table_error_text err, store\<lparr>connectionTable := table\<rparr>))"

definition UpdateConnection :: "Connection \<Rightarrow> MemoryStore \<Rightarrow> string option \<times> MemoryStore" where
  "UpdateConnection connection store =
     (case table_update connection (connectionTable store) of
        (err, table) \<Rightarrow> (map_option table_error_text err, store\<lparr>connectionTable := table\<rparr>))"

definition DeleteConnection :: "string \<Rightarrow> MemoryStore \<Rightarrow> string option \<times> MemoryStore" where
  "DeleteConnection connectionID store =
     (None, store\<lparr>connectionTable := table_delete connectionID (connectionTable store)\<rparr>)"

section \<open>The operators and the tables meet their contracts\<close>

interpretation tunnel_op: table_operator tunnelOperator
  by unfold_locales (simp_all add: tunnelOperator_def)

interpretation connection_op: table_operator connectionOperator
  by unfold_locales (simp_all add: connectionOperator_def)

lemma operator_sel [simp]:
  "GetKey tunnelOperator = t_ID" "GetRev tunnelOperator = t_Rev"
  "SetRev tunnelOperator r t = t\<lparr>t_Rev := r\<rparr>"
  "GetKey connectionOperator = c_ID" "GetRev connectionOperator = c_Rev"
  "SetRev connectionOperator r c = c\<lparr>c_Rev := r\<rparr>"
  by (simp_all add: tunnelOperator_def connectionOperator_def)

definition store_inv :: "MemoryStore \<Rightarrow> bool" where
  "store_inv st \<longleftrightarrow>
     table_inv tunnelOperator (tunnelTable st) \<and> name (tunnelTable st) = ''tunnel'' \<and>
     table_inv connectionOperator (connectionTable st) \<and>
     name (connectionTable st) = ''connection''"

abbreviation tunnel_at :: "MemoryStore \<Rightarrow> string \<Rightarrow> Tunnel option" where
  "tunnel_at st \<equiv> dataMap (tunnelTable st)"

abbreviation connection_at :: "MemoryStore \<Rightarrow> string \<Rightarrow> Connection option" where
  "connection_at st \<equiv> dataMap (connectionTable st)"

lemma MemoryStore_Init_inv [go_inv]: "store_inv MemoryStore_Init"
  by (simp add: store_inv_def MemoryStore_Init_def empty_table_inv) (simp_all add: empty_table_def)

lemma name_table [simp]:
  "name (snd (table_add e t)) = name t" "name (snd (table_update e t)) = name t"
  "name (table_delete k t) = name t"
  by (simp_all add: table_defs split: option.splits)

lemma store_op_inv [go_inv]:
  assumes "store_inv st"
  shows "store_inv (snd (AddTunnel t st))" "store_inv (snd (UpdateTunnel t st))"
    "store_inv (snd (DeleteTunnel i st))" "store_inv (snd (AddConnection c st))"
    "store_inv (snd (UpdateConnection c st))" "store_inv (snd (DeleteConnection j st))"
  using assms table_add_inv [of tunnelOperator "tunnelTable st" t]
    tunnel_op.table_update_inv [of "tunnelTable st" t]
    table_add_inv [of connectionOperator "connectionTable st" c]
    connection_op.table_update_inv [of "connectionTable st" c]
  by (auto simp: store_inv_def AddTunnel_def UpdateTunnel_def DeleteTunnel_def AddConnection_def
      UpdateConnection_def DeleteConnection_def table_delete_inv name_table split: prod.splits)
    (metis name_table snd_conv)+

text \<open>Each table of the store, with the error texts the methods return.\<close>

interpretation tunnels: versioned_store tunnel_at AddTunnel UpdateTunnel
  "\<lambda>i st. snd (DeleteTunnel i st)" t_ID t_Rev "\<lambda>r t. t\<lparr>t_Rev := r\<rparr>" store_inv
  by unfold_locales
    (auto simp: store_inv_def AddTunnel_def UpdateTunnel_def DeleteTunnel_def table_inv_def
      table_defs fun_eq_iff split: option.splits if_splits)

interpretation connections: versioned_store connection_at AddConnection UpdateConnection
  "\<lambda>i st. snd (DeleteConnection i st)" c_ID c_Rev "\<lambda>r c. c\<lparr>c_Rev := r\<rparr>" store_inv
  by unfold_locales
    (auto simp: store_inv_def AddConnection_def UpdateConnection_def DeleteConnection_def
      table_inv_def table_defs fun_eq_iff split: option.splits if_splits)

text \<open>Operations on one table leave the other alone.\<close>

lemma tunnel_ops_connections [simp]:
  "connectionTable (snd (AddTunnel t st)) = connectionTable st"
  "connectionTable (snd (UpdateTunnel t st)) = connectionTable st"
  "connectionTable (snd (DeleteTunnel i st)) = connectionTable st"
  by (simp_all add: AddTunnel_def UpdateTunnel_def DeleteTunnel_def split: prod.splits)

lemma connection_ops_tunnels [simp]:
  "tunnelTable (snd (AddConnection c st)) = tunnelTable st"
  "tunnelTable (snd (UpdateConnection c st)) = tunnelTable st"
  "tunnelTable (snd (DeleteConnection j st)) = tunnelTable st"
  by (simp_all add: AddConnection_def UpdateConnection_def DeleteConnection_def split: prod.splits)

lemma GetTunnel_Inr [simp]: "GetTunnel i st = Inr t \<longleftrightarrow> tunnel_at st i = Some t"
  by (simp add: GetTunnel_def table_getWithKey_def split: option.splits)

lemma GetConnection_Inr [simp]: "GetConnection i st = Inr c \<longleftrightarrow> connection_at st i = Some c"
  by (simp add: GetConnection_def table_getWithKey_def split: option.splits)

section \<open>Properties\<close>

lemma MemoryStore_cong:
  "tunnelTable a = tunnelTable b \<Longrightarrow> connectionTable a = connectionTable b \<Longrightarrow> a = (b :: MemoryStore)"
  by (cases a, cases b) simp

definition set_tunnel :: "Tunnel option \<Rightarrow> string \<Rightarrow> MemoryStore \<Rightarrow> MemoryStore" where
  "set_tunnel t i st =
     st\<lparr>tunnelTable := (tunnelTable st)\<lparr>dataMap := (tunnel_at st)(i := t)\<rparr>\<rparr>"

lemma tunnel_at_set_tunnel [simp]: "tunnel_at (set_tunnel t i st) = (tunnel_at st)(i := t)"
  "connectionTable (set_tunnel t i st) = connectionTable st"
  by (simp_all add: set_tunnel_def)

lemma AddTunnel_cases:
  assumes "store_inv st"
  shows "AddTunnel t st =
    (if tunnel_at st (t_ID t) = None then (None, set_tunnel (Some t) (t_ID t) st)
     else (Some (''tunnel data has already existed. key='' @ t_ID t), st))"
  using assms
  by (auto simp: AddTunnel_def table_defs store_inv_def table_inv_def set_tunnel_def
      table_error_text_def split: option.splits)

lemma UpdateTunnel_cases:
  assumes "store_inv st"
  shows "UpdateTunnel t st =
    (case tunnel_at st (t_ID t) of
       None \<Rightarrow> (Some (''tunnel data not found. key='' @ t_ID t), st)
     | Some d \<Rightarrow>
         if t_Rev d \<noteq> t_Rev t then (Some (''tunnel data update conflict. key='' @ t_ID t), st)
         else (None, set_tunnel (Some (t\<lparr>t_Rev := t_Rev d + 1\<rparr>)) (t_ID t) st))"
  using assms
  by (auto simp: UpdateTunnel_def table_defs store_inv_def table_inv_def set_tunnel_def
      table_error_text_def split: option.splits)

lemma DeleteTunnel_set: "DeleteTunnel i st = (None, set_tunnel None i st)"
  by (simp add: DeleteTunnel_def set_tunnel_def table_delete_def)

lemma AddConnection_at:
  "store_inv st \<Longrightarrow> connection_at (snd (AddConnection c st)) =
    (if connection_at st (c_ID c) = None then (connection_at st)(c_ID c \<mapsto> c) else connection_at st)"
  by (auto simp: connections.get_add split: option.splits)

lemma set_tunnel_inv [go_inv]:
  "store_inv st \<Longrightarrow> (\<And>x. t = Some x \<Longrightarrow> t_ID x = i) \<Longrightarrow> store_inv (set_tunnel t i st)"
  by (auto simp: store_inv_def set_tunnel_def table_inv_def)

text \<open>
  C29 (safety): optimistic concurrency.  A tunnel that a handler read from the store, and writes
  back with \<^verbatim>\<open>UpdateTunnel\<close> whatever it changed in it, is refused without any change of
  the store when another update of that tunnel went through since, whatever other operations on
  any tunnels ran in between, unless the tunnel was deleted (and possibly created anew), or
  \<open>2 ^ 64\<close> updates wrapped the revision.
\<close>

theorem stale_tunnel_update_rejected:
  assumes "store_inv st" and "tunnel_at st (t_ID t) = Some d" and "t_Rev t = t_Rev d"
    and "Delete (t_ID t) \<notin> set ops"
    and "0 < ok_updates AddTunnel UpdateTunnel (\<lambda>i s. snd (DeleteTunnel i s)) t_ID (t_ID t) ops st"
    and "ok_updates AddTunnel UpdateTunnel (\<lambda>i s. snd (DeleteTunnel i s)) t_ID (t_ID t) ops st < 2 ^ 64"
    and "st' = store_run AddTunnel UpdateTunnel (\<lambda>i s. snd (DeleteTunnel i s)) ops st"
  shows "UpdateTunnel t st' = (Some (''tunnel data update conflict. key='' @ t_ID t), st')"
proof -
  have inv: "store_inv st'"
    using assms(1,7) tunnels.run_inv by simp
  have "fst (UpdateTunnel t st') \<noteq> None \<and> snd (UpdateTunnel t st') = st'"
    by (rule tunnels.stale_update_rejected [OF assms])
  moreover have "tunnel_at st' (t_ID t) \<noteq> None"
    using tunnels.run_rev [OF assms(1,2,4)] assms(7) by auto
  ultimately show ?thesis
    using inv by (auto simp: UpdateTunnel_cases split: option.splits if_splits)
qed

definition sample_tunnel :: Tunnel where
  "sample_tunnel = zero_Tunnel\<lparr>t_ID := ''a'', t_Rev := 1\<rparr>"

definition sample_store :: MemoryStore where
  "sample_store = snd (AddConnection (zero_Connection\<lparr>c_ID := ''a_1''\<rparr>)
     (snd (AddTunnel sample_tunnel MemoryStore_Init)))"

lemma sample_store:
  "store_inv sample_store" "tunnel_at sample_store = [''a'' \<mapsto> sample_tunnel]"
  "connection_at sample_store = [''a_1'' \<mapsto> zero_Connection\<lparr>c_ID := ''a_1''\<rparr>]"
  "t_ID sample_tunnel = ''a''"
proof -
  show id: "t_ID sample_tunnel = ''a''" by (simp add: sample_tunnel_def)
  have i: "store_inv (snd (AddTunnel sample_tunnel MemoryStore_Init))"
    by (intro store_op_inv MemoryStore_Init_inv)
  then show "store_inv sample_store"
    unfolding sample_store_def by (rule store_op_inv(4))
  have e: "tunnel_at MemoryStore_Init = Map.empty" "connection_at MemoryStore_Init = Map.empty"
    by (simp_all add: MemoryStore_Init_def empty_table_def)
  show "tunnel_at sample_store = [''a'' \<mapsto> sample_tunnel]"
    by (simp add: sample_store_def AddTunnel_cases MemoryStore_Init_inv e id)
  show "connection_at sample_store = [''a_1'' \<mapsto> zero_Connection\<lparr>c_ID := ''a_1''\<rparr>]"
    by (simp add: sample_store_def AddConnection_at i e)
qed

theorem stale_tunnel_update_rejected_witness:
  "fst (UpdateTunnel sample_tunnel (snd (UpdateTunnel sample_tunnel sample_store))) =
    Some ''tunnel data update conflict. key=a''"
proof -
  have "UpdateTunnel sample_tunnel (snd (UpdateTunnel sample_tunnel sample_store)) =
      (Some (''tunnel data update conflict. key='' @ t_ID sample_tunnel),
       snd (UpdateTunnel sample_tunnel sample_store))"
    by (rule stale_tunnel_update_rejected
        [of sample_store sample_tunnel sample_tunnel "[Update sample_tunnel]"])
      (simp_all add: sample_store UpdateTunnel_cases)
  then show ?thesis by (simp add: sample_store)
qed

lemma GetTunnels_set:
  assumes "store_inv st" and "iteration_order (tunnelTable st) order"
  shows "\<exists>ts. GetTunnels order st = Inr ts \<and> set ts = ran (tunnel_at st) \<and>
    length ts = card (dom (tunnel_at st))"
  using set_table_list [OF assms(2), of None] length_table_list_all [OF assms(2)]
  by (simp add: GetTunnels_def)

lemma GetConnections_set:
  assumes "store_inv st" and "iteration_order (connectionTable st) order"
  shows "\<exists>cs. GetConnections order tid st = Inr cs \<and> set cs =
      {c. connection_at st (c_ID c) = Some c \<and> (tid = '''' \<or> token_TunnelID (c_ID c) = tid)}"
proof -
  have k: "connection_at st k = Some c \<Longrightarrow> c_ID c = k" for k c
    using connections.get_key [OF assms(1)] .
  have "{c \<in> ran (connection_at st). P c} = {c. connection_at st (c_ID c) = Some c \<and> P c}" for P
    by (auto simp: ran_def dest: k)
  then show ?thesis
    using set_table_list [OF assms(2)] by (auto simp: GetConnections_def)
qed

text \<open>
  Searching the connections of a tunnel.  In whatever order Go iterates the map,
  \<^verbatim>\<open>GetConnections\<close> returns exactly the stored connections whose identifier belongs to the tunnel
  (all of them for the empty option), and \<^verbatim>\<open>GetTunnels\<close> returns every tunnel exactly once.
\<close>

theorem GetConnections_spec:
  assumes "store_inv st" and "iteration_order (connectionTable st) order"
    and "iteration_order (tunnelTable st) torder"
  shows "(\<exists>cs. GetConnections order tid st = Inr cs \<and> set cs =
      {c. connection_at st (c_ID c) = Some c \<and> (tid = '''' \<or> token_TunnelID (c_ID c) = tid)}) \<and>
    (\<exists>ts. GetTunnels torder st = Inr ts \<and> set ts = ran (tunnel_at st) \<and>
      length ts = card (dom (tunnel_at st)))"
  using GetConnections_set [OF assms(1,2)] GetTunnels_set [OF assms(1,3)] by blast

theorem GetConnections_spec_witness:
  "(\<exists>cs. GetConnections [''a_1''] ''a'' sample_store = Inr cs \<and>
      set cs = {zero_Connection\<lparr>c_ID := ''a_1''\<rparr>}) \<and>
   GetConnections [''a_1''] ''b'' sample_store = Inr []"
proof -
  have io: "iteration_order (connectionTable sample_store) [''a_1'']"
    "iteration_order (tunnelTable sample_store) [''a'']"
    by (auto simp: iteration_order_def sample_store split: if_splits)
  have "token_TunnelID ''a_1'' = ''a''" by (simp add: token_TunnelID_def separator_def)
  then show ?thesis
    using GetConnections_spec [OF sample_store(1) io, of "''a''"]
      GetConnections_spec [OF sample_store(1) io, of "''b''"]
    by (auto simp: sample_store split: if_splits)
qed

end
