(* ===== verification/Services.thy ===== *)
theory Services
  imports Memory_Store
begin

text \<open>
  The web services of the tunnel server, \<^verbatim>\<open>misc/server/services*.go\<close>: requests, responses
  and one definition per handler.  A handler is a sequence of store operations, each atomic under
  a table lock, with other handlers in between; the long ones are therefore given in pieces, one
  per stretch that ends with a store operation (\<open>TunnelConnect_verify\<close>, \<open>_add\<close>, \<open>_update\<close>,
  \<open>_disconnect\<close>), and composed as the code composes them.  The theory \<^verbatim>\<open>Server_Machine\<close>
  interleaves the pieces.  What \<^verbatim>\<open>gin\<close>, the clock, the random source and the notifier do
  are arguments.
\<close>

section \<open>State, configuration and responses\<close>

record server =
  sv_store :: MemoryStore
  sv_peers :: "Peer list"   \<comment> \<open>the heap of the \<^verbatim>\<open>Peer\<close> objects the tunnels point to\<close>
  sv_pos :: nat             \<comment> \<open>reads of the random source so far\<close>

record Services =
  svc_IDTokenGen :: IDTokenGen
  svc_NeedAuth :: bool
  svc_InterServerNetwork :: string
  svc_InterServerAddress :: string

record OpenTunnelResponse =
  otr_TunnelID :: string
  otr_DestinationToken :: string
  otr_SourceToken :: string

record DescribeTunnelConnectionState =
  dcs_Status :: string
  dcs_LastUpdatedAt :: time

record DescribeTunnelResponse =
  dtr_TunnelID :: string
  dtr_ThingName :: string
  dtr_TimeoutMinutes :: uint
  dtr_Payload :: string
  dtr_Status :: string
  dtr_DstConnState :: DescribeTunnelConnectionState
  dtr_SrcConnState :: DescribeTunnelConnectionState
  dtr_LastUpdatedAt :: time
  dtr_CreatedAt :: time

record ListTunnelsTunnel =
  ltt_ID :: string
  ltt_Status :: string
  ltt_ThingName :: string
  ltt_LastUpdatedAt :: time

record DebugListTunnel =
  dlt_Tunnel :: Tunnel
  dlt_Connections :: "Connection list"

text \<open>
  A response: its status code, the status reason header when it is set, and the body.  Every body
  that the program writes is JSON; the websocket library writes a plain text.
\<close>

datatype body =
    Message string
  | OpenBody OpenTunnelResponse
  | CloseBody
  | DescribeBody DescribeTunnelResponse
  | ListBody "ListTunnelsTunnel list"
  | DebugListBody "DebugListTunnel list"
  | EmptyBody
  | PlainText string
  | Appended body body

record response =
  code :: nat
  status_reason :: "string option"
  body :: body

definition StatusOK :: nat where "StatusOK = 200"
definition StatusBadRequest :: nat where "StatusBadRequest = 400"
definition StatusUnauthorized :: nat where "StatusUnauthorized = 401"
definition StatusInternalServerError :: nat where "StatusInternalServerError = 500"

lemmas http_defs = StatusOK_def StatusBadRequest_def StatusUnauthorized_def
  StatusInternalServerError_def

definition json :: "nat \<Rightarrow> body \<Rightarrow> response" where
  "json c b = \<lparr>code = c, status_reason = None, body = b\<rparr>"

text \<open>The pattern \<^verbatim>\<open>ctx.Header(HeaderKeyStatusReason, message); ctx.JSON(code, message)\<close>.\<close>

definition refuse :: "nat \<Rightarrow> string \<Rightarrow> response" where
  "refuse c message = \<lparr>code = c, status_reason = Some message, body = Message message\<rparr>"

text \<open>
  A response that is written after another: the status and the headers are on their way, so that
  the client gets those of the first, and only the body is added.
\<close>

definition after_reply :: "response \<Rightarrow> response \<Rightarrow> response" where
  "after_reply sent r = sent\<lparr>body := Appended (body sent) (body r)\<rparr>"

text \<open>The texts of the identifier errors.\<close>

definition id_error_text :: "id_error \<Rightarrow> string" where
  "id_error_text e =
     (case e of RandomFailed why \<Rightarrow> ''failed to generate random number: '' @ why)"

section \<open>PreProcess and AuthFilter\<close>

text \<open>
  \<open>bind\<close> and \<open>bind_header\<close> are gin's \<^verbatim>\<open>ctx.Bind\<close> and \<^verbatim>\<open>ctx.BindHeader\<close>, which fill the
  arguments; \<open>validate\<close> is \<open>None\<close> for arguments that are not \<^verbatim>\<open>Validatable\<close>.  The result is
  \<open>None\<close> when the handler took the connection over and answers nothing.
\<close>

definition PreProcess ::
  "('req \<Rightarrow> string + 'a) \<Rightarrow> ('req \<Rightarrow> 'a \<Rightarrow> string + 'a) \<Rightarrow> ('a \<Rightarrow> string option) option \<Rightarrow>
     ('a \<Rightarrow> 's \<Rightarrow> response option outcome \<times> 's) \<Rightarrow> 'req \<Rightarrow> 's \<Rightarrow> response option outcome \<times> 's" where
  "PreProcess bind bind_header validate handler req s =
     (case bind req of
        Inl err \<Rightarrow>
          (Return (Some (json StatusBadRequest (Message (''failed to parse request: '' @ err)))), s)
      | Inr args \<Rightarrow>
          (case bind_header req args of
             Inl err \<Rightarrow>
               (Return (Some (json StatusBadRequest (Message (''failed to parse header: '' @ err)))), s)
           | Inr args \<Rightarrow>
               (case (case validate of None \<Rightarrow> None | Some v \<Rightarrow> v args) of
                  Some err \<Rightarrow>
                    (Return (Some (json StatusBadRequest
                       (Message (''failed to validate request: '' @ err)))), s)
                | None \<Rightarrow> handler args s)))"

text \<open>\<open>Some\<close> response aborts the chain of handlers; \<open>has_auth\<close> is \<^verbatim>\<open>Authorizer.HasAuth\<close>.\<close>

definition AuthFilter :: "Services \<Rightarrow> ('req \<Rightarrow> string option) \<Rightarrow> 'req \<Rightarrow> response option" where
  "AuthFilter svc has_auth req =
     (if \<not> svc_NeedAuth svc then None
      else case has_auth req of
        None \<Rightarrow> None
      | Some err \<Rightarrow> Some (json StatusUnauthorized (Message err)))"

definition NilAuthorizer_HasAuth :: "'req \<Rightarrow> string option" where
  "NilAuthorizer_HasAuth req = None"

definition NilNotifier_Notify :: "Tunnel \<Rightarrow> string option" where
  "NilNotifier_Notify tunnel = None"

section \<open>OpenTunnel\<close>

record OpenTunnelRequest =
  or_Services :: "string list"
  or_ThingName :: string
  or_TimeoutMinutes :: uint
  or_Payload :: string

text \<open>
  Up to and including \<^verbatim>\<open>AddTunnel\<close>.  The two fresh peers go to the end of the heap.
\<close>

definition OpenTunnel_add ::
  "Services \<Rightarrow> random \<Rightarrow> time \<Rightarrow> OpenTunnelRequest \<Rightarrow> server \<Rightarrow> (response + Tunnel) \<times> server" where
  "OpenTunnel_add svc rnd now args s =
     (case NewIDTokens (svc_IDTokenGen svc) rnd (sv_pos s) of
        (Inl err, n) \<Rightarrow>
          (Inl (json StatusInternalServerError
             (Message (''failed to generate ID: '' @ id_error_text err))), s\<lparr>sv_pos := n\<rparr>)
      | (Inr ids, n) \<Rightarrow>
          let minutes = (if or_TimeoutMinutes args = 0 then 720 else or_TimeoutMinutes args);
              lifetime = add_minutes now minutes;
              p = length (sv_peers s);
              tunnel =
                \<lparr>t_ID = TunnelID ids, t_Rev = 1, t_SourceToken = SourceToken ids,
                 t_SourcePeer = Some p, t_DestinationToken = DestinationToken ids,
                 t_DestinationPeer = Some (p + 1), t_Services = or_Services args,
                 t_ThingName = or_ThingName args, t_TimeoutMinutes = minutes,
                 t_Payload = or_Payload args, t_LifetimeAt = lifetime, t_CreatedAt = now,
                 t_LastUpdatedAt = now\<rparr>;
              s = s\<lparr>sv_pos := n, sv_peers := sv_peers s @ [zero_Peer, zero_Peer]\<rparr>
          in (case AddTunnel tunnel (sv_store s) of
                (Some err, st) \<Rightarrow>
                  (Inl (json StatusInternalServerError
                     (Message (''failed to store Tunnel information: '' @ err))),
                   s\<lparr>sv_store := st\<rparr>)
              | (None, st) \<Rightarrow> (Inr tunnel, s\<lparr>sv_store := st\<rparr>)))"

text \<open>The notification and, when it fails, the deletion of the tunnel.\<close>

definition OpenTunnel_notify ::
  "(Tunnel \<Rightarrow> string option) \<Rightarrow> Tunnel \<Rightarrow> server \<Rightarrow> response \<times> server" where
  "OpenTunnel_notify notify tunnel s =
     (case notify tunnel of
        Some err \<Rightarrow>
          let err = ''failed to notify a device of Tunnel information: '' @ err
          in (case DeleteTunnel (t_ID tunnel) (sv_store s) of
                (deleteErr, st) \<Rightarrow>
                  (json StatusInternalServerError (Message
                     (case deleteErr of None \<Rightarrow> err
                      | Some _ \<Rightarrow> ''failed to delete Tunnel information: '' @ err)),
                   s\<lparr>sv_store := st\<rparr>))
      | None \<Rightarrow>
          (json StatusOK (OpenBody \<lparr>otr_TunnelID = t_ID tunnel,
             otr_DestinationToken = t_DestinationToken tunnel,
             otr_SourceToken = t_SourceToken tunnel\<rparr>), s))"

definition OpenTunnel ::
  "Services \<Rightarrow> random \<Rightarrow> (Tunnel \<Rightarrow> string option) \<Rightarrow> time \<Rightarrow> OpenTunnelRequest \<Rightarrow> server \<Rightarrow>
     response \<times> server" where
  "OpenTunnel svc rnd notify now args s =
     (case OpenTunnel_add svc rnd now args s of
        (Inl r, s') \<Rightarrow> (r, s')
      | (Inr tunnel, s') \<Rightarrow> OpenTunnel_notify notify tunnel s')"

section \<open>CloseTunnel\<close>

record CloseTunnelRequest =
  cr_Delete :: bool
  cr_TunnelID :: string

definition CloseTunnel_get :: "CloseTunnelRequest \<Rightarrow> server \<Rightarrow> response + Tunnel" where
  "CloseTunnel_get args s =
     (case GetTunnel (cr_TunnelID args) (sv_store s) of
        Inl err \<Rightarrow> Inl (json StatusBadRequest (Message err))
      | Inr tunnel \<Rightarrow> Inr tunnel)"

definition CloseTunnel_update ::
  "time \<Rightarrow> Tunnel \<Rightarrow> server \<Rightarrow> response option \<times> server" where
  "CloseTunnel_update now tunnel s =
     (case UpdateTunnel (tunnel\<lparr>t_LifetimeAt := now, t_LastUpdatedAt := now\<rparr>) (sv_store s) of
        (Some err, st) \<Rightarrow>
          (Some (json StatusInternalServerError (Message err)), s\<lparr>sv_store := st\<rparr>)
      | (None, st) \<Rightarrow> (None, s\<lparr>sv_store := st\<rparr>))"

definition CloseTunnel_delete :: "CloseTunnelRequest \<Rightarrow> server \<Rightarrow> response \<times> server" where
  "CloseTunnel_delete args s =
     (if cr_Delete args then
        (case DeleteTunnel (cr_TunnelID args) (sv_store s) of
           (Some err, st) \<Rightarrow> (json StatusInternalServerError (Message err), s\<lparr>sv_store := st\<rparr>)
         | (None, st) \<Rightarrow> (json StatusOK CloseBody, s\<lparr>sv_store := st\<rparr>))
      else (json StatusOK CloseBody, s))"

definition CloseTunnel :: "time \<Rightarrow> CloseTunnelRequest \<Rightarrow> server \<Rightarrow> response \<times> server" where
  "CloseTunnel now args s =
     (case CloseTunnel_get args s of
        Inl r \<Rightarrow> (r, s)
      | Inr tunnel \<Rightarrow>
          (case CloseTunnel_update now tunnel s of
             (Some r, s') \<Rightarrow> (r, s')
           | (None, s') \<Rightarrow> CloseTunnel_delete args s'))"

section \<open>TunnelConnect\<close>

record TunnelConnectArgs =
  ca_Mode :: string
  ca_Subprotocols :: "string list"
  ca_AccessToken :: string
  ca_ClientToken :: string

definition TunnelConnectArgs_Validate :: "TunnelConnectArgs \<Rightarrow> string option" where
  "TunnelConnectArgs_Validate request =
     (if ca_Mode request \<noteq> ModeDestination \<and> ca_Mode request \<noteq> ModeSource then
        Some (''invalid mode '' @ [CHR 0x27] @ ca_Mode request @ [CHR 0x27])
      else
        let validProtocol = fold (\<lambda>p ok. if p = SubProtocolV2 then True else ok)
              (ca_Subprotocols request) False
        in if \<not> validProtocol then
             Some (''invalid subprotocol. only '' @ SubProtocolV2 @ '' is supported'')
           else None)"

text \<open>The object behind a pointer; dereferencing \<^verbatim>\<open>nil\<close> panics.\<close>

definition deref :: "Peer list \<Rightarrow> peer_ptr \<Rightarrow> Peer outcome" where
  "deref peers ptr = (case ptr of None \<Rightarrow> Panic | Some p \<Rightarrow> Return (peers ! p))"

text \<open>
  From the start of the handler to the check of \<^verbatim>\<open>tunnel.Open()\<close>, which reads the clock
  (\<open>now\<close>).  The tunnel it hands on is the copy it read.
\<close>

definition TunnelConnect_verify ::
  "time \<Rightarrow> TunnelConnectArgs \<Rightarrow> server \<Rightarrow> (response + Tunnel) outcome" where
  "TunnelConnect_verify now args s =
     (let tunnelID = token_TunnelID (ca_AccessToken args)
      in (case GetTunnel tunnelID (sv_store s) of
            Inl err \<Rightarrow> Return (Inl (refuse StatusBadRequest (''invalid access-token: '' @ err)))
          | Inr tunnel \<Rightarrow>
              let token = Tunnel_Token tunnel (ca_Mode args);
                  otherMode = OtherMode (ca_Mode args);
                  otherToken = Tunnel_Token tunnel otherMode
              in if ca_AccessToken args \<noteq> token then
                   (if ca_AccessToken args = otherToken then
                      Return (Inl (refuse StatusBadRequest
                        (''access-token for '' @ otherMode @
                         '' mode was specified for the connection in '' @ ca_Mode args @ '' mode'')))
                    else Return (Inl (refuse StatusBadRequest ''invalid access-token'')))
                 else
                   (case deref (sv_peers s) (Tunnel_Peer tunnel (ca_Mode args)) of
                      Panic \<Rightarrow> Panic
                    | Blocked \<Rightarrow> Blocked
                    | Return peer \<Rightarrow>
                        if 0 < p_NumOfConn peer \<and> p_ClientToken peer \<noteq> ca_ClientToken args then
                          Return (Inl (refuse StatusBadRequest ''invalid client-token''))
                        else if \<not> Tunnel_Open now tunnel then
                          Return (Inl (refuse StatusBadRequest StatusReasonTunnelClosed))
                        else Return (Inr tunnel))))"

text \<open>The connection record of a request.\<close>

definition new_connection :: "Services \<Rightarrow> time \<Rightarrow> TunnelConnectArgs \<Rightarrow> string \<Rightarrow> Connection" where
  "new_connection svc now args connectionID =
     \<lparr>c_ID = connectionID, c_Rev = 1, c_TunnelID = token_TunnelID (ca_AccessToken args),
      c_Mode = ca_Mode args, c_Status = ConnStatusConnected,
      c_InterServerNetwork = svc_InterServerNetwork svc,
      c_InterServerAddress = svc_InterServerAddress svc, c_LastUpdatedAt = now\<rparr>"

lemma new_connection_sel [simp]:
  "c_ID (new_connection svc now args cid) = cid" "c_Rev (new_connection svc now args cid) = 1"
  "c_TunnelID (new_connection svc now args cid) = token_TunnelID (ca_AccessToken args)"
  "c_Status (new_connection svc now args cid) = ConnStatusConnected"
  "c_LastUpdatedAt (new_connection svc now args cid) = now"
  by (simp_all add: new_connection_def)

text \<open>The new connection identifier and \<^verbatim>\<open>AddConnection\<close>; \<open>now\<close> is the handler's start.\<close>

definition TunnelConnect_add ::
  "Services \<Rightarrow> random \<Rightarrow> time \<Rightarrow> TunnelConnectArgs \<Rightarrow> server \<Rightarrow> (response + string) \<times> server" where
  "TunnelConnect_add svc rnd now args s =
     (let tunnelID = token_TunnelID (ca_AccessToken args)
      in (case NewConnectionID (svc_IDTokenGen svc) rnd (sv_pos s) tunnelID of
            (Inl err, n) \<Rightarrow>
              (Inl (json StatusInternalServerError
                 (Message (''failed to generate ID: '' @ id_error_text err))), s\<lparr>sv_pos := n\<rparr>)
          | (Inr connectionID, n) \<Rightarrow>
              let connection = new_connection svc now args connectionID
              in (case AddConnection connection (sv_store s) of
                    (Some err, st) \<Rightarrow>
                      (Inl (refuse StatusInternalServerError
                         (''failed to update Connection: '' @ err)),
                       s\<lparr>sv_pos := n, sv_store := st\<rparr>)
                  | (None, st) \<Rightarrow> (Inr connectionID, s\<lparr>sv_pos := n, sv_store := st\<rparr>))))"

text \<open>
  The three assignments through the peer pointer, and \<^verbatim>\<open>UpdateTunnel\<close>.  The assignments
  are not undone when the update fails.
\<close>

definition TunnelConnect_update ::
  "TunnelConnectArgs \<Rightarrow> Tunnel \<Rightarrow> string \<Rightarrow> server \<Rightarrow> response option outcome \<times> server" where
  "TunnelConnect_update args tunnel connectionID s =
     (case Tunnel_Peer tunnel (ca_Mode args) of
        None \<Rightarrow> (Panic, s)
      | Some p \<Rightarrow>
          let peer = sv_peers s ! p;
              s = s\<lparr>sv_peers := (sv_peers s)[p :=
                    peer\<lparr>p_ConnectionID := connectionID, p_ClientToken := ca_ClientToken args,
                         p_NumOfConn := p_NumOfConn peer + 1\<rparr>]\<rparr>
          in (case UpdateTunnel tunnel (sv_store s) of
                (Some _, st) \<Rightarrow>
                  (Return (Some (refuse StatusInternalServerError ''failed to update Tunnel'')),
                   s\<lparr>sv_store := st\<rparr>)
              | (None, st) \<Rightarrow> (Return None, s\<lparr>sv_store := st\<rparr>)))"

text \<open>The deferred function; its errors are only logged.\<close>

definition TunnelConnect_disconnect :: "time \<Rightarrow> string \<Rightarrow> server \<Rightarrow> server" where
  "TunnelConnect_disconnect now connectionID s =
     (case GetConnection connectionID (sv_store s) of
        Inl _ \<Rightarrow> s
      | Inr connection \<Rightarrow>
          s\<lparr>sv_store := snd (UpdateConnection
              (connection\<lparr>c_Status := ConnStatusDisconnected, c_LastUpdatedAt := now\<rparr>)
              (sv_store s))\<rparr>)"

text \<open>
  What comes of the library's \<^verbatim>\<open>Upgrade\<close>.  Its documentation says that it has answered the client
  itself when it fails: \<open>UpgradeRefused\<close> carries that answer.  It can also fail after it took the
  connection over from HTTP (\<open>UpgradeDropped\<close>), when nothing more can be answered.  So the status 500
  with which the handler means to report the failure never gets to the client: the most that does
  is its message, behind the answer of the library.
\<close>

datatype upgrade = Upgraded | UpgradeRefused response | UpgradeDropped

fun failed_upgrade :: "upgrade \<Rightarrow> response option" where
  "failed_upgrade Upgraded = None"
| "failed_upgrade (UpgradeRefused sent) =
     Some (after_reply sent (refuse StatusInternalServerError ''failed to upgrade websocket''))"
| "failed_upgrade UpgradeDropped = None"

text \<open>
  The whole handler.  \<open>upgraded\<close> is the outcome of the websocket upgrade, \<open>session\<close> what happens to
  the server while the connection lives (\<^verbatim>\<open>peerConManager.connect\<close>, of which the theory
  \<^verbatim>\<open>Peer_Con_Manager\<close> is the model, and everything else the server does meanwhile).
  A request whose connection was taken over from HTTP gets no response.
\<close>

definition TunnelConnect ::
  "Services \<Rightarrow> random \<Rightarrow> upgrade \<Rightarrow> (server \<Rightarrow> server) \<Rightarrow> time \<Rightarrow> time \<Rightarrow> time \<Rightarrow>
     TunnelConnectArgs \<Rightarrow> server \<Rightarrow> response option outcome \<times> server" where
  "TunnelConnect svc rnd upgraded session now now_open now_end args s =
     (case TunnelConnect_verify now_open args s of
        Panic \<Rightarrow> (Panic, s)
      | Blocked \<Rightarrow> (Blocked, s)
      | Return (Inl r) \<Rightarrow> (Return (Some r), s)
      | Return (Inr tunnel) \<Rightarrow>
          (case TunnelConnect_add svc rnd now args s of
             (Inl r, s) \<Rightarrow> (Return (Some r), s)
           | (Inr connectionID, s) \<Rightarrow>
               (case TunnelConnect_update args tunnel connectionID s of
                  (Return None, s) \<Rightarrow>
                    if upgraded \<noteq> Upgraded then
                      (Return (failed_upgrade upgraded), TunnelConnect_disconnect now_end connectionID s)
                    else (Return None, TunnelConnect_disconnect now_end connectionID (session s))
                | (out, s) \<Rightarrow> (out, s))))"

section \<open>The listings\<close>

definition conn_state :: "string \<Rightarrow> server \<Rightarrow> DescribeTunnelConnectionState" where
  "conn_state connectionID s =
     (case GetConnection connectionID (sv_store s) of
        Inl _ \<Rightarrow> \<lparr>dcs_Status = ConnStatusDisconnected, dcs_LastUpdatedAt = zero_time\<rparr>
      | Inr conn \<Rightarrow> \<lparr>dcs_Status = c_Status conn, dcs_LastUpdatedAt = c_LastUpdatedAt conn\<rparr>)"

definition DescribeTunnel :: "time \<Rightarrow> string \<Rightarrow> server \<Rightarrow> response outcome" where
  "DescribeTunnel now tunnelID s =
     (case GetTunnel tunnelID (sv_store s) of
        Inl err \<Rightarrow> Return (json StatusBadRequest (Message err))
      | Inr tunnel \<Rightarrow>
          (case (deref (sv_peers s) (t_DestinationPeer tunnel),
                 deref (sv_peers s) (t_SourcePeer tunnel)) of
             (Return dst, Return src) \<Rightarrow>
               Return (json StatusOK (DescribeBody
                 \<lparr>dtr_TunnelID = t_ID tunnel, dtr_ThingName = t_ThingName tunnel,
                  dtr_TimeoutMinutes = t_TimeoutMinutes tunnel, dtr_Payload = t_Payload tunnel,
                  dtr_Status = Tunnel_Status now tunnel,
                  dtr_DstConnState = conn_state (p_ConnectionID dst) s,
                  dtr_SrcConnState = conn_state (p_ConnectionID src) s,
                  dtr_LastUpdatedAt = t_LastUpdatedAt tunnel,
                  dtr_CreatedAt = t_CreatedAt tunnel\<rparr>))
           | _ \<Rightarrow> Panic))"

definition ListTunnels :: "string list \<Rightarrow> time \<Rightarrow> server \<Rightarrow> response" where
  "ListTunnels order now s =
     (case GetTunnels order (sv_store s) of
        Inl err \<Rightarrow> json StatusInternalServerError (Message (''failed to get Tunnel: '' @ err))
      | Inr tunnels \<Rightarrow>
          json StatusOK (ListBody (map (\<lambda>tunnel.
            \<lparr>ltt_ID = t_ID tunnel, ltt_Status = Tunnel_Status now tunnel,
             ltt_ThingName = t_ThingName tunnel,
             ltt_LastUpdatedAt = t_LastUpdatedAt tunnel\<rparr>) tunnels)))"

text \<open>The loop of \<^verbatim>\<open>DebugListTunnels\<close>, which ends at the first error.\<close>

fun debug_list :: "string list \<Rightarrow> server \<Rightarrow> Tunnel list \<Rightarrow> string + DebugListTunnel list" where
  "debug_list order s [] = Inr []"
| "debug_list order s (tunnel # tunnels) =
     (case GetConnections order (t_ID tunnel) (sv_store s) of
        Inl err \<Rightarrow> Inl err
      | Inr connections \<Rightarrow>
          (case debug_list order s tunnels of
             Inl err \<Rightarrow> Inl err
           | Inr rest \<Rightarrow> Inr (\<lparr>dlt_Tunnel = tunnel, dlt_Connections = connections\<rparr> # rest)))"

text \<open>
  \<^verbatim>\<open>sort.Slice\<close> is not stable; since the tunnels come in an unspecified order anyway, a
  stable sort after an arbitrary order has the same possible results.
\<close>

definition DebugListTunnels :: "string list \<Rightarrow> string list \<Rightarrow> server \<Rightarrow> response" where
  "DebugListTunnels order corder s =
     (case GetTunnels order (sv_store s) of
        Inl err \<Rightarrow> json StatusInternalServerError (Message (''failed to get Tunnel: '' @ err))
      | Inr tunnels \<Rightarrow>
          (case debug_list corder s tunnels of
             Inl err \<Rightarrow>
               json StatusInternalServerError (Message (''failed to get Connection: '' @ err))
           | Inr list \<Rightarrow>
               json StatusOK (DebugListBody (sort_key (\<lambda>d. t_CreatedAt (dlt_Tunnel d)) list))))"

section \<open>The invariant of the server\<close>

text \<open>
  A tunnel has two distinct peers in the heap, and tokens that carry its identifier.
\<close>

definition tunnel_ok :: "nat \<Rightarrow> Tunnel \<Rightarrow> bool" where
  "tunnel_ok n t \<longleftrightarrow>
     (\<exists>p q. t_SourcePeer t = Some p \<and> t_DestinationPeer t = Some q \<and> p < n \<and> q < n \<and> p \<noteq> q) \<and>
     token_TunnelID (t_SourceToken t) = t_ID t \<and> token_TunnelID (t_DestinationToken t) = t_ID t"

definition tunnel_ptrs :: "Tunnel \<Rightarrow> nat set" where
  "tunnel_ptrs t = set_option (t_SourcePeer t) \<union> set_option (t_DestinationPeer t)"

text \<open>
  A set of tunnels (stored, or copies that handlers in progress hold) is fine when each is well
  formed and every peer belongs to the copies of one tunnel identifier.
\<close>

definition tunnels_ok :: "nat \<Rightarrow> Tunnel set \<Rightarrow> bool" where
  "tunnels_ok n T \<longleftrightarrow>
     (\<exists>owner. \<forall>t \<in> T. tunnel_ok n t \<and> (\<forall>p \<in> tunnel_ptrs t. owner p = t_ID t))"

lemma tunnels_ok_subset: "tunnels_ok n T \<Longrightarrow> T' \<subseteq> T \<Longrightarrow> tunnels_ok n T'"
  unfolding tunnels_ok_def by (meson subsetD)

lemma tunnel_ok_mono: "tunnel_ok n t \<Longrightarrow> n \<le> m \<Longrightarrow> tunnel_ok m t"
  by (auto simp: tunnel_ok_def)

lemma tunnels_ok_mono: "tunnels_ok n T \<Longrightarrow> n \<le> m \<Longrightarrow> tunnels_ok m T"
  unfolding tunnels_ok_def using tunnel_ok_mono by blast

lemma tunnel_ok_ptrs: "tunnel_ok n t \<Longrightarrow> p \<in> tunnel_ptrs t \<Longrightarrow> p < n"
  by (auto simp: tunnel_ok_def tunnel_ptrs_def)

lemma tunnels_ok_copy:
  assumes "tunnels_ok n T" and "t \<in> T" and "t_ID u = t_ID t"
    and "t_SourcePeer u = t_SourcePeer t" "t_DestinationPeer u = t_DestinationPeer t"
    and "t_SourceToken u = t_SourceToken t" "t_DestinationToken u = t_DestinationToken t"
  shows "tunnels_ok n (insert u T)"
proof -
  have "tunnel_ok n u = tunnel_ok n t" "tunnel_ptrs u = tunnel_ptrs t"
    using assms(3-7) by (simp_all add: tunnel_ok_def tunnel_ptrs_def)
  then show ?thesis using assms(1-3) by (auto simp: tunnels_ok_def)
qed

lemma tunnels_ok_fresh:
  assumes "tunnels_ok n T" and "tunnel_ok m t" and "n \<le> m" and "\<And>p. p \<in> tunnel_ptrs t \<Longrightarrow> n \<le> p"
  shows "tunnels_ok m (insert t T)"
proof -
  obtain owner where owner: "\<And>u. u \<in> T \<Longrightarrow> tunnel_ok n u"
    "\<And>u p. u \<in> T \<Longrightarrow> p \<in> tunnel_ptrs u \<Longrightarrow> owner p = t_ID u"
    using assms(1) by (auto simp: tunnels_ok_def)
  have "p < n" if "u \<in> T" "p \<in> tunnel_ptrs u" for u p
    using owner(1) tunnel_ok_ptrs that by blast
  then show ?thesis
    unfolding tunnels_ok_def using owner assms(2,3,4) tunnel_ok_mono
    by (intro exI [of _ "\<lambda>p. if n \<le> p then t_ID t else owner p"]) (force simp: not_le)
qed

lemma tunnels_ok_disjoint:
  assumes "tunnels_ok n T" and "t \<in> T" "u \<in> T" and "t_ID t \<noteq> t_ID u"
  shows "tunnel_ptrs t \<inter> tunnel_ptrs u = {}"
  using assms unfolding tunnels_ok_def by (metis disjoint_iff)

abbreviation stored :: "server \<Rightarrow> Tunnel set" where
  "stored s \<equiv> ran (tunnel_at (sv_store s))"

definition server_inv :: "Tunnel set \<Rightarrow> server \<Rightarrow> bool" where
  "server_inv F s \<longleftrightarrow>
     store_inv (sv_store s) \<and> tunnels_ok (length (sv_peers s)) (stored s \<union> F) \<and>
     (\<forall>c \<in> ran (connection_at (sv_store s)). c_TunnelID c = token_TunnelID (c_ID c)) \<and>
     (\<forall>p \<in> set (sv_peers s). 0 \<le> p_NumOfConn p)"

definition server_init :: server where
  "server_init = \<lparr>sv_store = MemoryStore_Init, sv_peers = [], sv_pos = 0\<rparr>"

lemma server_init_inv [go_inv]: "server_inv {} server_init"
  using MemoryStore_Init_inv
  by (simp add: server_inv_def server_init_def tunnels_ok_def)
    (simp add: MemoryStore_Init_def empty_table_def)

lemma server_invD:
  assumes "server_inv F s"
  shows "store_inv (sv_store s)"
    "tunnel_at (sv_store s) i = Some t \<Longrightarrow> tunnel_ok (length (sv_peers s)) t"
    "t \<in> F \<Longrightarrow> tunnel_ok (length (sv_peers s)) t"
    "tunnel_at (sv_store s) i = Some t \<Longrightarrow> t_ID t = i"
    "p \<in> set (sv_peers s) \<Longrightarrow> 0 \<le> p_NumOfConn p"
  using assms tunnels.get_key by (auto simp: server_inv_def tunnels_ok_def ran_def)

lemma server_inv_subset: "server_inv F s \<Longrightarrow> G \<subseteq> F \<Longrightarrow> server_inv G s"
  unfolding server_inv_def by (meson Un_mono order_refl tunnels_ok_subset)

lemma server_inv_read:
  assumes "server_inv F s" and "tunnel_at (sv_store s) i = Some t"
  shows "server_inv (insert t F) s"
proof -
  have "t \<in> stored s" using assms(2) by (rule ranI)
  then show ?thesis using assms(1) by (simp add: server_inv_def insert_absorb)
qed

text \<open>Writing back a copy in progress, whatever changed in it except the peers and tokens.\<close>

lemma server_inv_write:
  assumes "server_inv F s" and "t \<in> F" and "t_ID u = t_ID t"
    and "t_SourcePeer u = t_SourcePeer t" "t_DestinationPeer u = t_DestinationPeer t"
    and "t_SourceToken u = t_SourceToken t" "t_DestinationToken u = t_DestinationToken t"
  shows "server_inv F (s\<lparr>sv_store := set_tunnel (Some u) (t_ID u) (sv_store s)\<rparr>)"
proof -
  have "tunnels_ok (length (sv_peers s)) (insert u (stored s \<union> F))"
    using assms by (intro tunnels_ok_copy) (auto simp: server_inv_def)
  then have "tunnels_ok (length (sv_peers s))
      (ran ((tunnel_at (sv_store s))(t_ID u \<mapsto> u)) \<union> F)"
    by (rule tunnels_ok_subset) (use ran_upd_subset in fast)
  then show ?thesis
    using assms(1) set_tunnel_inv [of "sv_store s" "Some u" "t_ID u"]
    by (simp add: server_inv_def)
qed

lemma ran_del_subset: "ran (m(k := None)) \<subseteq> ran m"
  by (auto simp: ran_def split: if_splits)

lemma server_inv_delete:
  assumes "server_inv F s"
  shows "server_inv F (s\<lparr>sv_store := set_tunnel None i (sv_store s)\<rparr>)"
proof -
  have "tunnels_ok (length (sv_peers s)) (ran ((tunnel_at (sv_store s))(i := None)) \<union> F)"
    using assms ran_del_subset [of "tunnel_at (sv_store s)" i]
    by (auto simp: server_inv_def elim!: tunnels_ok_subset)
  then show ?thesis
    using assms set_tunnel_inv [of "sv_store s" None i] by (simp add: server_inv_def)
qed

lemma server_inv_pos [simp]: "server_inv F (s\<lparr>sv_pos := n\<rparr>) = server_inv F s"
  by (simp add: server_inv_def)

text \<open>Changing the peers in place, or adding some.\<close>

lemma server_inv_peers:
  assumes "server_inv F s" and "length (sv_peers s) \<le> length ps"
    and "\<And>p. p \<in> set ps \<Longrightarrow> 0 \<le> p_NumOfConn p"
  shows "server_inv F (s\<lparr>sv_peers := ps\<rparr>)"
  using assms tunnels_ok_mono by (auto simp: server_inv_def)

text \<open>Changing connections.\<close>

lemma server_inv_connections:
  assumes "server_inv F s" and "store_inv st" and "tunnelTable st = tunnelTable (sv_store s)"
    and "\<And>c. c \<in> ran (connection_at st) \<Longrightarrow> c_TunnelID c = token_TunnelID (c_ID c)"
  shows "server_inv F (s\<lparr>sv_store := st\<rparr>)"
  using assms by (simp add: server_inv_def)

section \<open>What the pieces of the handlers do\<close>

lemma OpenTunnel_add_Inr:
  assumes "server_inv F s" and "OpenTunnel_add svc rnd now args s = (Inr t, s')"
  shows "tunnel_at (sv_store s) (t_ID t) = None"
    and "sv_store s' = set_tunnel (Some t) (t_ID t) (sv_store s)"
    and "sv_peers s' = sv_peers s @ [zero_Peer, zero_Peer]"
    and "t_SourcePeer t = Some (length (sv_peers s))"
    and "t_DestinationPeer t = Some (length (sv_peers s) + 1)"
    and "tunnel_ok (length (sv_peers s')) t"
    and "t_Rev t = 1 \<and> t_Services t = or_Services args \<and> t_Payload t = or_Payload args \<and>
      t_ThingName t = or_ThingName args \<and> t_CreatedAt t = now \<and> t_LastUpdatedAt t = now \<and>
      t_TimeoutMinutes t = (if or_TimeoutMinutes args = 0 then 720 else or_TimeoutMinutes args) \<and>
      t_LifetimeAt t = add_minutes now (t_TimeoutMinutes t)"
  using assms NewIDTokens_Inr
  by (auto simp: OpenTunnel_add_def Let_def AddTunnel_cases server_invD tunnel_ok_def
      split: prod.splits sum.splits option.splits if_splits)

lemma OpenTunnel_add_Inl:
  "server_inv F s \<Longrightarrow> OpenTunnel_add svc rnd now args s = (Inl r, s') \<Longrightarrow>
     code r = StatusInternalServerError \<and> sv_store s' = sv_store s \<and>
     (sv_peers s' = sv_peers s \<or> sv_peers s' = sv_peers s @ [zero_Peer, zero_Peer])"
  by (auto simp: OpenTunnel_add_def Let_def AddTunnel_cases server_invD json_def
      split: prod.splits sum.splits option.splits if_splits)

lemma OpenTunnel_add_inv [go_inv]:
  assumes "server_inv F s" and "OpenTunnel_add svc rnd now args s = (x, s')"
  shows "server_inv ((case x of Inl _ \<Rightarrow> {} | Inr t \<Rightarrow> {t}) \<union> F) s'"
proof (cases x)
  case (Inl r)
  note s' = OpenTunnel_add_Inl [OF assms(1) assms(2) [unfolded Inl]]
  have "server_inv F (s\<lparr>sv_peers := sv_peers s'\<rparr>)"
    using s' server_invD(5) [OF assms(1)]
    by (intro server_inv_peers [OF assms(1)]) (auto simp: zero_Peer_def)
  then show ?thesis using s' Inl by (simp add: server_inv_def)
next
  case (Inr t)
  note s' = OpenTunnel_add_Inr [OF assms(1) assms(2) [unfolded Inr]]
  have "tunnels_ok (length (sv_peers s')) (insert t (stored s \<union> F))"
    by (rule tunnels_ok_fresh [of "length (sv_peers s)"])
      (use assms(1) s' in \<open>auto simp: server_inv_def tunnel_ptrs_def\<close>)
  moreover have "stored s' = insert t (stored s)"
    using s'(1) by (simp add: s'(2) ran_map_upd)
  moreover have "store_inv (sv_store s')"
    unfolding s'(2) by (rule set_tunnel_inv [OF server_invD(1) [OF assms(1)]]) simp
  ultimately show ?thesis
    using assms(1) s'(3) Inr by (auto simp: server_inv_def s'(2) zero_Peer_def)
qed

lemma OpenTunnel_notify_inv [go_inv]:
  "server_inv F s \<Longrightarrow> OpenTunnel_notify notify t s = (r, s') \<Longrightarrow> server_inv F s'"
  using server_inv_delete [of F s "t_ID t"]
  by (auto simp: OpenTunnel_notify_def DeleteTunnel_set split: option.splits)

lemma CloseTunnel_get_Inr:
  "CloseTunnel_get args s = Inr t \<longleftrightarrow> tunnel_at (sv_store s) (cr_TunnelID args) = Some t"
  by (auto simp: CloseTunnel_get_def GetTunnel_def table_getWithKey_def split: option.splits)

lemma CloseTunnel_update_inv [go_inv]:
  assumes "server_inv F s" and "t \<in> F" and "CloseTunnel_update now t s = (r, s')"
  shows "server_inv F s'"
proof -
  have "server_inv F (s\<lparr>sv_store := set_tunnel
      (Some (t\<lparr>t_LifetimeAt := now, t_LastUpdatedAt := now, t_Rev := r\<rparr>)) (t_ID t) (sv_store s)\<rparr>)"
    for r
    using server_inv_write [OF assms(1,2),
        of "t\<lparr>t_LifetimeAt := now, t_LastUpdatedAt := now, t_Rev := r\<rparr>"] by simp
  then show ?thesis
    using assms(1,3) server_invD(1) [OF assms(1)]
    by (auto simp: CloseTunnel_update_def UpdateTunnel_cases split: prod.splits option.splits if_splits)
qed

lemma CloseTunnel_delete_inv [go_inv]:
  "server_inv F s \<Longrightarrow> CloseTunnel_delete args s = (r, s') \<Longrightarrow> server_inv F s'"
  using server_inv_delete [of F s "cr_TunnelID args"]
  by (auto simp: CloseTunnel_delete_def DeleteTunnel_set split: option.splits if_splits)

lemma TunnelConnect_add_inv [go_inv]:
  assumes "server_inv F s" and "TunnelConnect_add svc rnd now args s = (x, s')"
  shows "server_inv F s' \<and> sv_peers s' = sv_peers s \<and> tunnelTable (sv_store s') = tunnelTable (sv_store s)"
proof -
  note st = server_invD(1) [OF assms(1)]
  have "server_inv F (s\<lparr>sv_store := snd (AddConnection c (sv_store s))\<rparr>)"
    if "c_TunnelID c = token_TunnelID (c_ID c)" for c
  proof (rule server_inv_connections [OF assms(1)])
    show "d \<in> ran (connection_at (snd (AddConnection c (sv_store s)))) \<Longrightarrow>
        c_TunnelID d = token_TunnelID (c_ID d)" for d
      using assms(1) that ran_upd_subset [of "connection_at (sv_store s)" "c_ID c" c]
      by (auto simp: AddConnection_at st server_inv_def split: if_splits)
  qed (simp_all add: store_op_inv st)
  then have add: "server_inv F (s\<lparr>sv_pos := n, sv_store := st'\<rparr>)"
    if "AddConnection c (sv_store s) = (e, st')" "c_TunnelID c = token_TunnelID (c_ID c)"
    for c e st' n
    using that by (metis server_inv_pos snd_conv server.update_convs(1,3) server.surjective)
  have "tunnelTable st' = tunnelTable (sv_store s)"
    if "AddConnection c (sv_store s) = (e, st')" for c e st'
    using connection_ops_tunnels(1) [of c "sv_store s"] that by simp
  moreover have "token_TunnelID cid = token_TunnelID (ca_AccessToken args)"
    if "NewConnectionID g rnd n (token_TunnelID (ca_AccessToken args)) = (Inr cid, n')" for g n cid n'
    using NewConnectionID_Inr [OF that] token_TunnelID_plain by blast
  ultimately show ?thesis
    using assms add
    by (auto simp: TunnelConnect_add_def Let_def split: prod.splits sum.splits option.splits)
qed

lemma server_inv_cong:
  "server_inv F s \<Longrightarrow> sv_store s' = sv_store s \<Longrightarrow> sv_peers s' = sv_peers s \<Longrightarrow> server_inv F s'"
  by (simp add: server_inv_def)

definition taken :: "TunnelConnectArgs \<Rightarrow> string \<Rightarrow> Peer \<Rightarrow> Peer" where
  "taken args cid peer =
     peer\<lparr>p_ConnectionID := cid, p_ClientToken := ca_ClientToken args,
          p_NumOfConn := p_NumOfConn peer + 1\<rparr>"

lemma TunnelConnect_update_cases:
  assumes "store_inv (sv_store s)" and "Tunnel_Peer t (ca_Mode args) = Some p"
  shows "TunnelConnect_update args t cid s =
    (let s' = s\<lparr>sv_peers := (sv_peers s)[p := taken args cid (sv_peers s ! p)]\<rparr>;
         refused = (Return (Some (refuse StatusInternalServerError ''failed to update Tunnel'')), s')
     in case tunnel_at (sv_store s) (t_ID t) of
          None \<Rightarrow> refused
        | Some d \<Rightarrow>
            if t_Rev d \<noteq> t_Rev t then refused
            else (Return None, s'\<lparr>sv_store :=
                   set_tunnel (Some (t\<lparr>t_Rev := t_Rev d + 1\<rparr>)) (t_ID t) (sv_store s)\<rparr>))"
  using assms
  by (auto simp: TunnelConnect_update_def UpdateTunnel_cases taken_def Let_def split: option.splits)

lemma TunnelConnect_update_inv [go_inv]:
  assumes "server_inv F s" and "t \<in> F" and "ca_Mode args = ModeSource \<or> ca_Mode args = ModeDestination"
    and "TunnelConnect_update args t cid s = (out, s')"
  shows "out \<noteq> Panic \<and> out \<noteq> Blocked \<and> server_inv F s'"
proof -
  obtain p where p: "Tunnel_Peer t (ca_Mode args) = Some p" "p < length (sv_peers s)"
    using server_invD(3) [OF assms(1,2)] assms(3) by (auto simp: tunnel_ok_def)
  define s1 where "s1 = s\<lparr>sv_peers := (sv_peers s)[p := taken args cid (sv_peers s ! p)]\<rparr>"
  have "0 \<le> p_NumOfConn (sv_peers s ! p)"
    using server_invD(5) [OF assms(1)] p(2) by simp
  then have s1: "server_inv F s1"
    unfolding s1_def using server_invD(5) [OF assms(1)]
    by (intro server_inv_peers [OF assms(1)])
      (auto simp: taken_def dest!: set_update_subset_insert [THEN subsetD])
  have "server_inv F (s1\<lparr>sv_store := set_tunnel (Some (t\<lparr>t_Rev := r\<rparr>)) (t_ID t) (sv_store s1)\<rparr>)" for r
    using server_inv_write [OF s1 assms(2), of "t\<lparr>t_Rev := r\<rparr>"] by simp
  then show ?thesis
    using assms(4) s1
    unfolding TunnelConnect_update_cases [OF server_invD(1) [OF assms(1)] p(1)]
    by (auto simp: s1_def Let_def split: option.splits if_splits)
qed

lemma TunnelConnect_disconnect_inv [go_inv]:
  assumes "server_inv F s"
  shows "server_inv F (TunnelConnect_disconnect now cid s)"
proof (cases "connection_at (sv_store s) cid")
  case None
  then show ?thesis
    using assms by (simp add: TunnelConnect_disconnect_def GetConnection_def table_getWithKey_def)
next
  case (Some c)
  define c' where "c' = c\<lparr>c_Status := ConnStatusDisconnected, c_LastUpdatedAt := now\<rparr>"
  have c': "c_TunnelID d = token_TunnelID (c_ID d)"
    if "d \<in> ran (connection_at (snd (UpdateConnection c' (sv_store s))))" for d
  proof -
    have "d \<in> insert (c'\<lparr>c_Rev := c_Rev c' + 1\<rparr>) (ran (connection_at (sv_store s)))"
      using that ran_upd_subset connections.get_upd [OF server_invD(1) [OF assms]]
      by (fastforce split: if_splits)
    then show ?thesis using assms Some by (auto simp: c'_def server_inv_def ranI)
  qed
  have "server_inv F (s\<lparr>sv_store := snd (UpdateConnection c' (sv_store s))\<rparr>)"
    by (rule server_inv_connections [OF assms])
      (use c' server_invD(1) [OF assms] in \<open>auto intro: store_op_inv\<close>)
  then show ?thesis
    using Some by (simp add: TunnelConnect_disconnect_def GetConnection_def table_getWithKey_def c'_def)
qed

text \<open>When \<^verbatim>\<open>TunnelConnect\<close> lets a request through, and what it answers otherwise.\<close>

definition accepts :: "time \<Rightarrow> TunnelConnectArgs \<Rightarrow> server \<Rightarrow> Tunnel \<Rightarrow> bool" where
  "accepts now args s t \<longleftrightarrow>
     tunnel_at (sv_store s) (token_TunnelID (ca_AccessToken args)) = Some t \<and>
     ca_AccessToken args = Tunnel_Token t (ca_Mode args) \<and>
     (\<exists>p. Tunnel_Peer t (ca_Mode args) = Some p \<and>
        (p_NumOfConn (sv_peers s ! p) \<le> 0 \<or> p_ClientToken (sv_peers s ! p) = ca_ClientToken args)) \<and>
     now \<le> t_LifetimeAt t"

lemma TunnelConnect_verify_Inr:
  "TunnelConnect_verify now args s = Return (Inr t) \<longleftrightarrow> accepts now args s t"
  by (auto simp: TunnelConnect_verify_def accepts_def Let_def deref_def GetTunnel_def
      table_getWithKey_def split: sum.splits option.splits outcome.splits if_splits)

lemma TunnelConnect_verify_Inl:
  "TunnelConnect_verify now args s = Return (Inl r) \<Longrightarrow>
     code r = StatusBadRequest \<and> (\<exists>m. status_reason r = Some m \<and> body r = Message m)"
  by (auto simp: TunnelConnect_verify_def Let_def deref_def refuse_def split: sum.splits option.splits
      outcome.splits if_splits)

lemma TunnelConnect_verify_returns:
  assumes "server_inv F s" and "ca_Mode args = ModeSource \<or> ca_Mode args = ModeDestination"
  shows "\<exists>x. TunnelConnect_verify now args s = Return x"
  using assms server_invD(2) [OF assms(1)]
  by (fastforce simp: TunnelConnect_verify_def Let_def deref_def GetTunnel_def table_getWithKey_def
      tunnel_ok_def split: sum.splits option.splits outcome.splits if_splits)

lemma DescribeTunnel_returns: "server_inv F s \<Longrightarrow> \<exists>r. DescribeTunnel now i s = Return r"
  using server_invD(2) [of F s i]
  by (fastforce simp: DescribeTunnel_def deref_def GetTunnel_def table_getWithKey_def tunnel_ok_def
      split: sum.splits option.splits outcome.splits)

section \<open>Properties of the handlers\<close>

lemma set_tunnel_undo: "tunnel_at st i = None \<Longrightarrow> set_tunnel None i (set_tunnel t i st) = st"
  by (simp add: set_tunnel_def fun_upd_idem)

text \<open>
  C20 (error): opening a tunnel is transactional.  \<^verbatim>\<open>OpenTunnel\<close> either answers 200 with the
  identifier and the tokens of a tunnel that was not stored before, is stored now under that
  identifier at revision 1 with the requested data, and was notified; or it answers 500 and the
  store is as it was, also when the notification failed after the tunnel had been stored.
\<close>

theorem OpenTunnel_transactional:
  assumes "server_inv F s" and "OpenTunnel svc rnd notify now args s = (r, s')"
  shows "(\<exists>t. r = json StatusOK (OpenBody \<lparr>otr_TunnelID = t_ID t,
              otr_DestinationToken = t_DestinationToken t, otr_SourceToken = t_SourceToken t\<rparr>) \<and>
           tunnel_at (sv_store s) (t_ID t) = None \<and>
           sv_store s' = set_tunnel (Some t) (t_ID t) (sv_store s) \<and> notify t = None \<and>
           t_Rev t = 1 \<and> t_Services t = or_Services args \<and> t_Payload t = or_Payload args \<and>
           t_ThingName t = or_ThingName args \<and> t_LifetimeAt t = add_minutes now (t_TimeoutMinutes t)) \<or>
         (code r = StatusInternalServerError \<and> sv_store s' = sv_store s)"
proof (cases "OpenTunnel_add svc rnd now args s")
  case (Pair x s1)
  show ?thesis
  proof (cases x)
    case (Inl e)
    then show ?thesis using assms Pair OpenTunnel_add_Inl by (fastforce simp: OpenTunnel_def)
  next
    case (Inr t)
    note t = OpenTunnel_add_Inr [OF assms(1) Pair [unfolded Inr]]
    show ?thesis
      using assms(2) Pair Inr t set_tunnel_undo [OF t(1)]
      by (auto simp: OpenTunnel_def OpenTunnel_notify_def DeleteTunnel_set json_def
          split: option.splits)
  qed
qed

definition sample_svc :: Services where
  "sample_svc =
     \<lparr>svc_IDTokenGen = \<lparr>TunnelIDDigit = 1, TokenDigit = 1, ConnectionIDDigit = 1\<rparr>,
      svc_NeedAuth = False, svc_InterServerNetwork = ''tcp'',
      svc_InterServerAddress = ''0.0.0.0:18081''\<rparr>"

definition sample_rnd :: random where
  "sample_rnd n = Inr (n + 10)"

definition sample_open :: "uint \<Rightarrow> OpenTunnelRequest" where
  "sample_open minutes =
     \<lparr>or_Services = [''ssh''], or_ThingName = ''device'', or_TimeoutMinutes = minutes,
      or_Payload = ''''\<rparr>"

text \<open>The tunnel that this request opens at time 0 on the initial server.\<close>

definition sample_opened :: "uint \<Rightarrow> Tunnel" where
  "sample_opened minutes =
     \<lparr>t_ID = ''a'', t_Rev = 1, t_SourceToken = ''a_b'', t_SourcePeer = Some 0,
      t_DestinationToken = ''a_c'', t_DestinationPeer = Some 1, t_Services = [''ssh''],
      t_ThingName = ''device'', t_TimeoutMinutes = minutes, t_Payload = '''',
      t_LifetimeAt = add_minutes 0 minutes, t_CreatedAt = 0, t_LastUpdatedAt = 0\<rparr>"

definition sample_server :: "uint \<Rightarrow> server" where
  "sample_server minutes =
     \<lparr>sv_store = set_tunnel (Some (sample_opened minutes)) ''a'' MemoryStore_Init,
      sv_peers = [zero_Peer, zero_Peer], sv_pos = 3\<rparr>"

lemma sample_OpenTunnel_add:
  assumes "minutes \<noteq> 0"
  shows "OpenTunnel_add sample_svc sample_rnd 0 (sample_open minutes) server_init =
    (Inr (sample_opened minutes), sample_server minutes)"
proof -
  have "NewIDTokens (svc_IDTokenGen sample_svc) sample_rnd 0 =
      (Inr \<lparr>TunnelID = ''a'', SourceToken = ''a_b'', DestinationToken = ''a_c''\<rparr>, 3)"
    by (simp add: NewIDTokens_def NewTunnelID_def NewToken_def rand_Int_def availableChars_def
        separator_def sample_svc_def sample_rnd_def)
  moreover have "tunnel_at MemoryStore_Init = Map.empty"
    by (simp add: MemoryStore_Init_def empty_table_def)
  ultimately show ?thesis
    using assms
    by (simp add: OpenTunnel_add_def Let_def sample_open_def server_init_def sample_opened_def
        sample_server_def AddTunnel_cases MemoryStore_Init_inv)
qed

lemma sample_server_inv: "minutes \<noteq> 0 \<Longrightarrow> server_inv {} (sample_server minutes)"
  using OpenTunnel_add_inv [OF server_init_inv sample_OpenTunnel_add]
  by (auto intro: server_inv_subset)

lemma sample_server_tunnel [simp]:
  "tunnel_at (sv_store (sample_server minutes)) = [''a'' \<mapsto> sample_opened minutes]"
  by (simp add: sample_server_def) (simp add: MemoryStore_Init_def empty_table_def)

lemma sample_OpenTunnel:
  "minutes \<noteq> 0 \<Longrightarrow> notify (sample_opened minutes) = None \<Longrightarrow>
     OpenTunnel sample_svc sample_rnd notify 0 (sample_open minutes) server_init =
       (json StatusOK (OpenBody \<lparr>otr_TunnelID = ''a'', otr_DestinationToken = ''a_c'',
          otr_SourceToken = ''a_b''\<rparr>), sample_server minutes)"
  by (simp add: OpenTunnel_def sample_OpenTunnel_add OpenTunnel_notify_def)
    (simp add: sample_opened_def)

theorem OpenTunnel_transactional_witness:
  "sv_store (snd (OpenTunnel sample_svc sample_rnd (\<lambda>_. Some ''offline'') 0 (sample_open 1)
     server_init)) = MemoryStore_Init \<and>
   code (fst (OpenTunnel sample_svc sample_rnd (\<lambda>_. Some ''offline'') 0 (sample_open 1)
     server_init)) = 500"
proof -
  let ?o = "OpenTunnel sample_svc sample_rnd (\<lambda>_. Some ''offline'') 0 (sample_open 1) server_init"
  show ?thesis
    using OpenTunnel_transactional [OF server_init_inv, of sample_svc sample_rnd
        "\<lambda>_. Some ''offline''" 0 "sample_open 1" "fst ?o" "snd ?o"]
    by (auto simp: http_defs) (simp_all add: server_init_def)
qed

lemma TunnelConnect_verify_fresh:
  assumes "tunnel_at (sv_store s) (token_TunnelID (ca_AccessToken args)) = Some t"
    and "ca_AccessToken args = Tunnel_Token t (ca_Mode args)"
    and "Tunnel_Peer t (ca_Mode args) = Some p" and "p_NumOfConn (sv_peers s ! p) = 0"
  shows "TunnelConnect_verify now args s =
    Return (if now \<le> t_LifetimeAt t then Inr t
            else Inl (refuse StatusBadRequest StatusReasonTunnelClosed))"
  using assms by (simp add: TunnelConnect_verify_def GetTunnel_def table_getWithKey_def deref_def)

abbreviation connect_args :: "string \<Rightarrow> string list \<Rightarrow> string \<Rightarrow> string \<Rightarrow> TunnelConnectArgs" where
  "connect_args mode protocols tok client \<equiv>
     \<lparr>ca_Mode = mode, ca_Subprotocols = protocols, ca_AccessToken = tok, ca_ClientToken = client\<rparr>"

lemma opened_tunnel_verify:
  assumes "server_inv F s"
    and "OpenTunnel svc rnd notify now args s = (json StatusOK (OpenBody res), s')"
    and "minutes = (if or_TimeoutMinutes args = 0 then 720 else or_TimeoutMinutes args)"
  shows "\<exists>t. \<forall>at prots client.
      TunnelConnect_verify at (connect_args ModeSource prots (otr_SourceToken res) client) s' =
        Return (if at \<le> add_minutes now minutes then Inr t
                else Inl (refuse StatusBadRequest StatusReasonTunnelClosed)) \<and>
      TunnelConnect_verify at (connect_args ModeDestination prots (otr_DestinationToken res) client) s' =
        Return (if at \<le> add_minutes now minutes then Inr t
                else Inl (refuse StatusBadRequest StatusReasonTunnelClosed))"
proof -
  obtain t where add: "OpenTunnel_add svc rnd now args s = (Inr t, s')"
    and res: "res = \<lparr>otr_TunnelID = t_ID t, otr_DestinationToken = t_DestinationToken t,
        otr_SourceToken = t_SourceToken t\<rparr>"
    using assms(1,2) OpenTunnel_add_Inl
    by (fastforce simp: OpenTunnel_def OpenTunnel_notify_def DeleteTunnel_set json_def http_defs
        split: prod.splits sum.splits option.splits)
  note t = OpenTunnel_add_Inr [OF assms(1) add]
  have "tunnel_at (sv_store s') (t_ID t) = Some t" by (simp add: t(2))
  moreover have "token_TunnelID (t_SourceToken t) = t_ID t"
    "token_TunnelID (t_DestinationToken t) = t_ID t"
    using t(6) by (simp_all add: tunnel_ok_def)
  moreover have "p_NumOfConn (sv_peers s' ! length (sv_peers s)) = 0"
    "p_NumOfConn (sv_peers s' ! (length (sv_peers s) + 1)) = 0"
    by (simp_all add: t(3) nth_append zero_Peer_def)
  moreover have "t_LifetimeAt t = add_minutes now minutes"
    using t(7) assms(3) by simp
  ultimately show ?thesis
    using t(4,5) by (intro exI [of _ t]) (simp add: res TunnelConnect_verify_fresh)
qed

text \<open>
  C19 (functional): the tokens of an opened tunnel connect until its lifetime ends.  After
  \<^verbatim>\<open>OpenTunnel\<close> answered 200, each of the two tokens of the answer is accepted in its own mode, with
  any client token, until the requested number of minutes (720 when it was 0) has passed, and is
  refused with the reason that the tunnel is closed from then on; this for timeouts up to
  153722867 minutes, beyond which the duration wraps.
\<close>

theorem opened_tunnel_connects:
  assumes "server_inv F s"
    and "OpenTunnel svc rnd notify now args s = (json StatusOK (OpenBody res), s')"
    and "minutes = (if or_TimeoutMinutes args = 0 then 720 else or_TimeoutMinutes args)"
    and "unat minutes \<le> max_minutes"
  shows "\<exists>t. \<forall>at prots client.
      TunnelConnect_verify at (connect_args ModeSource prots (otr_SourceToken res) client) s' =
        Return (if at \<le> now + int (unat minutes) * 60000000000 then Inr t
                else Inl (refuse StatusBadRequest StatusReasonTunnelClosed)) \<and>
      TunnelConnect_verify at (connect_args ModeDestination prots (otr_DestinationToken res) client) s' =
        Return (if at \<le> now + int (unat minutes) * 60000000000 then Inr t
                else Inl (refuse StatusBadRequest StatusReasonTunnelClosed))"
  using opened_tunnel_verify [OF assms(1-3)] unfolding add_minutes_exact [OF assms(4)] .

theorem opened_tunnel_connects_witness:
  "TunnelConnect_verify 60000000000
      (connect_args ModeSource [SubProtocolV2] ''a_b'' ''me'') (sample_server 1) \<noteq>
    Return (Inl (refuse StatusBadRequest StatusReasonTunnelClosed)) \<and>
   TunnelConnect_verify 60000000001
      (connect_args ModeSource [SubProtocolV2] ''a_b'' ''me'') (sample_server 1) =
    Return (Inl (refuse StatusBadRequest StatusReasonTunnelClosed))"
proof -
  have "OpenTunnel sample_svc sample_rnd NilNotifier_Notify 0 (sample_open 1) server_init =
      (json StatusOK (OpenBody \<lparr>otr_TunnelID = ''a'', otr_DestinationToken = ''a_c'',
          otr_SourceToken = ''a_b''\<rparr>), sample_server 1)"
    by (simp add: sample_OpenTunnel NilNotifier_Notify_def)
  from opened_tunnel_connects [OF server_init_inv this refl]
  show ?thesis by (fastforce simp: sample_open_def max_minutes_def)
qed



end
