(* ===== verification/Tunnel_Lifecycle.thy ===== *)
theory Tunnel_Lifecycle
  imports Services
begin

text \<open>
  What the services promise over the life of a tunnel, over several handlers of the theory
  \<^verbatim>\<open>Services\<close>: concurrent connections, closing, the reported connection states and
  the listings.
\<close>

section \<open>Concurrent connections\<close>

lemma TunnelConnect_add_Inr:
  assumes "server_inv F s" and "TunnelConnect_add svc rnd now args s = (Inr cid, s')"
  shows "sv_peers s' = sv_peers s" and "tunnelTable (sv_store s') = tunnelTable (sv_store s)"
    and "connection_at (sv_store s) cid = None"
    and "connection_at (sv_store s') =
      (connection_at (sv_store s))(cid \<mapsto> new_connection svc now args cid)"
    and "server_inv F s'"
    and "token_TunnelID cid = token_TunnelID (ca_AccessToken args) \<and> cid \<noteq> []"
proof -
  show "sv_peers s' = sv_peers s" "tunnelTable (sv_store s') = tunnelTable (sv_store s)"
    "server_inv F s'"
    using TunnelConnect_add_inv [OF assms] by simp_all
  note st = server_invD(1) [OF assms(1)]
  let ?c = "new_connection svc now args cid"
  obtain n st' where id: "NewConnectionID (svc_IDTokenGen svc) rnd (sv_pos s)
        (token_TunnelID (ca_AccessToken args)) = (Inr cid, n)"
    and "AddConnection ?c (sv_store s) = (None, st')" "s' = s\<lparr>sv_pos := n, sv_store := st'\<rparr>"
    using assms(2)
    by (auto simp: TunnelConnect_add_def Let_def split: prod.splits sum.splits option.splits)
  then show "connection_at (sv_store s) cid = None"
    "connection_at (sv_store s') = (connection_at (sv_store s))(cid \<mapsto> ?c)"
    using connections.get_add [OF st, of ?c] connections.add_present [OF st, of ?c]
    by (auto split: option.splits)
  show "token_TunnelID cid = token_TunnelID (ca_AccessToken args) \<and> cid \<noteq> []"
    using NewConnectionID_Inr [OF id token_TunnelID_plain] .
qed

text \<open>The first two pieces of a connection, after the check.\<close>

definition connect_commit ::
  "Services \<Rightarrow> random \<Rightarrow> time \<Rightarrow> TunnelConnectArgs \<Rightarrow> Tunnel \<Rightarrow> server \<Rightarrow>
     (response + string) outcome \<times> server" where
  "connect_commit svc rnd now args t s =
     (case TunnelConnect_add svc rnd now args s of
        (Inl r, s) \<Rightarrow> (Return (Inl r), s)
      | (Inr cid, s) \<Rightarrow>
          (case TunnelConnect_update args t cid s of
             (Return None, s) \<Rightarrow> (Return (Inr cid), s)
           | (Return (Some r), s) \<Rightarrow> (Return (Inl r), s)
           | (Panic, s) \<Rightarrow> (Panic, s)
           | (Blocked, s) \<Rightarrow> (Blocked, s)))"

lemma connect_commit_Inr:
  assumes "server_inv F s" and "t \<in> F" and "Tunnel_Peer t (ca_Mode args) = Some p"
    and "connect_commit svc rnd now args t s = (Return (Inr cid), s')"
  shows "\<exists>d. tunnel_at (sv_store s) (t_ID t) = Some d \<and> t_Rev d = t_Rev t"
    and "tunnel_at (sv_store s') = (tunnel_at (sv_store s))(t_ID t \<mapsto> t\<lparr>t_Rev := t_Rev t + 1\<rparr>)"
    and "sv_peers s' = (sv_peers s)[p := taken args cid (sv_peers s ! p)]"
    and "connection_at (sv_store s') =
      (connection_at (sv_store s))(cid \<mapsto> new_connection svc now args cid)"
proof -
  obtain s1 where add: "TunnelConnect_add svc rnd now args s = (Inr cid, s1)"
    and upd: "TunnelConnect_update args t cid s1 = (Return None, s')"
    using assms(4)
    by (auto simp: connect_commit_def split: prod.splits sum.splits option.splits outcome.splits)
  note s1 = TunnelConnect_add_Inr [OF assms(1) add]
  obtain d where d: "tunnel_at (sv_store s1) (t_ID t) = Some d" "t_Rev d = t_Rev t"
    "s' = s1\<lparr>sv_peers := (sv_peers s1)[p := taken args cid (sv_peers s1 ! p)],
             sv_store := set_tunnel (Some (t\<lparr>t_Rev := t_Rev t + 1\<rparr>)) (t_ID t) (sv_store s1)\<rparr>"
    using upd TunnelConnect_update_cases [OF server_invD(1) [OF s1(5)] assms(3), of cid]
    by (auto simp: Let_def split: option.splits if_splits)
  then show "\<exists>d. tunnel_at (sv_store s) (t_ID t) = Some d \<and> t_Rev d = t_Rev t"
    "tunnel_at (sv_store s') = (tunnel_at (sv_store s))(t_ID t \<mapsto> t\<lparr>t_Rev := t_Rev t + 1\<rparr>)"
    "sv_peers s' = (sv_peers s)[p := taken args cid (sv_peers s ! p)]"
    "connection_at (sv_store s') =
      (connection_at (sv_store s))(cid \<mapsto> new_connection svc now args cid)"
    using s1(1,2,4) by simp_all
qed

lemma connect_commit_inv [go_inv]:
  assumes "server_inv F s" and "t \<in> F" and "Tunnel_Peer t (ca_Mode args) = Some p"
    and "connect_commit svc rnd now args t s = (out, s')"
  shows "server_inv F s'"
proof (cases "TunnelConnect_add svc rnd now args s")
  case (Pair x s1)
  have s1: "server_inv F s1" using TunnelConnect_add_inv [OF assms(1) Pair] by blast
  have m: "ca_Mode args = ModeSource \<or> ca_Mode args = ModeDestination"
    using assms(3) by (simp add: Tunnel_Peer_def split: if_splits)
  have "server_inv F s2" if "TunnelConnect_update args t cid s1 = (y, s2)" for cid y s2
    using TunnelConnect_update_inv [OF s1 assms(2) m that] by blast
  then show ?thesis
    using assms(4) s1 Pair
    by (auto simp: connect_commit_def split: prod.splits sum.splits option.splits outcome.splits)
qed

text \<open>A commit of a copy whose revision is no longer the stored one.\<close>

lemma connect_commit_conflict:
  assumes "server_inv F s" and "Tunnel_Peer t (ca_Mode args) = Some p"
    and "tunnel_at (sv_store s) (t_ID t) = Some d" and "t_Rev d \<noteq> t_Rev t"
    and "TunnelConnect_add svc rnd now args s = (Inr cid, s1)"
  shows "connect_commit svc rnd now args t s =
    (Return (Inl (refuse StatusInternalServerError ''failed to update Tunnel'')),
     s1\<lparr>sv_peers := (sv_peers s)[p := taken args cid (sv_peers s ! p)]\<rparr>)"
proof -
  note s1 = TunnelConnect_add_Inr [OF assms(1,5)]
  show ?thesis
    using assms(3,4) s1(1,2) unfolding connect_commit_def assms(5)
    by (simp add: TunnelConnect_update_cases [OF server_invD(1) [OF s1(5)] assms(2)] Let_def)
qed

lemma accepts_ok:
  assumes "accepts at args s t" and "server_inv F s"
  shows "tunnel_at (sv_store s) (t_ID t) = Some t"
    and "ca_AccessToken args = Tunnel_Token t (ca_Mode args)"
    and "\<exists>p. Tunnel_Peer t (ca_Mode args) = Some p \<and> p < length (sv_peers s)"
    and "token_TunnelID (ca_AccessToken args) = t_ID t"
proof -
  have at: "tunnel_at (sv_store s) (token_TunnelID (ca_AccessToken args)) = Some t"
    using assms(1) unfolding accepts_def by blast
  then show i: "token_TunnelID (ca_AccessToken args) = t_ID t"
    using server_invD(4) [OF assms(2)] by simp
  with at show "tunnel_at (sv_store s) (t_ID t) = Some t" by simp
  show "ca_AccessToken args = Tunnel_Token t (ca_Mode args)"
    using assms(1) by (simp add: accepts_def)
  show "\<exists>p. Tunnel_Peer t (ca_Mode args) = Some p \<and> p < length (sv_peers s)"
    using assms(1) server_invD(2) [OF assms(2) at]
    by (auto simp: accepts_def tunnel_ok_def Tunnel_Peer_def split: if_splits)
qed

lemma Tunnel_Token_rev [simp]:
  "Tunnel_Token (t\<lparr>t_Rev := r\<rparr>) m = Tunnel_Token t m" "Tunnel_Peer (t\<lparr>t_Rev := r\<rparr>) m = Tunnel_Peer t m"
  by (simp_all add: Tunnel_Token_def Tunnel_Peer_def)

lemma taken_sel [simp]:
  "p_ConnectionID (taken args cid p) = cid" "p_ClientToken (taken args cid p) = ca_ClientToken args"
  "p_NumOfConn (taken args cid p) = p_NumOfConn p + 1"
  by (simp_all add: taken_def)

text \<open>What a request meets that comes after a commit, with the same token and mode.\<close>

lemma verify_after_commit:
  assumes inv: "server_inv F s" and acc: "accepts at args s t"
    and commit: "connect_commit svc rnd now args t s = (Return (Inr cid), s')"
    and req: "ca_Mode req = ca_Mode args" "ca_AccessToken req = ca_AccessToken args"
  shows "TunnelConnect_verify at' req s' = Return
     (if ca_ClientToken req \<noteq> ca_ClientToken args then
        Inl (refuse StatusBadRequest ''invalid client-token'')
      else if t_LifetimeAt t < at' then Inl (refuse StatusBadRequest StatusReasonTunnelClosed)
      else Inr (t\<lparr>t_Rev := t_Rev t + 1\<rparr>))"
proof -
  note acc' = accepts_ok [OF acc inv]
  obtain p where p: "Tunnel_Peer t (ca_Mode args) = Some p" "p < length (sv_peers s)"
    using acc'(3) by blast
  have inv': "server_inv (insert t F) s" by (rule server_inv_read [OF inv acc'(1)])
  note c = connect_commit_Inr [OF inv' insertI1 p(1) commit]
  have "0 \<le> p_NumOfConn (sv_peers s ! p)"
    using server_invD(5) [OF inv] p(2) by simp
  then show ?thesis
    using acc'(2,4) c(2,3) p req
    by (simp add: TunnelConnect_verify_def GetTunnel_def table_getWithKey_def deref_def)
qed

section \<open>Properties\<close>

text \<open>
  A connection binds its client token.  Once a connection of a mode is
  committed, a further request with the same access token and mode is refused with ``invalid
  client-token'' when its client token differs, and otherwise is accepted exactly until the
  lifetime of the tunnel ends: a client can reconnect, nobody else can take its place.
\<close>

theorem client_token_is_bound:
  assumes "server_inv F s" and "TunnelConnect_verify at args s = Return (Inr t)"
    and "connect_commit svc rnd now args t s = (Return (Inr cid), s')"
    and "ca_Mode req = ca_Mode args" and "ca_AccessToken req = ca_AccessToken args"
  shows "TunnelConnect_verify at' req s' = Return
     (if ca_ClientToken req \<noteq> ca_ClientToken args then
        Inl (refuse StatusBadRequest ''invalid client-token'')
      else if t_LifetimeAt t < at' then Inl (refuse StatusBadRequest StatusReasonTunnelClosed)
      else Inr (t\<lparr>t_Rev := t_Rev t + 1\<rparr>))"
  by (rule verify_after_commit [OF assms(1) _ assms(3-5)])
    (use assms(2) in \<open>simp add: TunnelConnect_verify_Inr\<close>)

definition sample_args :: "string \<Rightarrow> TunnelConnectArgs" where
  "sample_args client = connect_args ModeSource [SubProtocolV2] ''a_b'' client"

definition sample_connected :: server where
  "sample_connected =
     snd (connect_commit sample_svc sample_rnd 0 (sample_args ''me'') (sample_opened 1) (sample_server 1))"

lemma sample_accepts: "accepts 0 (sample_args client) (sample_server 1) (sample_opened 1)"
proof -
  have "(0 :: int) \<le> add_minutes 0 1"
    by (simp add: add_minutes_exact max_minutes_def)
  then show ?thesis
    unfolding accepts_def sample_server_tunnel
    by (simp add: sample_args_def token_TunnelID_def separator_def sample_opened_def sample_server_def
        zero_Peer_def)
qed

lemma sample_commit:
  "connect_commit sample_svc sample_rnd 0 (sample_args ''me'') (sample_opened 1) (sample_server 1) =
    (Return (Inr ''a_d''), sample_connected)"
proof -
  have id: "NewConnectionID (svc_IDTokenGen sample_svc) sample_rnd 3 ''a'' = (Inr ''a_d'', 4)"
    by (simp add: NewConnectionID_def rand_Int_def availableChars_def separator_def sample_svc_def
        sample_rnd_def)
  have tok: "token_TunnelID (ca_AccessToken (sample_args ''me'')) = ''a''"
    by (simp add: sample_args_def token_TunnelID_def separator_def)
  have st: "store_inv (sv_store (sample_server 1))"
    using server_invD(1) [OF sample_server_inv] by simp
  let ?c = "new_connection sample_svc 0 (sample_args ''me'') ''a_d''"
  have "connection_at (sv_store (sample_server 1)) = Map.empty"
    by (simp add: sample_server_def) (simp add: MemoryStore_Init_def empty_table_def)
  then have add: "fst (AddConnection ?c (sv_store (sample_server 1))) = None"
    using connections.add_fresh [OF st, of ?c] by simp
  obtain st where c: "AddConnection ?c (sv_store (sample_server 1)) = (None, st)"
    using add by (metis prod.collapse)
  have pos: "sv_pos (sample_server 1) = 3" by (simp add: sample_server_def)
  obtain s1 where s1: "TunnelConnect_add sample_svc sample_rnd 0 (sample_args ''me'') (sample_server 1)
      = (Inr ''a_d'', s1)"
    by (simp add: TunnelConnect_add_def tok Let_def id c pos)
  note s1' = TunnelConnect_add_Inr [OF sample_server_inv [of 1] s1]
  have p: "Tunnel_Peer (sample_opened 1) (ca_Mode (sample_args ''me'')) = Some 0"
    by (simp add: sample_args_def sample_opened_def)
  have "t_ID (sample_opened 1) = ''a''" by (simp add: sample_opened_def)
  then have "fst (TunnelConnect_update (sample_args ''me'') (sample_opened 1) ''a_d'' s1) = Return None"
    using s1'(2,5)
    by (simp add: TunnelConnect_update_cases [OF server_invD(1) [OF s1'(5)] p] Let_def)
  then have "fst (connect_commit sample_svc sample_rnd 0 (sample_args ''me'') (sample_opened 1)
      (sample_server 1)) = Return (Inr ''a_d'')"
    by (auto simp: connect_commit_def s1 split: prod.splits)
  then show ?thesis by (simp add: sample_connected_def prod_eq_iff)
qed

theorem client_token_is_bound_witness:
  "TunnelConnect_verify 0 (sample_args ''other'') sample_connected =
     Return (Inl (refuse StatusBadRequest ''invalid client-token''))"
  using client_token_is_bound
    [OF sample_server_inv [of 1] sample_accepts [folded TunnelConnect_verify_Inr] sample_commit,
      of "sample_args ''other''" 0]
  by (simp add: sample_args_def)

text \<open>
  C33 (safety): of two connections that race, one loses, and leaves its traces.  When two requests
  were both let through on the same stored tunnel (two of one mode, or one of each) and the first
  commits, the second is answered 500 and does not change the tunnel table; yet its connection
  record stays stored as CONNECTED, and the shared peer of its mode now names its connection and
  its client token and counts it, because the peer is changed through the pointer before
  \<^verbatim>\<open>UpdateTunnel\<close> is tried.
\<close>

theorem racing_connect_loses_with_traces:
  assumes "server_inv F s"
    and "TunnelConnect_verify at1 args1 s = Return (Inr t)"
    and "TunnelConnect_verify at2 args2 s = Return (Inr t)"
    and "connect_commit svc rnd now1 args1 t s = (Return (Inr cid1), s1)"
    and "TunnelConnect_add svc rnd2 now2 args2 s1 = (Inr cid2, s2)"
    and "connect_commit svc rnd2 now2 args2 t s1 = (out, s3)"
    and "Tunnel_Peer t (ca_Mode args2) = Some q"
  shows "out = Return (Inl (refuse StatusInternalServerError ''failed to update Tunnel'')) \<and>
    tunnel_at (sv_store s3) = tunnel_at (sv_store s1) \<and>
    connection_at (sv_store s3) cid2 = Some (new_connection svc now2 args2 cid2) \<and>
    sv_peers s3 ! q = taken args2 cid2 (sv_peers s1 ! q)"
proof -
  note a1 = accepts_ok [OF assms(2) [unfolded TunnelConnect_verify_Inr] assms(1)]
  obtain p where p: "Tunnel_Peer t (ca_Mode args1) = Some p" using a1(3) by blast
  have inv: "server_inv (insert t F) s" by (rule server_inv_read [OF assms(1) a1(1)])
  note c1 = connect_commit_Inr [OF inv insertI1 p assms(4)]
  have inv1: "server_inv (insert t F) s1"
    by (rule connect_commit_inv [OF inv insertI1 p assms(4)])
  have d: "tunnel_at (sv_store s1) (t_ID t) = Some (t\<lparr>t_Rev := t_Rev t + 1\<rparr>)"
    using c1(2) by simp
  note s2 = TunnelConnect_add_Inr [OF inv1 assms(5)]
  have "q < length (sv_peers s1)"
    using accepts_ok(3) [OF assms(3) [unfolded TunnelConnect_verify_Inr] assms(1)] assms(7) c1(3)
    by simp
  then show ?thesis
    using connect_commit_conflict [OF inv1 assms(7) d _ assms(5)] assms(6) s2(2,4) by simp
qed

lemma sample_race:
  "\<exists>s2. TunnelConnect_add sample_svc (\<lambda>_. Inr 15) 0 (sample_args client) sample_connected =
    (Inr ''a_f'', s2)"
  "server_inv {} sample_connected"
proof -
  have inv: "server_inv {sample_opened 1} (sample_server 1)"
    using server_inv_read [OF sample_server_inv, of 1 "''a''" "sample_opened 1"] by simp
  have p: "Tunnel_Peer (sample_opened 1) (ca_Mode (sample_args ''me'')) = Some 0"
    by (simp add: sample_args_def sample_opened_def)
  have "server_inv {sample_opened 1} sample_connected"
    by (rule connect_commit_inv [OF inv _ p sample_commit]) simp
  then show inv1: "server_inv {} sample_connected"
    using server_inv_subset by blast
  have "connection_at (sv_store (sample_server 1)) = Map.empty"
    by (simp add: sample_server_def) (simp add: MemoryStore_Init_def empty_table_def)
  then have "connection_at (sv_store sample_connected) ''a_f'' = None"
    using connect_commit_Inr(4) [OF inv _ p sample_commit] by simp
  then obtain st where st: "AddConnection
      (new_connection sample_svc 0 (sample_args client) ''a_f'') (sv_store sample_connected) =
      (None, st)"
    using connections.add_fresh [OF server_invD(1) [OF inv1]]
    by (metis new_connection_sel(1) prod.collapse)
  have tok: "token_TunnelID (ca_AccessToken (sample_args client)) = ''a''"
    by (simp add: sample_args_def token_TunnelID_def separator_def)
  have "NewConnectionID (svc_IDTokenGen sample_svc) (\<lambda>_. Inr 15) n ''a'' = (Inr ''a_f'', Suc n)" for n
    by (simp add: NewConnectionID_def rand_Int_def availableChars_def separator_def sample_svc_def)
  then show "\<exists>s2. TunnelConnect_add sample_svc (\<lambda>_. Inr 15) 0 (sample_args client)
      sample_connected = (Inr ''a_f'', s2)"
    by (simp add: TunnelConnect_add_def tok st)
qed

theorem racing_connect_loses_with_traces_witness:
  "fst (connect_commit sample_svc (\<lambda>_. Inr 15) 0 (sample_args ''other'') (sample_opened 1)
      sample_connected) =
    Return (Inl (refuse StatusInternalServerError ''failed to update Tunnel''))"
proof -
  obtain s2 where s2: "TunnelConnect_add sample_svc (\<lambda>_. Inr 15) 0 (sample_args ''other'')
      sample_connected = (Inr ''a_f'', s2)"
    using sample_race by blast
  have "Tunnel_Peer (sample_opened 1) (ca_Mode (sample_args ''other'')) = Some 0"
    by (simp add: sample_args_def sample_opened_def)
  with racing_connect_loses_with_traces [OF sample_server_inv
      sample_accepts [folded TunnelConnect_verify_Inr] sample_accepts [folded TunnelConnect_verify_Inr]
      sample_commit s2 prod.collapse [symmetric]]
  show ?thesis by simp
qed

text \<open>
  C34 (safety): the loser of a race locks the winner out.  When the two requests of the previous
  property have the same mode and different client tokens, the winner's own client token is
  refused afterwards, at any time: the client whose connection was committed cannot reconnect,
  and the one that was refused can.
\<close>

theorem racing_connect_locks_winner_out:
  assumes "server_inv F s"
    and "TunnelConnect_verify at1 args1 s = Return (Inr t)"
    and "TunnelConnect_verify at2 args2 s = Return (Inr t)"
    and "connect_commit svc rnd now1 args1 t s = (Return (Inr cid1), s1)"
    and "TunnelConnect_add svc rnd2 now2 args2 s1 = (Inr cid2, s2)"
    and "connect_commit svc rnd2 now2 args2 t s1 = (out, s3)"
    and "ca_Mode args2 = ca_Mode args1" and "ca_ClientToken args2 \<noteq> ca_ClientToken args1"
  shows "TunnelConnect_verify later args1 s3 =
      Return (Inl (refuse StatusBadRequest ''invalid client-token'')) \<and>
    (later \<le> t_LifetimeAt t \<longrightarrow>
      TunnelConnect_verify later args2 s3 = Return (Inr (t\<lparr>t_Rev := t_Rev t + 1\<rparr>)))"
proof -
  note a1 = accepts_ok [OF assms(2) [unfolded TunnelConnect_verify_Inr] assms(1)]
  note a2 = accepts_ok [OF assms(3) [unfolded TunnelConnect_verify_Inr] assms(1)]
  obtain p where p: "Tunnel_Peer t (ca_Mode args1) = Some p" "p < length (sv_peers s)"
    using a1(3) by blast
  have inv: "server_inv (insert t F) s" by (rule server_inv_read [OF assms(1) a1(1)])
  note c1 = connect_commit_Inr [OF inv insertI1 p(1) assms(4)]
  have d: "tunnel_at (sv_store s1) (t_ID t) = Some (t\<lparr>t_Rev := t_Rev t + 1\<rparr>)"
    using c1(2) by simp
  have p2: "Tunnel_Peer t (ca_Mode args2) = Some p" using p assms(7) by simp
  have inv1: "server_inv {} s1"
    using connect_commit_inv [OF inv insertI1 p(1) assms(4)] server_inv_subset by blast
  note s2 = TunnelConnect_add_Inr [OF inv1 assms(5)]
  have s3: "tunnel_at (sv_store s3) (t_ID t) = Some (t\<lparr>t_Rev := t_Rev t + 1\<rparr>)"
    "sv_peers s3 ! p = taken args2 cid2 (taken args1 cid1 (sv_peers s ! p))"
    using connect_commit_conflict [OF inv1 p2 d _ assms(5)] assms(6) s2(2) d p(2) c1(3) by simp_all
  have "0 \<le> p_NumOfConn (sv_peers s ! p)"
    using server_invD(5) [OF assms(1)] p(2) by simp
  then show ?thesis
    using s3 a1(2,4) a2(2,4) p p2 assms(7,8)
    by (simp add: TunnelConnect_verify_def GetTunnel_def table_getWithKey_def deref_def)
qed

theorem racing_connect_locks_winner_out_witness:
  "TunnelConnect_verify 0 (sample_args ''me'')
      (snd (connect_commit sample_svc (\<lambda>_. Inr 15) 0 (sample_args ''other'') (sample_opened 1)
        sample_connected)) =
    Return (Inl (refuse StatusBadRequest ''invalid client-token''))"
proof -
  obtain s2 where s2: "TunnelConnect_add sample_svc (\<lambda>_. Inr 15) 0 (sample_args ''other'')
      sample_connected = (Inr ''a_f'', s2)"
    using sample_race by blast
  show ?thesis
    using racing_connect_locks_winner_out [OF sample_server_inv
        sample_accepts [folded TunnelConnect_verify_Inr] sample_accepts [folded TunnelConnect_verify_Inr]
        sample_commit s2 prod.collapse [symmetric], where later = 0]
    by (simp add: sample_args_def)
qed

text \<open>
  C22 (functional): closing a tunnel.  \<^verbatim>\<open>CloseTunnel\<close> of a stored tunnel answers 200, touches no
  other tunnel, ends the lifetime of this one (or removes it when deletion was asked for), and
  from the next instant on every connection request that carries a token of the tunnel, of either
  mode, is refused with status 400.
\<close>

theorem closed_tunnel_refuses:
  assumes "server_inv F s" and "tunnel_at (sv_store s) (cr_TunnelID args) = Some t"
    and "CloseTunnel now args s = (r, s')"
    and "token_TunnelID (ca_AccessToken req) = cr_TunnelID args"
    and "ca_Mode req = ModeSource \<or> ca_Mode req = ModeDestination" and "now < at"
  shows "r = json StatusOK CloseBody \<and>
    (\<forall>j. j \<noteq> cr_TunnelID args \<longrightarrow> tunnel_at (sv_store s') j = tunnel_at (sv_store s) j) \<and>
    map_option t_LifetimeAt (tunnel_at (sv_store s') (cr_TunnelID args)) =
      (if cr_Delete args then None else Some now) \<and>
    (\<exists>e. TunnelConnect_verify at req s' = Return (Inl e) \<and> code e = StatusBadRequest)"
proof -
  note st = server_invD(1) [OF assms(1)] and id = server_invD(4) [OF assms(1,2)]
  have get: "CloseTunnel_get args s = Inr t"
    using assms(2) by (simp add: CloseTunnel_get_Inr)
  obtain s1 where upd: "CloseTunnel_update now t s = (None, s1)"
    and s1: "s1 = s\<lparr>sv_store := set_tunnel
      (Some (t\<lparr>t_LifetimeAt := now, t_LastUpdatedAt := now, t_Rev := t_Rev t + 1\<rparr>))
      (cr_TunnelID args) (sv_store s)\<rparr>"
    using assms(2) id by (auto simp: CloseTunnel_update_def UpdateTunnel_cases [OF st])
  have inv: "server_inv F s'" and s': "r = json StatusOK CloseBody"
    "tunnel_at (sv_store s') = (tunnel_at (sv_store s))(cr_TunnelID args :=
       (if cr_Delete args then None
        else Some (t\<lparr>t_LifetimeAt := now, t_LastUpdatedAt := now, t_Rev := t_Rev t + 1\<rparr>)))"
    using CloseTunnel_delete_inv [of F s1 args r s']
      CloseTunnel_update_inv [OF server_inv_read [OF assms(1,2)] insertI1 upd]
      assms(3) get upd s1 server_inv_subset [of "insert t F" s1 F]
    by (auto simp: CloseTunnel_def CloseTunnel_delete_def DeleteTunnel_set split: if_splits)
  obtain x where x: "TunnelConnect_verify at req s' = Return x"
    using TunnelConnect_verify_returns [OF inv assms(5)] by blast
  have "\<not> accepts at req s' u" for u
    using assms(4,6) s'(2) by (auto simp: accepts_def)
  then obtain e where "x = Inl e"
    using x TunnelConnect_verify_Inr by (cases x) blast+
  then show ?thesis
    using s' x TunnelConnect_verify_Inl by simp
qed

theorem closed_tunnel_refuses_witness:
  "fst (CloseTunnel 5 \<lparr>cr_Delete = False, cr_TunnelID = ''a''\<rparr> sample_connected) =
     json StatusOK CloseBody"
proof -
  let ?req = "connect_args ModeSource [] ''a_b'' ''me''"
  have "tunnel_at (sv_store sample_connected) ''a'' = Some (sample_opened 1\<lparr>t_Rev := 2\<rparr>)"
    using connect_commit_Inr(2) [OF server_inv_read [OF sample_server_inv [of 1], of "''a''"] _ _
        sample_commit, of "sample_opened 1" 0]
    by (simp add: sample_args_def) (simp add: sample_opened_def)
  then have t: "tunnel_at (sv_store sample_connected)
      (cr_TunnelID \<lparr>cr_Delete = False, cr_TunnelID = ''a''\<rparr>) = Some (sample_opened 1\<lparr>t_Rev := 2\<rparr>)"
    by simp
  have "token_TunnelID (ca_AccessToken ?req) =
      cr_TunnelID \<lparr>cr_Delete = False, cr_TunnelID = ''a''\<rparr>"
    by (simp add: token_TunnelID_def separator_def)
  from closed_tunnel_refuses [OF sample_race(2) t prod.collapse [symmetric] this, of 5 6]
  show ?thesis by simp
qed

text \<open>The state that a describe response shows of one mode.\<close>

definition shown_state :: "string \<Rightarrow> DescribeTunnelResponse \<Rightarrow> DescribeTunnelConnectionState" where
  "shown_state mode d = (if mode = ModeDestination then dtr_DstConnState d else dtr_SrcConnState d)"

lemma DescribeTunnel_shown:
  assumes "server_inv F s" and "tunnel_at (sv_store s) i = Some t"
  shows "\<exists>d. DescribeTunnel now i s = Return (json StatusOK (DescribeBody d)) \<and>
    (\<forall>m p. Tunnel_Peer t m = Some p \<longrightarrow>
       shown_state m d = conn_state (p_ConnectionID (sv_peers s ! p)) s) \<and>
    dtr_Status d = Tunnel_Status now t"
  using assms(2) server_invD(2) [OF assms]
  by (auto simp: DescribeTunnel_def GetTunnel_def table_getWithKey_def deref_def tunnel_ok_def
      shown_state_def Tunnel_Peer_def split: if_splits)

lemma TunnelConnect_disconnect_at:
  assumes "server_inv F s" and "connection_at (sv_store s) cid = Some c"
  shows "sv_peers (TunnelConnect_disconnect now cid s) = sv_peers s"
    and "tunnel_at (sv_store (TunnelConnect_disconnect now cid s)) = tunnel_at (sv_store s)"
    and "connection_at (sv_store (TunnelConnect_disconnect now cid s)) =
      (connection_at (sv_store s))(cid \<mapsto> c\<lparr>c_Status := ConnStatusDisconnected,
         c_LastUpdatedAt := now, c_Rev := c_Rev c + 1\<rparr>)"
proof -
  note st = server_invD(1) [OF assms(1)]
  have id: "c_ID c = cid" using connections.get_key [OF st assms(2)] .
  let ?c = "c\<lparr>c_Status := ConnStatusDisconnected, c_LastUpdatedAt := now\<rparr>"
  have "connection_at (snd (UpdateConnection ?c (sv_store s))) =
      (connection_at (sv_store s))(cid \<mapsto> ?c\<lparr>c_Rev := c_Rev c + 1\<rparr>)"
    using connections.upd_current [OF st, of ?c c] assms(2) id by simp
  then show "sv_peers (TunnelConnect_disconnect now cid s) = sv_peers s"
    "tunnel_at (sv_store (TunnelConnect_disconnect now cid s)) = tunnel_at (sv_store s)"
    "connection_at (sv_store (TunnelConnect_disconnect now cid s)) =
      (connection_at (sv_store s))(cid \<mapsto> c\<lparr>c_Status := ConnStatusDisconnected,
         c_LastUpdatedAt := now, c_Rev := c_Rev c + 1\<rparr>)"
    using assms(2) by (simp_all add: TunnelConnect_disconnect_def GetConnection_def table_getWithKey_def)
qed

text \<open>
  The reported connection state follows the connection.  After a request is
  committed, \<^verbatim>\<open>DescribeTunnel\<close> shows the mode of the request as CONNECTED since the request
  began; after the handler's deferred function ran, as DISCONNECTED since then.
\<close>

theorem describe_follows_connection:
  assumes "server_inv F s" and "TunnelConnect_verify at args s = Return (Inr t)"
    and "connect_commit svc rnd now args t s = (Return (Inr cid), s')"
  shows "(\<exists>d. DescribeTunnel later (t_ID t) s' = Return (json StatusOK (DescribeBody d)) \<and>
       shown_state (ca_Mode args) d =
         \<lparr>dcs_Status = ConnStatusConnected, dcs_LastUpdatedAt = now\<rparr>) \<and>
    (\<exists>d. DescribeTunnel later (t_ID t) (TunnelConnect_disconnect end cid s') =
         Return (json StatusOK (DescribeBody d)) \<and>
       shown_state (ca_Mode args) d =
         \<lparr>dcs_Status = ConnStatusDisconnected, dcs_LastUpdatedAt = end\<rparr>)"
proof -
  note a = accepts_ok [OF assms(2) [unfolded TunnelConnect_verify_Inr] assms(1)]
  obtain p where p: "Tunnel_Peer t (ca_Mode args) = Some p" "p < length (sv_peers s)"
    using a(3) by blast
  have inv: "server_inv (insert t F) s" by (rule server_inv_read [OF assms(1) a(1)])
  note c = connect_commit_Inr [OF inv insertI1 p(1) assms(3)]
  have inv': "server_inv (insert t F) s'"
    by (rule connect_commit_inv [OF inv insertI1 p(1) assms(3)])
  have t': "tunnel_at (sv_store s') (t_ID t) = Some (t\<lparr>t_Rev := t_Rev t + 1\<rparr>)"
    using c(2) by simp
  have cid: "connection_at (sv_store s') cid = Some (new_connection svc now args cid)"
    using c(4) by simp
  have peer: "p_ConnectionID (sv_peers s' ! p) = cid" using c(3) p(2) by simp
  note dis = TunnelConnect_disconnect_at [OF inv' cid]
  have "tunnel_at (sv_store (TunnelConnect_disconnect end cid s')) (t_ID t) =
      Some (t\<lparr>t_Rev := t_Rev t + 1\<rparr>)"
    using dis(2) t' by simp
  from DescribeTunnel_shown [OF TunnelConnect_disconnect_inv [OF inv'] this]
    DescribeTunnel_shown [OF inv' t']
  show ?thesis
    using p(1) peer cid dis
    by (fastforce simp: conn_state_def GetConnection_def table_getWithKey_def)
qed

theorem describe_follows_connection_witness:
  "\<exists>d. DescribeTunnel 9 ''a'' (TunnelConnect_disconnect 8 ''a_d'' sample_connected) =
       Return (json StatusOK (DescribeBody d)) \<and>
     shown_state ModeSource d = \<lparr>dcs_Status = ConnStatusDisconnected, dcs_LastUpdatedAt = 8\<rparr>"
  using describe_follows_connection [OF sample_server_inv [of 1]
      sample_accepts [folded TunnelConnect_verify_Inr] sample_commit, of 9 8]
  by (simp add: sample_args_def) (simp add: sample_opened_def)

lemma debug_list_Inr:
  "debug_list corder s ts = Inr ds \<Longrightarrow> map dlt_Tunnel ds = ts \<and>
     (\<forall>d \<in> set ds. GetConnections corder (t_ID (dlt_Tunnel d)) (sv_store s) = Inr (dlt_Connections d))"
  by (induction ts arbitrary: ds) (auto split: sum.splits)

lemma debug_list_returns: "\<exists>ds. debug_list corder s ts = Inr ds"
  by (induction ts) (auto simp: GetConnections_def Let_def split: sum.splits)

text \<open>
  The debug listing.  In whatever order Go iterates the two maps, the answer
  holds every stored tunnel exactly once, in the order of the creation times, each with exactly
  the stored connections whose identifier belongs to it.
\<close>

theorem DebugListTunnels_complete:
  assumes "store_inv (sv_store s)" and "iteration_order (tunnelTable (sv_store s)) order"
    and "iteration_order (connectionTable (sv_store s)) corder"
    and "\<And>i. tunnel_at (sv_store s) i \<noteq> None \<Longrightarrow> i \<noteq> []"
  shows "\<exists>ds. DebugListTunnels order corder s = json StatusOK (DebugListBody ds) \<and>
    sorted (map (\<lambda>d. t_CreatedAt (dlt_Tunnel d)) ds) \<and>
    distinct (map (\<lambda>d. t_ID (dlt_Tunnel d)) ds) \<and>
    set (map dlt_Tunnel ds) = ran (tunnel_at (sv_store s)) \<and>
    (\<forall>d \<in> set ds. set (dlt_Connections d) =
       {c. connection_at (sv_store s) (c_ID c) = Some c \<and>
           token_TunnelID (c_ID c) = t_ID (dlt_Tunnel d)})"
proof -
  obtain ts where ts: "GetTunnels order (sv_store s) = Inr ts" "set ts = stored s"
    "length ts = card (dom (tunnel_at (sv_store s)))"
    using GetTunnels_set [OF assms(1,2)] by blast
  obtain ds where ds: "debug_list corder s ts = Inr ds"
    using debug_list_returns by blast
  note ds' = debug_list_Inr [OF ds]
  let ?f = "\<lambda>d. t_CreatedAt (dlt_Tunnel d)" and ?i = "\<lambda>d. t_ID (dlt_Tunnel d)"
  have id: "tunnel_at (sv_store s) i = Some t \<Longrightarrow> t_ID t = i" for i t
    using tunnels.get_key [OF assms(1)] by blast
  have "t_ID ` stored s = dom (tunnel_at (sv_store s))"
    by (auto simp: ran_def dom_def image_def) (metis id)+
  then have "distinct (map t_ID ts)"
    using ts(2,3) by (intro card_distinct) simp
  then have dist: "distinct (map ?i ds)"
    using ds' by (auto simp: comp_def)
  have "distinct (map ?i (sort_key ?f ds))" using dist by (simp add: distinct_map)
  moreover have "dlt_Tunnel ` set ds = stored s" using ds' ts(2) by (metis set_map)
  moreover have "set (dlt_Connections d) =
       {c. connection_at (sv_store s) (c_ID c) = Some c \<and> token_TunnelID (c_ID c) = ?i d}"
    if "d \<in> set ds" for d
  proof -
    have "dlt_Tunnel d \<in> stored s" using that ds' ts(2) by (metis imageI set_map)
    then have "?i d \<noteq> []" using assms(4) id by (fastforce simp: ran_def)
    then show ?thesis
      using ds' that GetConnections_set [OF assms(1,3), of "?i d"] by fastforce
  qed
  ultimately show ?thesis
    using ts ds by (intro exI [of _ "sort_key ?f ds"]) (simp add: DebugListTunnels_def)
qed

theorem DebugListTunnels_complete_witness:
  "\<exists>ds. DebugListTunnels [''a''] [''a_1''] (server_init\<lparr>sv_store := sample_store\<rparr>) =
      json StatusOK (DebugListBody ds) \<and> set (map dlt_Tunnel ds) = {sample_tunnel}"
proof -
  let ?s = "server_init\<lparr>sv_store := sample_store\<rparr>"
  have "iteration_order (tunnelTable (sv_store ?s)) [''a'']"
    "iteration_order (connectionTable (sv_store ?s)) [''a_1'']"
    by (auto simp: iteration_order_def sample_store split: if_splits)
  from DebugListTunnels_complete [OF _ this]
  show ?thesis by (fastforce simp: sample_store split: if_splits)
qed

end
