(* ===== verification/Server_Machine.thy ===== *)
theory Server_Machine
  imports Tunnel_Lifecycle
begin

text \<open>
  The tunnel server under concurrent requests: a step relation that runs the pieces of the
  handlers of \<^verbatim>\<open>Services\<close> in any interleaving.  A handler in progress is a task that
  holds what its goroutine holds: its arguments and its own copy of the tunnel.  The clock, the
  random source and the notifier are free in every step.
\<close>

section \<open>Model\<close>

datatype handler_task =
    Opened Tunnel                                  \<comment> \<open>stored, not yet notified\<close>
  | Closing CloseTunnelRequest Tunnel              \<comment> \<open>has read the tunnel\<close>
  | ClosedTask CloseTunnelRequest                  \<comment> \<open>has updated it\<close>
  | Verified TunnelConnectArgs Tunnel              \<comment> \<open>let through\<close>
  | Added TunnelConnectArgs Tunnel string          \<comment> \<open>connection record stored\<close>
  | Connected string                               \<comment> \<open>tunnel updated, session runs\<close>

record machine =
  m_server :: server
  m_tasks :: "handler_task list"

inductive server_step :: "Services \<Rightarrow> machine \<Rightarrow> machine \<Rightarrow> bool" for svc :: Services where
  open_refused:
    "OpenTunnel_add svc rnd now req (m_server m) = (Inl r, s) \<Longrightarrow>
       server_step svc m (m\<lparr>m_server := s\<rparr>)"
| open_stored:
    "OpenTunnel_add svc rnd now req (m_server m) = (Inr t, s) \<Longrightarrow>
       server_step svc m (m\<lparr>m_server := s, m_tasks := Opened t # m_tasks m\<rparr>)"
| open_notified:
    "Opened t \<in> set (m_tasks m) \<Longrightarrow> OpenTunnel_notify notify t (m_server m) = (r, s) \<Longrightarrow>
       server_step svc m (m\<lparr>m_server := s, m_tasks := remove1 (Opened t) (m_tasks m)\<rparr>)"
| close_read:
    "CloseTunnel_get creq (m_server m) = Inr t \<Longrightarrow>
       server_step svc m (m\<lparr>m_tasks := Closing creq t # m_tasks m\<rparr>)"
| close_conflict:
    "Closing creq t \<in> set (m_tasks m) \<Longrightarrow> CloseTunnel_update now t (m_server m) = (Some r, s) \<Longrightarrow>
       server_step svc m (m\<lparr>m_server := s, m_tasks := remove1 (Closing creq t) (m_tasks m)\<rparr>)"
| close_updated:
    "Closing creq t \<in> set (m_tasks m) \<Longrightarrow> CloseTunnel_update now t (m_server m) = (None, s) \<Longrightarrow>
       server_step svc m (m\<lparr>m_server := s,
         m_tasks := ClosedTask creq # remove1 (Closing creq t) (m_tasks m)\<rparr>)"
| close_finished:
    "ClosedTask creq \<in> set (m_tasks m) \<Longrightarrow> CloseTunnel_delete creq (m_server m) = (r, s) \<Longrightarrow>
       server_step svc m (m\<lparr>m_server := s, m_tasks := remove1 (ClosedTask creq) (m_tasks m)\<rparr>)"
| connect_verified:
    "TunnelConnectArgs_Validate args = None \<Longrightarrow>
       TunnelConnect_verify now args (m_server m) = Return (Inr t) \<Longrightarrow>
       server_step svc m (m\<lparr>m_tasks := Verified args t # m_tasks m\<rparr>)"
| connect_refused:
    "Verified args t \<in> set (m_tasks m) \<Longrightarrow>
       TunnelConnect_add svc rnd now args (m_server m) = (Inl r, s) \<Longrightarrow>
       server_step svc m (m\<lparr>m_server := s, m_tasks := remove1 (Verified args t) (m_tasks m)\<rparr>)"
| connect_added:
    "Verified args t \<in> set (m_tasks m) \<Longrightarrow>
       TunnelConnect_add svc rnd now args (m_server m) = (Inr cid, s) \<Longrightarrow>
       server_step svc m (m\<lparr>m_server := s,
         m_tasks := Added args t cid # remove1 (Verified args t) (m_tasks m)\<rparr>)"
| connect_conflict:
    "Added args t cid \<in> set (m_tasks m) \<Longrightarrow>
       TunnelConnect_update args t cid (m_server m) = (Return (Some r), s) \<Longrightarrow>
       server_step svc m (m\<lparr>m_server := s, m_tasks := remove1 (Added args t cid) (m_tasks m)\<rparr>)"
| connect_updated:
    "Added args t cid \<in> set (m_tasks m) \<Longrightarrow>
       TunnelConnect_update args t cid (m_server m) = (Return None, s) \<Longrightarrow>
       server_step svc m (m\<lparr>m_server := s,
         m_tasks := Connected cid # remove1 (Added args t cid) (m_tasks m)\<rparr>)"
| disconnected:
    "Connected cid \<in> set (m_tasks m) \<Longrightarrow>
       server_step svc m (m\<lparr>m_server := TunnelConnect_disconnect now cid (m_server m),
         m_tasks := remove1 (Connected cid) (m_tasks m)\<rparr>)"

definition machine_init :: "machine \<Rightarrow> bool" where
  "machine_init m \<longleftrightarrow> m = \<lparr>m_server = server_init, m_tasks = []\<rparr>"

section \<open>Invariant\<close>

fun task_tunnels :: "handler_task \<Rightarrow> Tunnel set" where
  "task_tunnels (Opened t) = {t}"
| "task_tunnels (Closing req t) = {t}"
| "task_tunnels (ClosedTask req) = {}"
| "task_tunnels (Verified args t) = {t}"
| "task_tunnels (Added args t cid) = {t}"
| "task_tunnels (Connected cid) = {}"

fun task_mode_ok :: "handler_task \<Rightarrow> bool" where
  "task_mode_ok (Verified args t) \<longleftrightarrow> ca_Mode args = ModeSource \<or> ca_Mode args = ModeDestination"
| "task_mode_ok (Added args t cid) \<longleftrightarrow> ca_Mode args = ModeSource \<or> ca_Mode args = ModeDestination"
| "task_mode_ok _ \<longleftrightarrow> True"

definition held :: "handler_task list \<Rightarrow> Tunnel set" where
  "held ts = (\<Union>k \<in> set ts. task_tunnels k)"

definition machine_inv :: "machine \<Rightarrow> bool" where
  "machine_inv m \<longleftrightarrow> server_inv (held (m_tasks m)) (m_server m) \<and> (\<forall>k \<in> set (m_tasks m). task_mode_ok k)"

lemma held_simps [simp]: "held [] = {}" "held (k # ts) = task_tunnels k \<union> held ts"
  by (auto simp: held_def)

lemma held_remove1: "held (remove1 k ts) \<subseteq> held ts"
  using set_remove1_subset [of k ts] by (auto simp: held_def)

lemma held_mem: "k \<in> set ts \<Longrightarrow> task_tunnels k \<subseteq> held ts"
  by (auto simp: held_def)

lemma mode_ok_remove1: "\<forall>k \<in> set ts. task_mode_ok k \<Longrightarrow> \<forall>k \<in> set (remove1 j ts). task_mode_ok k"
  using set_remove1_subset by fastforce

lemma Validate_mode:
  "TunnelConnectArgs_Validate args = None \<Longrightarrow> ca_Mode args = ModeSource \<or> ca_Mode args = ModeDestination"
  by (auto simp: TunnelConnectArgs_Validate_def split: if_splits)

text \<open>Dropping a finished task, and replacing it by one that holds nothing new.\<close>

lemma machine_inv_drop:
  assumes "machine_inv m" and "server_inv (held (m_tasks m)) s"
  shows "machine_inv (m\<lparr>m_server := s, m_tasks := remove1 k (m_tasks m)\<rparr>)"
  using assms server_inv_subset [OF assms(2) held_remove1] mode_ok_remove1
  by (auto simp: machine_inv_def)

lemma machine_inv_next:
  assumes "machine_inv m" and "server_inv (held (m_tasks m)) s" and "k \<in> set (m_tasks m)"
    and "task_tunnels j \<subseteq> task_tunnels k" and "task_mode_ok j"
  shows "machine_inv (m\<lparr>m_server := s, m_tasks := j # remove1 k (m_tasks m)\<rparr>)"
proof -
  have "held (j # remove1 k (m_tasks m)) \<subseteq> held (m_tasks m)"
    using held_remove1 [of k "m_tasks m"] held_mem [OF assms(3)] assms(4) by auto
  then show ?thesis
    using assms server_inv_subset [OF assms(2)] mode_ok_remove1
    by (auto simp: machine_inv_def)
qed

lemma server_step_inv:
  assumes "server_step svc m m'" and "machine_inv m"
  shows "machine_inv m'"
proof -
  have inv: "server_inv (held (m_tasks m)) (m_server m)"
    using assms(2) by (simp add: machine_inv_def)
  show ?thesis
    using assms(1)
  proof cases
    case (open_refused rnd now req r s)
    then show ?thesis
      using assms(2) OpenTunnel_add_inv [of "held (m_tasks m)" "m_server m" svc rnd now req "Inl r" s]
      by (simp add: machine_inv_def)
  next
    case (open_stored rnd now req t s)
    then show ?thesis
      using assms(2) OpenTunnel_add_inv [of "held (m_tasks m)" "m_server m" svc rnd now req "Inr t" s]
      by (simp add: machine_inv_def)
  next
    case (open_notified t notify r s)
    then show ?thesis
      using OpenTunnel_notify_inv [OF inv open_notified(3)] machine_inv_drop [OF assms(2)] by simp
  next
    case (close_read creq t)
    then show ?thesis
      using assms(2) server_inv_read by (auto simp: machine_inv_def CloseTunnel_get_Inr)
  next
    case (close_conflict creq t now r s)
    then have "t \<in> held (m_tasks m)" using held_mem by fastforce
    then have "server_inv (held (m_tasks m)) s"
      using close_conflict(3) assms(2) CloseTunnel_update_inv by (auto simp: machine_inv_def)
    then show ?thesis unfolding close_conflict(1) by (rule machine_inv_drop [OF assms(2)])
  next
    case (close_updated creq t now s)
    then have "t \<in> held (m_tasks m)" using held_mem by fastforce
    then have "server_inv (held (m_tasks m)) s"
      using close_updated(3) assms(2) CloseTunnel_update_inv by (auto simp: machine_inv_def)
    then show ?thesis
      unfolding close_updated(1) using close_updated(2) by (rule machine_inv_next [OF assms(2)]) simp_all
  next
    case (close_finished creq r s)
    then show ?thesis
      using CloseTunnel_delete_inv [OF inv close_finished(3)] machine_inv_drop [OF assms(2)] by simp
  next
    case (connect_verified args now t)
    then show ?thesis
      using assms(2) server_inv_read Validate_mode
      by (auto simp: machine_inv_def TunnelConnect_verify_Inr accepts_def)
  next
    case (connect_refused args t rnd now r s)
    then show ?thesis
      using TunnelConnect_add_inv [OF inv connect_refused(3)] machine_inv_drop [OF assms(2)] by simp
  next
    case (connect_added args t rnd now cid s)
    have "server_inv (held (m_tasks m)) s"
      using connect_added(3) assms(2) TunnelConnect_add_inv by (auto simp: machine_inv_def)
    moreover have "task_mode_ok (Added args t cid)"
      using connect_added(2) assms(2) by (fastforce simp: machine_inv_def)
    ultimately show ?thesis
      unfolding connect_added(1) using connect_added(2) by (intro machine_inv_next [OF assms(2)]) simp_all
  next
    case (connect_conflict args t cid r s)
    then have "t \<in> held (m_tasks m)" using held_mem by fastforce
    moreover have "task_mode_ok (Added args t cid)"
      using connect_conflict(2) assms(2) by (fastforce simp: machine_inv_def)
    ultimately have "server_inv (held (m_tasks m)) s"
      using TunnelConnect_update_inv [OF inv _ _ connect_conflict(3)] by simp
    then show ?thesis unfolding connect_conflict(1) by (rule machine_inv_drop [OF assms(2)])
  next
    case (connect_updated args t cid s)
    then have "t \<in> held (m_tasks m)" using held_mem by fastforce
    moreover have "task_mode_ok (Added args t cid)"
      using connect_updated(2) assms(2) by (fastforce simp: machine_inv_def)
    ultimately have "server_inv (held (m_tasks m)) s"
      using TunnelConnect_update_inv [OF inv _ _ connect_updated(3)] by simp
    then show ?thesis
      unfolding connect_updated(1) using connect_updated(2) by (rule machine_inv_next [OF assms(2)]) simp_all
  next
    case (disconnected cid now)
    then show ?thesis
      using TunnelConnect_disconnect_inv [OF inv] machine_inv_drop [OF assms(2)] by simp
  qed
qed

interpretation server_machine: invariant_system machine_init "server_step svc" machine_inv for svc
proof
  show "machine_inv m" if "machine_init m" for m
    using that server_init_inv by (simp add: machine_init_def machine_inv_def)
  show "machine_inv m'" if "server_step svc m m'" "machine_inv m" for m m'
    using that by (rule server_step_inv)
qed

section \<open>Properties\<close>

text \<open>
  C16 (safety): no interleaving of handlers dereferences a \<^verbatim>\<open>nil\<close> peer.  In every reachable state
  of the server, with any handlers in progress, the check of any validated connection request
  returns, so does the update of any connection in progress, so does any \<^verbatim>\<open>DescribeTunnel\<close>;
  and two different stored tunnels share no peer.
\<close>

theorem handlers_never_panic:
  assumes "reachable machine_init (server_step svc) m"
  shows "(\<forall>now args. TunnelConnectArgs_Validate args = None \<longrightarrow>
        (\<exists>x. TunnelConnect_verify now args (m_server m) = Return x)) \<and>
    (\<forall>args t cid. Added args t cid \<in> set (m_tasks m) \<longrightarrow>
        (\<exists>x. fst (TunnelConnect_update args t cid (m_server m)) = Return x)) \<and>
    (\<forall>now i. \<exists>x. DescribeTunnel now i (m_server m) = Return x) \<and>
    (\<forall>t \<in> stored (m_server m). \<forall>u \<in> stored (m_server m). t_ID t \<noteq> t_ID u \<longrightarrow>
        tunnel_ptrs t \<inter> tunnel_ptrs u = {})"
proof -
  have inv: "machine_inv m" by (rule server_machine.reachable_inv [OF assms])
  then have s: "server_inv (held (m_tasks m)) (m_server m)" by (simp add: machine_inv_def)
  have "\<exists>x. fst (TunnelConnect_update args t cid (m_server m)) = Return x"
    if "Added args t cid \<in> set (m_tasks m)" for args t cid
  proof -
    have "t \<in> held (m_tasks m)" "task_mode_ok (Added args t cid)"
      using that inv held_mem by (fastforce simp: machine_inv_def)+
    then show ?thesis
      using TunnelConnect_update_inv [OF s, of t args cid]
      by (cases "TunnelConnect_update args t cid (m_server m)") (metis fst_conv outcome.exhaust task_mode_ok.simps(2))
  qed
  moreover have "tunnel_ptrs t \<inter> tunnel_ptrs u = {}"
    if "t \<in> stored (m_server m)" "u \<in> stored (m_server m)" "t_ID t \<noteq> t_ID u" for t u
    using that s by (auto simp: server_inv_def dest: tunnels_ok_disjoint)
  ultimately show ?thesis
    using TunnelConnect_verify_returns [OF s] Validate_mode DescribeTunnel_returns [OF s] by blast
qed

theorem handlers_never_panic_witness:
  "\<exists>x. TunnelConnect_verify 0 (sample_args ''me'') (sample_server 1) = Return x"
proof -
  let ?m = "\<lparr>m_server = server_init, m_tasks = []\<rparr>"
  have "server_step sample_svc ?m
      (?m\<lparr>m_server := sample_server 1, m_tasks := Opened (sample_opened 1) # m_tasks ?m\<rparr>)"
    by (rule open_stored [of _ sample_rnd 0 "sample_open 1"]) (simp add: sample_OpenTunnel_add)
  then have "reachable machine_init (server_step sample_svc)
      \<lparr>m_server = sample_server 1, m_tasks = [Opened (sample_opened 1)]\<rparr>"
    by (intro reachable.step [OF reachable.start]) (simp_all add: machine_init_def)
  moreover have "TunnelConnectArgs_Validate (sample_args ''me'') = None"
    by (simp add: TunnelConnectArgs_Validate_def sample_args_def)
  ultimately show ?thesis
    using handlers_never_panic by fastforce
qed

end
