(* ===== verification/Peer_Con_Manager.thy ===== *)
theory Peer_Con_Manager
  imports Services
begin

text \<open>
  The forwarding of messages between the two connections of a tunnel,
  \<^verbatim>\<open>misc/server/peerconnection.go\<close> and \<^verbatim>\<open>misc/server/peerconmanager.go\<close>.  The
  \<^verbatim>\<open>peerConnection\<close> objects live in a heap (the list \<open>pm_cons\<close>, a pointer is an index)
  because the manager's map and the other connection share them.  A connection has a reader and
  a writer goroutine, a buffered channel between them, and a lock that the reader holds while it
  waits for room in the other connection's channel; \<open>pc_waiting\<close> says that it does.  The
  websocket library is the source of what is read and of what fails.
\<close>

section \<open>Connections\<close>

datatype phase =
    Registered   \<comment> \<open>in the map; \<^verbatim>\<open>run\<close> has not sent the service ids yet\<close>
  | Running      \<comment> \<open>reader and writer run\<close>
  | Ended        \<comment> \<open>\<^verbatim>\<open>run\<close> has returned\<close>
  | Gone         \<comment> \<open>\<^verbatim>\<open>connect\<close> has returned\<close>

type_synonym peerKey = "string \<times> mode"   \<comment> \<open>\<^verbatim>\<open>peerConnectionKey\<close>: tunnel and mode\<close>

record peerConnection =
  pc_key :: peerKey
  pc_serviceIDs :: "string list"
  pc_chMessage :: "message list"       \<comment> \<open>the buffered channel\<close>
  pc_chClosed :: bool
  pc_associated :: "nat option"        \<comment> \<open>\<open>None\<close> is a \<^verbatim>\<open>nilConWriter\<close>\<close>
  pc_closed :: bool
  pc_wsOpen :: bool
  pc_phase :: phase
  pc_read :: "message option"          \<comment> \<open>what the reader has read and not passed on\<close>
  pc_waiting :: bool                   \<comment> \<open>the reader waits for room, holding the lock\<close>
  pc_sent :: "message list"            \<comment> \<open>written to the websocket so far\<close>
  pc_accepted :: "(nat option \<times> message) list"
    \<comment> \<open>history: everything the channel took, and whose reader sent it (\<open>None\<close>: the debug handler)\<close>
  pc_received :: "message list"        \<comment> \<open>history: everything the reader read\<close>
  pc_passed :: "(nat option \<times> message) list"
    \<comment> \<open>history: what the reader passed on, and to whom\<close>
  pc_reading :: bool                   \<comment> \<open>the reader goroutine runs\<close>
  pc_writing :: bool                   \<comment> \<open>the writer goroutine runs\<close>
  pc_lost :: "message list"            \<comment> \<open>history: taken from the channel, but the write failed\<close>

definition chan_cap :: nat where
  "chan_cap = 10"

definition newPeerConnection :: "peerKey \<Rightarrow> string list \<Rightarrow> peerConnection" where
  "newPeerConnection key serviceIDs =
     \<lparr>pc_key = key, pc_serviceIDs = serviceIDs, pc_chMessage = [], pc_chClosed = False,
      pc_associated = None, pc_closed = False, pc_wsOpen = True, pc_phase = Registered,
      pc_read = None, pc_waiting = False, pc_sent = [], pc_accepted = [], pc_received = [],
      pc_passed = [], pc_reading = False, pc_writing = False, pc_lost = []\<rparr>"

definition serviceIDsMsg :: "string list \<Rightarrow> message" where
  "serviceIDsMsg ids = zero_message\<lparr>Type := Message_SERVICE_IDS, AvailableServiceIds := ids\<rparr>"

text \<open>
  \<^verbatim>\<open>close\<close>: once only; \<open>control_ok\<close> tells whether writing the close frame succeeds, without
  which the socket is not closed here.
\<close>

definition peerCon_close :: "bool \<Rightarrow> peerConnection \<Rightarrow> peerConnection" where
  "peerCon_close control_ok con =
     (if pc_closed con then con
      else if control_ok then con\<lparr>pc_closed := True, pc_wsOpen := False\<rparr>
      else con\<lparr>pc_closed := True\<rparr>)"

definition associate :: "nat option \<Rightarrow> peerConnection \<Rightarrow> peerConnection" where
  "associate conWriter con = con\<lparr>pc_associated := conWriter\<rparr>"

text \<open>
  A send on a channel: it panics when the channel is closed and waits when it is full; \<open>sender\<close>
  only goes to the history.
\<close>

definition asyncWrite :: "nat option \<Rightarrow> message \<Rightarrow> peerConnection \<Rightarrow> peerConnection outcome" where
  "asyncWrite sender m con =
     (if pc_chClosed con then Panic
      else if chan_cap \<le> length (pc_chMessage con) then Blocked
      else Return (con\<lparr>pc_chMessage := pc_chMessage con @ [m],
                       pc_accepted := pc_accepted con @ [(sender, m)]\<rparr>))"

text \<open>
  The beginning of \<^verbatim>\<open>run\<close>: the service ids and the start of the two goroutines, or an early
  return that closes nothing.
\<close>

definition run_start :: "bool \<Rightarrow> peerConnection \<Rightarrow> peerConnection" where
  "run_start write_ok con =
     (if write_ok then con\<lparr>pc_sent := pc_sent con @ [serviceIDsMsg (pc_serviceIDs con)],
                           pc_phase := Running, pc_reading := True, pc_writing := True\<rparr>
      else con\<lparr>pc_phase := Ended\<rparr>)"

text \<open>The deferred function of \<^verbatim>\<open>run\<close>, after both goroutines have ended.\<close>

definition run_end :: "bool \<Rightarrow> peerConnection \<Rightarrow> peerConnection" where
  "run_end control_ok con =
     (peerCon_close control_ok con)\<lparr>pc_chClosed := True, pc_phase := Ended\<rparr>"

text \<open>One round of \<^verbatim>\<open>startWritingMessage\<close> whose websocket write succeeds.\<close>

definition write_one :: "peerConnection \<Rightarrow> peerConnection" where
  "write_one con =
     (case pc_chMessage con of
        [] \<Rightarrow> con
      | m # ms \<Rightarrow> con\<lparr>pc_chMessage := ms, pc_sent := pc_sent con @ [m]\<rparr>)"

text \<open>
  The round in which \<^verbatim>\<open>SerializeMessage\<close> or \<^verbatim>\<open>WriteMessage\<close> fails: the message has left the
  channel and is lost, and the goroutine returns.
\<close>

definition write_fail :: "peerConnection \<Rightarrow> peerConnection" where
  "write_fail con =
     (case pc_chMessage con of
        [] \<Rightarrow> con
      | m # ms \<Rightarrow> con\<lparr>pc_chMessage := ms, pc_lost := pc_lost con @ [m], pc_writing := False\<rparr>)"

section \<open>The manager\<close>

text \<open>
  The two locked sections of \<^verbatim>\<open>connect\<close> take locks of connections while they hold the lock of
  the manager; \<open>pm_waiting\<close> is the section that waits for such a lock.
\<close>

datatype waiter = Connecting peerKey "string list" | Leaving nat

record peerConManager =
  pm_map :: "peerKey \<rightharpoonup> nat"
  pm_cons :: "peerConnection list"
  pm_waiting :: "waiter option"

definition upd_con :: "nat \<Rightarrow> (peerConnection \<Rightarrow> peerConnection) \<Rightarrow> peerConManager \<Rightarrow> peerConManager" where
  "upd_con i f pm = pm\<lparr>pm_cons := (pm_cons pm)[i := f (pm_cons pm ! i)]\<rparr>"

definition otherKey :: "peerKey \<Rightarrow> peerKey" where
  "otherKey key = (fst key, OtherMode (snd key))"

text \<open>The first locked section of \<^verbatim>\<open>connect\<close>; the new connection is the last of the heap.\<close>

definition connect_begin :: "bool \<Rightarrow> peerKey \<Rightarrow> string list \<Rightarrow> peerConManager \<Rightarrow> peerConManager" where
  "connect_begin control_ok peerKey serviceIDs pm =
     (let i = length (pm_cons pm);
          pm = (case pm_map pm peerKey of
                  Some existed \<Rightarrow> upd_con existed (peerCon_close control_ok) pm
                | None \<Rightarrow> pm);
          pm = pm\<lparr>pm_cons := pm_cons pm @ [newPeerConnection peerKey serviceIDs]\<rparr>;
          pm = (case pm_map pm (otherKey peerKey) of
                  Some other \<Rightarrow> upd_con other (associate (Some i)) (upd_con i (associate (Some other)) pm)
                | None \<Rightarrow> upd_con i (associate None) pm)
      in pm\<lparr>pm_map := (pm_map pm)(peerKey \<mapsto> i)\<rparr>)"

text \<open>The second locked section of \<^verbatim>\<open>connect\<close>, after \<^verbatim>\<open>run\<close> has returned.\<close>

definition connect_end :: "nat \<Rightarrow> peerConManager \<Rightarrow> peerConManager" where
  "connect_end i pm =
     (let peerKey = pc_key (pm_cons pm ! i);
          pm = upd_con i (\<lambda>con. con\<lparr>pc_phase := Gone\<rparr>) pm
      in if pm_map pm peerKey = Some i then
           let pm = pm\<lparr>pm_map := (pm_map pm)(peerKey := None)\<rparr>
           in (case pm_map pm (otherKey peerKey) of
                 Some other \<Rightarrow> upd_con other (associate None) pm
               | None \<Rightarrow> pm)
         else pm)"

text \<open>\<^verbatim>\<open>writeToAssociated\<close> of connection \<open>i\<close>, with the message its reader holds.\<close>

definition writeToAssociated :: "nat \<Rightarrow> message \<Rightarrow> peerConManager \<Rightarrow> peerConManager outcome" where
  "writeToAssociated i m pm =
     (case pc_associated (pm_cons pm ! i) of
        None \<Rightarrow> Return pm
      | Some j \<Rightarrow>
          (case asyncWrite (Some i) m (pm_cons pm ! j) of
             Panic \<Rightarrow> Panic
           | Blocked \<Rightarrow> Blocked
           | Return con \<Rightarrow> Return (pm\<lparr>pm_cons := (pm_cons pm)[j := con]\<rparr>)))"

definition sendToPeer ::
  "string \<Rightarrow> mode \<Rightarrow> message \<Rightarrow> peerConManager \<Rightarrow> (string + peerConManager) outcome" where
  "sendToPeer tunnelID mode m pm =
     (case pm_map pm (tunnelID, mode) of
        None \<Rightarrow> Return (Inl (''peer not found: TunnelID='' @ tunnelID @ '' Mode='' @ mode))
      | Some i \<Rightarrow>
          (case asyncWrite None m (pm_cons pm ! i) of
             Panic \<Rightarrow> Panic
           | Blocked \<Rightarrow> Blocked
           | Return con \<Rightarrow> Return (Inr (pm\<lparr>pm_cons := (pm_cons pm)[i := con]\<rparr>))))"

text \<open>
  \<^verbatim>\<open>closeExpiredConnection\<close>, over the keys of the map in the order Go groups them.  A failed
  lookup is logged only: the tunnel is then Go's zero tunnel, whose lifetime is long over.
\<close>

definition expired_tunnel :: "time \<Rightarrow> MemoryStore \<Rightarrow> string \<Rightarrow> bool" where
  "expired_tunnel now store tunnelID =
     (let tunnel = (case GetTunnel tunnelID store of Inl _ \<Rightarrow> zero_Tunnel | Inr tunnel \<Rightarrow> tunnel)
      in \<not> Tunnel_Open now tunnel)"

fun close_keys ::
  "(peerKey \<Rightarrow> bool) \<Rightarrow> (string \<Rightarrow> bool) \<Rightarrow> peerKey list \<Rightarrow> peerConManager \<Rightarrow> peerConManager" where
  "close_keys control_ok expired [] pm = pm"
| "close_keys control_ok expired (key # order) pm =
     close_keys control_ok expired order
       (case pm_map pm key of
          Some i \<Rightarrow> if expired (fst key) then upd_con i (peerCon_close (control_ok key)) pm else pm
        | None \<Rightarrow> pm)"

definition closeExpiredConnection ::
  "(peerKey \<Rightarrow> bool) \<Rightarrow> time \<Rightarrow> MemoryStore \<Rightarrow> peerKey list \<Rightarrow> peerConManager \<Rightarrow> peerConManager" where
  "closeExpiredConnection control_ok now store order pm =
     close_keys control_ok (expired_tunnel now store) order pm"

text \<open>The debug handler of \<^verbatim>\<open>misc/server/services_debugsend.go\<close>.\<close>

record DebugSendRequest =
  dr_TunnelID :: string
  dr_Mode :: mode
  dr_StreamID :: int32
  dr_Type :: message_type
  dr_Ignorable :: bool
  dr_ServiceID :: string
  dr_AvailableServiceIds :: "string list"
  dr_Payload :: bytes

definition DebugSendToPeer ::
  "DebugSendRequest \<Rightarrow> peerConManager \<Rightarrow> response outcome \<times> peerConManager" where
  "DebugSendToPeer args pm =
     (let m = \<lparr>Type = dr_Type args, StreamId = dr_StreamID args, Ignorable = dr_Ignorable args,
               Payload = dr_Payload args, ServiceId = dr_ServiceID args,
               AvailableServiceIds = dr_AvailableServiceIds args\<rparr>
      in (case sendToPeer (dr_TunnelID args) (dr_Mode args) m pm of
            Panic \<Rightarrow> (Panic, pm)
          | Blocked \<Rightarrow> (Blocked, pm)
          | Return (Inl err) \<Rightarrow> (Return (json StatusBadRequest (Message err)), pm)
          | Return (Inr pm') \<Rightarrow> (Return (json StatusOK EmptyBody), pm')))"

section \<open>Concurrent runs\<close>

text \<open>The connections whose lock a section takes, and what it does when it has them.\<close>

fun locks_needed :: "waiter \<Rightarrow> peerConManager \<Rightarrow> nat set" where
  "locks_needed (Connecting key ids) pm =
     set_option (pm_map pm key) \<union> set_option (pm_map pm (otherKey key))"
| "locks_needed (Leaving i) pm =
     (if pm_map pm (pc_key (pm_cons pm ! i)) = Some i
      then set_option (pm_map pm (otherKey (pc_key (pm_cons pm ! i)))) else {})"

fun section_effect :: "bool \<Rightarrow> waiter \<Rightarrow> peerConManager \<Rightarrow> peerConManager" where
  "section_effect control_ok (Connecting key ids) pm = connect_begin control_ok key ids pm"
| "section_effect control_ok (Leaving i) pm = connect_end i pm"

fun section_ready :: "waiter \<Rightarrow> peerConManager \<Rightarrow> bool" where
  "section_ready (Connecting key ids) pm \<longleftrightarrow> valid_mode (snd key)"
| "section_ready (Leaving i) pm \<longleftrightarrow> i < length (pm_cons pm) \<and> pc_phase (pm_cons pm ! i) = Ended"

definition locks_free :: "nat set \<Rightarrow> peerConManager \<Rightarrow> bool" where
  "locks_free L pm \<longleftrightarrow> (\<forall>j \<in> L. \<not> pc_waiting (pm_cons pm ! j))"

abbreviation con :: "peerConManager \<Rightarrow> nat \<Rightarrow> peerConnection" where
  "con pm i \<equiv> pm_cons pm ! i"

abbreviation live :: "peerConManager \<Rightarrow> nat \<Rightarrow> bool" where
  "live pm i \<equiv> i < length (pm_cons pm) \<and> pc_phase (con pm i) = Running"

text \<open>
  The goroutines of \<^verbatim>\<open>run\<close>: the reader also reads what the websocket has buffered before it was
  closed, and ends with an error of \<^verbatim>\<open>Next\<close>; the writer ends with a failed write, after which
  \<^verbatim>\<open>run\<close> closes the connection and waits for the reader, or once the reader has ended and the
  context is cancelled; when both have ended, \<^verbatim>\<open>run\<close> returns.
\<close>

inductive peer_step :: "peerConManager \<Rightarrow> peerConManager \<Rightarrow> bool" where
  section_runs:
    "pm_waiting pm = None \<Longrightarrow> section_ready w pm \<Longrightarrow> locks_free (locks_needed w pm) pm \<Longrightarrow>
       peer_step pm (section_effect ok w pm)"
| section_waits:
    "pm_waiting pm = None \<Longrightarrow> section_ready w pm \<Longrightarrow> \<not> locks_free (locks_needed w pm) pm \<Longrightarrow>
       peer_step pm (pm\<lparr>pm_waiting := Some w\<rparr>)"
| section_resumes:
    "pm_waiting pm = Some w \<Longrightarrow> locks_free (locks_needed w pm) pm \<Longrightarrow>
       peer_step pm ((section_effect ok w pm)\<lparr>pm_waiting := None\<rparr>)"
| starts:
    "i < length (pm_cons pm) \<Longrightarrow> pc_phase (con pm i) = Registered \<Longrightarrow>
       peer_step pm (upd_con i (run_start ok) pm)"
| reads:
    "live pm i \<Longrightarrow> pc_reading (con pm i) \<Longrightarrow> pc_read (con pm i) = None \<Longrightarrow>
       peer_step pm (upd_con i (\<lambda>c. c\<lparr>pc_read := Some m, pc_received := pc_received c @ [m]\<rparr>) pm)"
| forwards:
    "live pm i \<Longrightarrow> pc_read (con pm i) = Some m \<Longrightarrow> writeToAssociated i m pm = Return pm' \<Longrightarrow>
       peer_step pm (upd_con i (\<lambda>c. c\<lparr>pc_read := None, pc_waiting := False,
         pc_passed := pc_passed c @ [(pc_associated c, m)]\<rparr>) pm')"
| waits_for_room:
    "live pm i \<Longrightarrow> pc_read (con pm i) = Some m \<Longrightarrow> writeToAssociated i m pm = Blocked \<Longrightarrow>
       peer_step pm (upd_con i (\<lambda>c. c\<lparr>pc_waiting := True\<rparr>) pm)"
| reader_ends:
    "live pm i \<Longrightarrow> pc_reading (con pm i) \<Longrightarrow> pc_read (con pm i) = None \<Longrightarrow>
       peer_step pm (upd_con i (\<lambda>c. c\<lparr>pc_reading := False\<rparr>) pm)"
| writes:
    "live pm i \<Longrightarrow> pc_writing (con pm i) \<Longrightarrow> pc_wsOpen (con pm i) \<Longrightarrow>
       peer_step pm (upd_con i write_one pm)"
| write_fails:
    "live pm i \<Longrightarrow> pc_writing (con pm i) \<Longrightarrow> peer_step pm (upd_con i write_fail pm)"
| writer_ends:
    "live pm i \<Longrightarrow> pc_writing (con pm i) \<Longrightarrow> \<not> pc_reading (con pm i) \<Longrightarrow>
       peer_step pm (upd_con i (\<lambda>c. c\<lparr>pc_writing := False\<rparr>) pm)"
| run_closes:
    "live pm i \<Longrightarrow> \<not> pc_writing (con pm i) \<Longrightarrow> \<not> pc_waiting (con pm i) \<Longrightarrow>
       peer_step pm (upd_con i (peerCon_close ok) pm)"
| peer_drops:
    "i < length (pm_cons pm) \<Longrightarrow> peer_step pm (upd_con i (\<lambda>c. c\<lparr>pc_wsOpen := False\<rparr>) pm)"
| stops:
    "live pm i \<Longrightarrow> \<not> pc_reading (con pm i) \<Longrightarrow> \<not> pc_writing (con pm i) \<Longrightarrow>
       peer_step pm (upd_con i (run_end ok) pm)"
| expires:
    "pm_waiting pm = None \<Longrightarrow> locks_free (ran (pm_map pm)) pm \<Longrightarrow>
       peer_step pm (closeExpiredConnection control_ok now store order pm)"
| debug_send:
    "sendToPeer tunnelID md m pm = Return (Inr pm') \<Longrightarrow> peer_step pm pm'"

definition peer_init :: "peerConManager \<Rightarrow> bool" where
  "peer_init pm \<longleftrightarrow> pm = \<lparr>pm_map = Map.empty, pm_cons = [], pm_waiting = None\<rparr>"

section \<open>Invariant\<close>

text \<open>
  The history of one connection: the channel is a queue in front of the websocket, which loses a
  message only when the writer ends with it.
\<close>

definition con_ok :: "peerConnection \<Rightarrow> bool" where
  "con_ok c \<longleftrightarrow>
     valid_mode (snd (pc_key c)) \<and> length (pc_chMessage c) \<le> chan_cap \<and>
     map snd (pc_accepted c) = tl (pc_sent c) @ pc_lost c @ pc_chMessage c \<and>
     length (pc_lost c) \<le> 1 \<and> (pc_writing c \<longrightarrow> pc_lost c = []) \<and>
     (pc_sent c = [] \<or> hd (pc_sent c) = serviceIDsMsg (pc_serviceIDs c)) \<and>
     (pc_phase c = Registered \<longrightarrow> pc_sent c = [] \<and> pc_lost c = []) \<and>
     (pc_phase c = Running \<longrightarrow> pc_sent c \<noteq> []) \<and>
     (pc_chClosed c \<longrightarrow> pc_phase c = Ended \<or> pc_phase c = Gone)"

text \<open>
  Associated connections have the same tunnel and opposite modes; a registered connection is
  associated with the registered connection of the other mode, if there is one.
\<close>

definition assoc_ok :: "peerConManager \<Rightarrow> bool" where
  "assoc_ok pm \<longleftrightarrow>
     (\<forall>i j. i < length (pm_cons pm) \<longrightarrow> pc_associated (con pm i) = Some j \<longrightarrow>
        j < length (pm_cons pm) \<and> pc_key (con pm j) = otherKey (pc_key (con pm i)))"

definition map_ok :: "peerConManager \<Rightarrow> bool" where
  "map_ok pm \<longleftrightarrow>
     (\<forall>k i. pm_map pm k = Some i \<longrightarrow>
        i < length (pm_cons pm) \<and> pc_key (con pm i) = k \<and>
        pc_associated (con pm i) = pm_map pm (otherKey k))"

lemma map_okD:
  assumes "map_ok pm" and "pm_map pm k = Some i"
  shows "i < length (pm_cons pm)" "pc_key (con pm i) = k"
    "pc_associated (con pm i) = pm_map pm (otherKey k)"
  using assms unfolding map_ok_def by blast+

definition peer_inv :: "peerConManager \<Rightarrow> bool" where
  "peer_inv pm \<longleftrightarrow> (\<forall>i < length (pm_cons pm). con_ok (con pm i)) \<and> assoc_ok pm \<and> map_ok pm"

lemma otherKey_otherKey [simp]: "valid_mode (snd k) \<Longrightarrow> otherKey (otherKey k) = k"
  by (simp add: otherKey_def)

lemma otherKey_neq [simp]: "valid_mode (snd k) \<Longrightarrow> otherKey k \<noteq> k"
  by (metis OtherMode_neq(1) otherKey_def snd_conv)

lemma upd_con_simps [simp]:
  "pm_map (upd_con i f pm) = pm_map pm" "pm_waiting (upd_con i f pm) = pm_waiting pm"
  "length (pm_cons (upd_con i f pm)) = length (pm_cons pm)"
  by (simp_all add: upd_con_def)

lemma con_upd_con:
  "con (upd_con i f pm) j = (if i = j \<and> i < length (pm_cons pm) then f (con pm i) else con pm j)"
  by (cases "i < length (pm_cons pm)") (auto simp: upd_con_def nth_list_update list_update_beyond)

text \<open>A change of one connection that keeps its key and its association.\<close>

lemma peer_inv_upd:
  assumes "peer_inv pm"
    and "i < length (pm_cons pm) \<Longrightarrow> con_ok (con pm i) \<Longrightarrow> con_ok (f (con pm i))"
    and "pc_key (f (con pm i)) = pc_key (con pm i)"
    and "pc_associated (f (con pm i)) = pc_associated (con pm i)"
  shows "peer_inv (upd_con i f pm)"
proof -
  have "pc_key (con (upd_con i f pm) j) = pc_key (con pm j)"
    "pc_associated (con (upd_con i f pm) j) = pc_associated (con pm j)" for j
    using assms(3,4) by (auto simp: con_upd_con)
  then have "assoc_ok (upd_con i f pm) = assoc_ok pm" "map_ok (upd_con i f pm) = map_ok pm"
    by (simp_all add: assoc_ok_def map_ok_def)
  then show ?thesis
    using assms(1,2) by (auto simp: peer_inv_def con_upd_con)
qed

lemma asyncWrite_Return:
  "asyncWrite f m c = Return c' \<longleftrightarrow> \<not> pc_chClosed c \<and> length (pc_chMessage c) < chan_cap \<and>
     c' = c\<lparr>pc_chMessage := pc_chMessage c @ [m], pc_accepted := pc_accepted c @ [(f, m)]\<rparr>"
  by (auto simp: asyncWrite_def)

lemma peer_inv_send:
  assumes "peer_inv pm" and "asyncWrite f m (con pm j) = Return c"
  shows "peer_inv (pm\<lparr>pm_cons := (pm_cons pm)[j := c]\<rparr>)"
proof -
  have "pm\<lparr>pm_cons := (pm_cons pm)[j := c]\<rparr> = upd_con j (\<lambda>_. c) pm"
    by (simp add: upd_con_def)
  also have "peer_inv \<dots>"
    using assms by (intro peer_inv_upd) (auto simp: asyncWrite_Return con_ok_def)
  finally show ?thesis .
qed

lemma peerCon_close_simps [simp]:
  "pc_key (peerCon_close ok c) = pc_key c" "pc_associated (peerCon_close ok c) = pc_associated c"
  "pc_phase (peerCon_close ok c) = pc_phase c" "con_ok (peerCon_close ok c) = con_ok c"
  "pc_waiting (peerCon_close ok c) = pc_waiting c" "pc_chMessage (peerCon_close ok c) = pc_chMessage c"
  "pc_chClosed (peerCon_close ok c) = pc_chClosed c" "pc_read (peerCon_close ok c) = pc_read c"
  "pc_reading (peerCon_close ok c) = pc_reading c" "pc_writing (peerCon_close ok c) = pc_writing c"
  by (simp_all add: peerCon_close_def con_ok_def)

lemma peer_inv_close_keys:
  "peer_inv pm \<Longrightarrow> peer_inv (close_keys control_ok expired order pm)"
proof (induction control_ok expired order pm rule: close_keys.induct)
  case (2 control_ok expired key order pm)
  have "peer_inv (upd_con i (peerCon_close ok) pm)" for i ok
    by (rule peer_inv_upd [OF 2(2)]) simp_all
  then show ?case using 2 by (auto split: option.splits)
qed simp

lemma newPeerConnection_ok: "valid_mode (snd key) \<Longrightarrow> con_ok (newPeerConnection key ids)"
  by (simp add: con_ok_def newPeerConnection_def chan_cap_def)

lemma newPeerConnection_sel [simp]:
  "pc_key (newPeerConnection key ids) = key" "pc_phase (newPeerConnection key ids) = Registered"
  "pc_associated (newPeerConnection key ids) = None" "pc_chMessage (newPeerConnection key ids) = []"
  "pc_chClosed (newPeerConnection key ids) = False" "pc_wsOpen (newPeerConnection key ids) = True"
  "pc_read (newPeerConnection key ids) = None" "pc_waiting (newPeerConnection key ids) = False"
  by (simp_all add: newPeerConnection_def)

text \<open>What \<^verbatim>\<open>connect_begin\<close> makes of the heap, connection by connection.\<close>

lemma connect_begin_con:
  assumes "map_ok pm" and "valid_mode (snd key)"
  shows "pm_map (connect_begin ok key ids pm) = (pm_map pm)(key \<mapsto> length (pm_cons pm))"
    and "length (pm_cons (connect_begin ok key ids pm)) = Suc (length (pm_cons pm))"
    and "pm_waiting (connect_begin ok key ids pm) = pm_waiting pm"
    and "j \<le> length (pm_cons pm) \<Longrightarrow> con (connect_begin ok key ids pm) j =
      (if j = length (pm_cons pm)
       then associate (pm_map pm (otherKey key)) (newPeerConnection key ids)
       else if pm_map pm (otherKey key) = Some j then associate (Some (length (pm_cons pm))) (con pm j)
       else if pm_map pm key = Some j then peerCon_close ok (con pm j)
       else con pm j)"
proof -
  have len: "pm_map pm k = Some i \<Longrightarrow> i < length (pm_cons pm)" for k i
    by (rule map_okD(1) [OF assms(1)])
  have neq: "pm_map pm key = Some i \<Longrightarrow> pm_map pm (otherKey key) \<noteq> Some i" for i
    using assms by (metis map_okD(2) otherKey_neq)
  show "pm_map (connect_begin ok key ids pm) = (pm_map pm)(key \<mapsto> length (pm_cons pm))"
    "length (pm_cons (connect_begin ok key ids pm)) = Suc (length (pm_cons pm))"
    "pm_waiting (connect_begin ok key ids pm) = pm_waiting pm"
    by (simp_all add: connect_begin_def Let_def split: option.splits)
  show "j \<le> length (pm_cons pm) \<Longrightarrow> con (connect_begin ok key ids pm) j =
      (if j = length (pm_cons pm)
       then associate (pm_map pm (otherKey key)) (newPeerConnection key ids)
       else if pm_map pm (otherKey key) = Some j then associate (Some (length (pm_cons pm))) (con pm j)
       else if pm_map pm key = Some j then peerCon_close ok (con pm j)
       else con pm j)"
    using len [of key] len [of "otherKey key"] neq
    by (auto simp: connect_begin_def Let_def con_upd_con nth_append associate_def
        split: option.splits)
qed

lemma con_ok_associate [simp]: "con_ok (associate w c) = con_ok c"
  "pc_key (associate w c) = pc_key c" "pc_associated (associate w c) = w"
  by (simp_all add: associate_def con_ok_def)

lemma connect_begin_inv:
  assumes "peer_inv pm" and "valid_mode (snd key)"
  shows "peer_inv (connect_begin ok key ids pm)"
proof -
  let ?pm = "connect_begin ok key ids pm" and ?n = "length (pm_cons pm)"
  have m: "map_ok pm" using assms(1) by (simp add: peer_inv_def)
  note c = connect_begin_con [OF m assms(2), where ok = ok and ids = ids]
  have key: "pc_key (con ?pm j) = (if j = ?n then key else pc_key (con pm j))" if "j \<le> ?n" for j
    using c(4) that by simp
  have "con_ok (con ?pm j)" if "j \<le> ?n" for j
    using c(4) that assms(1) newPeerConnection_ok [OF assms(2)] by (simp add: peer_inv_def)
  moreover have "assoc_ok ?pm"
    unfolding assoc_ok_def c(2)
  proof (intro allI impI)
    fix i j assume i: "i < Suc ?n" and a: "pc_associated (con ?pm i) = Some j"
    consider (new) "i = ?n" "pm_map pm (otherKey key) = Some j"
      | (other) "i < ?n" "pm_map pm (otherKey key) = Some i" "j = ?n"
      | (old) "i < ?n" "pc_associated (con pm i) = Some j"
      using i a c(4) [of i] by (auto simp: less_Suc_eq split: if_splits)
    then show "j < Suc ?n \<and> pc_key (con ?pm j) = otherKey (pc_key (con ?pm i))"
    proof cases
      case new
      then have "j < ?n" "pc_key (con pm j) = otherKey key" using m map_okD by blast+
      then show ?thesis using new key by simp
    next
      case other
      then have "pc_key (con pm i) = otherKey key" using m map_okD by blast
      then show ?thesis using other key assms(2) by simp
    next
      case old
      then have "j < ?n" "pc_key (con pm j) = otherKey (pc_key (con pm i))"
        using assms(1) by (auto simp: peer_inv_def assoc_ok_def)
      then show ?thesis using old key by simp
    qed
  qed
  moreover have "map_ok ?pm"
    unfolding map_ok_def c(1,2)
  proof (intro allI impI)
    fix k i assume k: "((pm_map pm)(key \<mapsto> ?n)) k = Some i"
    show "i < Suc ?n \<and> pc_key (con ?pm i) = k \<and>
        pc_associated (con ?pm i) = ((pm_map pm)(key \<mapsto> ?n)) (otherKey k)"
    proof (cases "k = key")
      case True
      then show ?thesis using k key c(4) assms(2) by simp
    next
      case False
      then have old: "pm_map pm k = Some i" using k by simp
      then have i: "i < ?n" "pc_key (con pm i) = k"
        "pc_associated (con pm i) = pm_map pm (otherKey k)"
        using map_okD [OF m] by blast+
      have "valid_mode (snd k)"
        using i assms(1) by (auto simp: peer_inv_def con_ok_def)
      then have "otherKey k = key \<longleftrightarrow> k = otherKey key"
        using assms(2) by (metis otherKey_otherKey)
      moreover have "pm_map pm (otherKey key) = Some i \<longleftrightarrow> k = otherKey key"
        using old i m by (metis map_okD(2))
      moreover have "pm_map pm key \<noteq> Some i" using i(2) False m by (metis map_okD(2))
      ultimately show ?thesis using i c(4) [of i] key by simp
    qed
  qed
  ultimately show ?thesis by (simp add: peer_inv_def c(2) less_Suc_eq_le)
qed

lemma connect_end_con:
  assumes "map_ok pm"
  shows "length (pm_cons (connect_end i pm)) = length (pm_cons pm)"
    and "pm_waiting (connect_end i pm) = pm_waiting pm"
    and "pm_map (connect_end i pm) =
      (if pm_map pm (pc_key (con pm i)) = Some i then (pm_map pm)(pc_key (con pm i) := None)
       else pm_map pm)"
    and "valid_mode (snd (pc_key (con pm i))) \<Longrightarrow> i < length (pm_cons pm) \<Longrightarrow>
      con (connect_end i pm) j =
      (if j = i then (con pm j)\<lparr>pc_phase := Gone\<rparr>
       else if pm_map pm (pc_key (con pm i)) = Some i \<and> pm_map pm (otherKey (pc_key (con pm i))) = Some j
         then associate None (con pm j)
       else con pm j)"
proof -
  show "length (pm_cons (connect_end i pm)) = length (pm_cons pm)"
    "pm_waiting (connect_end i pm) = pm_waiting pm"
    "pm_map (connect_end i pm) =
      (if pm_map pm (pc_key (con pm i)) = Some i then (pm_map pm)(pc_key (con pm i) := None)
       else pm_map pm)"
    by (auto simp: connect_end_def Let_def split: option.splits)
  assume v: "valid_mode (snd (pc_key (con pm i)))" and i: "i < length (pm_cons pm)"
  have "pm_map pm (otherKey (pc_key (con pm i))) \<noteq> Some i"
    using assms otherKey_neq [OF v] by (metis map_okD(2))
  moreover have "pm_map pm k = Some l \<Longrightarrow> l < length (pm_cons pm)" for k l
    by (rule map_okD(1) [OF assms])
  ultimately show "con (connect_end i pm) j =
      (if j = i then (con pm j)\<lparr>pc_phase := Gone\<rparr>
       else if pm_map pm (pc_key (con pm i)) = Some i \<and> pm_map pm (otherKey (pc_key (con pm i))) = Some j
         then associate None (con pm j)
       else con pm j)"
    using i v by (auto simp: connect_end_def Let_def con_upd_con associate_def split: option.splits)
qed

lemma con_ok_gone: "con_ok c \<Longrightarrow> pc_phase c = Ended \<Longrightarrow> con_ok (c\<lparr>pc_phase := Gone\<rparr>)"
  by (simp add: con_ok_def)

lemma connect_end_inv:
  assumes "peer_inv pm" and "i < length (pm_cons pm)" and "pc_phase (con pm i) = Ended"
  shows "peer_inv (connect_end i pm)"
proof -
  let ?pm = "connect_end i pm" and ?key = "pc_key (con pm i)"
  have m: "map_ok pm" and v: "valid_mode (snd ?key)"
    using assms(1,2) by (auto simp: peer_inv_def con_ok_def)
  note c = connect_end_con [OF m, where i = i]
  have con: "pc_key (con ?pm j) = pc_key (con pm j)" for j
    using c(4) [OF v assms(2)] by simp
  have "con_ok (con ?pm j)" if "j < length (pm_cons pm)" for j
    using c(4) [OF v assms(2), of j] that assms by (simp add: peer_inv_def con_ok_gone)
  moreover have "assoc_ok ?pm"
    unfolding assoc_ok_def c(1)
  proof (intro allI impI)
    fix j l assume "j < length (pm_cons pm)" "pc_associated (con ?pm j) = Some l"
    moreover from this have "pc_associated (con pm j) = Some l"
      using c(4) [OF v assms(2), of j] by (auto split: if_splits)
    ultimately show "l < length (pm_cons pm) \<and> pc_key (con ?pm l) = otherKey (pc_key (con ?pm j))"
      using assms(1) unfolding con peer_inv_def assoc_ok_def by blast
  qed
  moreover have "map_ok ?pm"
    unfolding map_ok_def c(1)
  proof (intro allI impI)
    fix k j assume k: "pm_map ?pm k = Some j"
    then have old: "pm_map pm k = Some j" and nk: "pm_map pm ?key = Some i \<Longrightarrow> k \<noteq> ?key"
      using c(3) by (auto split: if_splits)
    note j = map_okD [OF m old]
    have vk: "valid_mode (snd k)"
      using j(1,2) assms(1) by (auto simp: peer_inv_def con_ok_def)
    have "otherKey k = ?key \<longleftrightarrow> k = otherKey ?key"
      using v vk by (metis otherKey_otherKey)
    moreover have "pm_map pm (otherKey ?key) = Some j \<longleftrightarrow> k = otherKey ?key"
      using old j(2) m by (metis map_okD(2))
    moreover have "j = i \<Longrightarrow> pm_map pm ?key = Some i"
      using old j(2) by simp
    then have "j \<noteq> i" using nk j(2) by blast
    ultimately show "j < length (pm_cons pm) \<and> pc_key (con ?pm j) = k \<and>
        pc_associated (con ?pm j) = pm_map ?pm (otherKey k)"
      using j con c(3) c(4) [OF v assms(2), of j] by simp
  qed
  ultimately show ?thesis by (simp add: peer_inv_def c(1))
qed

lemma peer_inv_waiting [simp]: "peer_inv (pm\<lparr>pm_waiting := w\<rparr>) = peer_inv pm"
  by (simp add: peer_inv_def assoc_ok_def map_ok_def)

lemma section_effect_inv:
  "peer_inv pm \<Longrightarrow> section_ready w pm \<Longrightarrow> peer_inv (section_effect ok w pm)"
  by (cases w) (simp_all add: connect_begin_inv connect_end_inv)

text \<open>A section that waits stays ready: nothing else ends the wait of its connection.\<close>

definition waiter_ok :: "peerConManager \<Rightarrow> bool" where
  "waiter_ok pm \<longleftrightarrow> (\<forall>w. pm_waiting pm = Some w \<longrightarrow> section_ready w pm)"

definition manager_inv :: "peerConManager \<Rightarrow> bool" where
  "manager_inv pm \<longleftrightarrow> peer_inv pm \<and> waiter_ok pm"

lemma waiter_ok_upd:
  assumes "waiter_ok pm" and "pc_phase (con pm i) \<noteq> Ended \<or> pc_phase (f (con pm i)) = Ended"
  shows "waiter_ok (upd_con i f pm)"
  using assms by (auto simp: waiter_ok_def con_upd_con elim!: section_ready.elims)

lemma manager_inv_upd:
  assumes "manager_inv pm"
    and "i < length (pm_cons pm) \<Longrightarrow> con_ok (con pm i) \<Longrightarrow> con_ok (f (con pm i))"
    and "pc_key (f (con pm i)) = pc_key (con pm i)"
    and "pc_associated (f (con pm i)) = pc_associated (con pm i)"
    and "pc_phase (con pm i) \<noteq> Ended \<or> pc_phase (f (con pm i)) = Ended"
  shows "manager_inv (upd_con i f pm)"
  using assms peer_inv_upd waiter_ok_upd by (simp add: manager_inv_def)

lemma manager_inv_send:
  assumes "manager_inv pm" and "asyncWrite f m (con pm j) = Return c"
  shows "manager_inv (pm\<lparr>pm_cons := (pm_cons pm)[j := c]\<rparr>)"
proof -
  have "pm\<lparr>pm_cons := (pm_cons pm)[j := c]\<rparr> = upd_con j (\<lambda>_. c) pm"
    by (simp add: upd_con_def)
  also have "manager_inv \<dots>"
    using assms by (intro manager_inv_upd) (auto simp: asyncWrite_Return con_ok_def)
  finally show ?thesis .
qed

lemma manager_inv_close_keys:
  "manager_inv pm \<Longrightarrow> manager_inv (close_keys control_ok expired order pm)"
proof (induction control_ok expired order pm rule: close_keys.induct)
  case (2 control_ok expired key order pm)
  have "manager_inv (upd_con i (peerCon_close ok) pm)" for i ok
    by (rule manager_inv_upd [OF 2(2)]) simp_all
  then show ?case using 2 by (auto split: option.splits)
qed simp

lemma peer_step_inv: "peer_step pm pm' \<Longrightarrow> manager_inv pm \<Longrightarrow> manager_inv pm'"
proof (induction rule: peer_step.induct)
  case (section_runs pm w ok)
  moreover have "pm_waiting (section_effect ok w pm) = pm_waiting pm"
    using section_runs by (cases w) (auto simp: manager_inv_def peer_inv_def connect_begin_con connect_end_con)
  ultimately show ?case
    by (auto simp: manager_inv_def waiter_ok_def section_effect_inv)
next
  case (section_waits pm w)
  then show ?case by (cases w) (auto simp: manager_inv_def waiter_ok_def)
next
  case (section_resumes pm w ok)
  then show ?case by (auto simp: manager_inv_def waiter_ok_def section_effect_inv)
next
  case (starts i pm ok)
  then show ?case by (intro manager_inv_upd) (auto simp: run_start_def con_ok_def)
next
  case (reads pm i m)
  then show ?case by (intro manager_inv_upd) (auto simp: con_ok_def)
next
  case (forwards pm i m pm')
  have "manager_inv pm'"
    using forwards manager_inv_send
    by (auto simp: writeToAssociated_def split: option.splits outcome.splits)
  then show ?case by (intro manager_inv_upd) (auto simp: con_ok_def)
next
  case (waits_for_room pm i m)
  then show ?case by (intro manager_inv_upd) (auto simp: con_ok_def)
next
  case (writes pm i)
  then show ?case
    by (intro manager_inv_upd) (auto simp: con_ok_def write_one_def split: list.splits)
next
  case (reader_ends pm i)
  then show ?case by (intro manager_inv_upd) (auto simp: con_ok_def)
next
  case (write_fails pm i)
  then show ?case
    by (intro manager_inv_upd) (auto simp: con_ok_def write_fail_def split: list.splits)
next
  case (writer_ends pm i)
  then show ?case by (intro manager_inv_upd) (auto simp: con_ok_def)
next
  case (run_closes pm i ok)
  then show ?case by (intro manager_inv_upd) simp_all
next
  case (peer_drops i pm)
  then show ?case by (intro manager_inv_upd) (auto simp: con_ok_def)
next
  case (stops pm i ok)
  then show ?case
    by (intro manager_inv_upd) (auto simp: run_end_def con_ok_def peerCon_close_def)
next
  case (expires pm control_ok now store order)
  then show ?case by (simp add: closeExpiredConnection_def manager_inv_close_keys)
next
  case (debug_send tunnelID md m pm pm')
  then show ?case
    using manager_inv_send
    by (auto simp: sendToPeer_def split: option.splits outcome.splits)
qed

interpretation peer_machine: invariant_system peer_init peer_step manager_inv
proof
  show "manager_inv pm" if "peer_init pm" for pm
    using that
    by (simp add: peer_init_def manager_inv_def peer_inv_def waiter_ok_def assoc_ok_def map_ok_def)
qed (rule peer_step_inv)

section \<open>Properties\<close>

text \<open>
  C17 (invariant): messages stay in their tunnel.  In every reachable state a connection, also one
  that was overwritten by a later one or whose session is over, forwards to a connection of the
  same tunnel and of the opposite mode only, and a connection that is registered forwards exactly
  to the registered connection of the other mode, or nowhere when there is none.
\<close>

theorem peers_stay_in_their_tunnel:
  assumes "reachable peer_init peer_step pm"
  shows "(\<forall>i j. i < length (pm_cons pm) \<longrightarrow> pc_associated (con pm i) = Some j \<longrightarrow>
        j < length (pm_cons pm) \<and> fst (pc_key (con pm j)) = fst (pc_key (con pm i)) \<and>
        snd (pc_key (con pm j)) = OtherMode (snd (pc_key (con pm i))) \<and> i \<noteq> j) \<and>
    (\<forall>k i. pm_map pm k = Some i \<longrightarrow>
        pc_key (con pm i) = k \<and> pc_associated (con pm i) = pm_map pm (otherKey k))"
proof -
  have inv: "peer_inv pm"
    using peer_machine.reachable_inv [OF assms] by (simp add: manager_inv_def)
  have "j < length (pm_cons pm) \<and> fst (pc_key (con pm j)) = fst (pc_key (con pm i)) \<and>
        snd (pc_key (con pm j)) = OtherMode (snd (pc_key (con pm i))) \<and> i \<noteq> j"
    if ij: "i < length (pm_cons pm)" "pc_associated (con pm i) = Some j" for i j
  proof -
    have "valid_mode (snd (pc_key (con pm i)))"
      using inv ij(1) by (simp add: peer_inv_def con_ok_def)
    then have "otherKey (pc_key (con pm i)) \<noteq> pc_key (con pm i)" by simp
    moreover have "j < length (pm_cons pm)" "pc_key (con pm j) = otherKey (pc_key (con pm i))"
      using inv ij unfolding peer_inv_def assoc_ok_def by blast+
    ultimately show ?thesis by (metis fst_conv otherKey_def snd_conv)
  qed
  moreover have "pc_key (con pm i) = k \<and> pc_associated (con pm i) = pm_map pm (otherKey k)"
    if "pm_map pm k = Some i" for k i
    using that inv map_okD unfolding peer_inv_def by blast
  ultimately show ?thesis by blast
qed

text \<open>Two connected peers of one tunnel, the first of them reading.\<close>

definition paired :: peerConManager where
  "paired = upd_con 0 (run_start True)
     (connect_begin True (''t'', ModeDestination) []
       (connect_begin True (''t'', ModeSource) [] \<lparr>pm_map = Map.empty, pm_cons = [], pm_waiting = None\<rparr>))"

lemma paired_con:
  "pm_cons paired =
    [(newPeerConnection (''t'', ModeSource) [])\<lparr>pc_associated := Some 1,
        pc_sent := [serviceIDsMsg []], pc_phase := Running, pc_reading := True, pc_writing := True\<rparr>,
     (newPeerConnection (''t'', ModeDestination) [])\<lparr>pc_associated := Some 0\<rparr>]"
  "pm_map paired = [(''t'', ModeSource) \<mapsto> 0, (''t'', ModeDestination) \<mapsto> 1]"
  "pm_waiting paired = None"
  by (simp_all add: paired_def connect_begin_def Let_def upd_con_def otherKey_def associate_def
      run_start_def newPeerConnection_def)

lemma peer_reach:
  "reachable peer_init peer_step pm \<Longrightarrow> peer_step pm pm' \<Longrightarrow> reachable peer_init peer_step pm'"
  by (rule reachable.step)

lemma paired_reachable: "reachable peer_init peer_step paired"
proof -
  let ?pm0 = "\<lparr>pm_map = Map.empty, pm_cons = [], pm_waiting = None\<rparr> :: peerConManager"
  let ?pm1 = "connect_begin True (''t'', ModeSource) [] ?pm0"
  let ?pm2 = "connect_begin True (''t'', ModeDestination) [] ?pm1"
  have pm1: "pm_cons ?pm1 = [newPeerConnection (''t'', ModeSource) []]"
    "pm_map ?pm1 = [(''t'', ModeSource) \<mapsto> 0]" "pm_waiting ?pm1 = None"
    by (simp_all add: connect_begin_def Let_def upd_con_def otherKey_def associate_def
        newPeerConnection_def)
  have "reachable peer_init peer_step ?pm0"
    by (rule reachable.start) (simp add: peer_init_def)
  then have "reachable peer_init peer_step ?pm1"
    by (rule peer_reach)
      (use section_runs [of ?pm0 "Connecting (''t'', ModeSource) []" True] in
        \<open>simp add: locks_free_def\<close>)
  then have "reachable peer_init peer_step ?pm2"
    by (rule peer_reach)
      (use section_runs [of ?pm1 "Connecting (''t'', ModeDestination) []" True] in
        \<open>simp add: locks_free_def pm1 otherKey_def\<close>)
  moreover have "pc_phase (con ?pm2 0) = Registered" "length (pm_cons ?pm2) = 2"
    by (simp_all add: connect_begin_def Let_def upd_con_def otherKey_def associate_def)
  then have "peer_step ?pm2 paired"
    unfolding paired_def by (intro starts) simp_all
  ultimately show ?thesis by (rule peer_reach)
qed

theorem peers_stay_in_their_tunnel_witness:
  "pc_associated (con paired 0) = pm_map paired (otherKey (''t'', ModeSource))"
  using peers_stay_in_their_tunnel [OF paired_reachable] paired_con(2) by simp

text \<open>The first connection reads \<open>m\<close>, and passes it on.\<close>

abbreviation reading_of :: "message \<Rightarrow> peerConManager \<Rightarrow> peerConManager" where
  "reading_of m pm \<equiv>
     upd_con 0 (\<lambda>c. c\<lparr>pc_read := Some m, pc_received := pc_received c @ [m]\<rparr>) pm"

abbreviation reading :: "peerConManager \<Rightarrow> peerConManager" where
  "reading \<equiv> reading_of zero_message"

abbreviation passing_of :: "message \<Rightarrow> peerConManager \<Rightarrow> peerConManager" where
  "passing_of m pm \<equiv> upd_con 0 (\<lambda>c. c\<lparr>pc_read := None, pc_waiting := False,
     pc_passed := pc_passed c @ [(pc_associated c, m)]\<rparr>) pm"

text \<open>
  C36 (safety): the end of a session can crash the server.  A state is reachable in which the reader
  of a running connection holds a message and passes it to the other connection of the tunnel,
  whose \<^verbatim>\<open>run\<close> has just closed its channel but whose \<^verbatim>\<open>connect\<close> has not yet dissociated the
  two: the send on the closed channel panics, in a goroutine that nothing recovers.
\<close>

theorem forward_can_panic:
  "\<exists>pm i m. reachable peer_init peer_step pm \<and> live pm i \<and> pc_read (con pm i) = Some m \<and>
     writeToAssociated i m pm = Panic"
proof -
  let ?a = "upd_con 1 (run_start True) paired"
  let ?b = "reading ?a"
  let ?r = "upd_con 1 (\<lambda>c. c\<lparr>pc_reading := False\<rparr>) ?b"
  let ?w = "upd_con 1 (\<lambda>c. c\<lparr>pc_writing := False\<rparr>) ?r"
  let ?c = "upd_con 1 (run_end True) ?w"
  have a: "peer_step paired ?a" by (rule starts) (simp_all add: paired_con)
  have b: "peer_step ?a ?b"
    by (rule reads) (simp_all add: paired_con con_upd_con)
  have r: "peer_step ?b ?r"
    by (rule reader_ends) (simp_all add: paired_con con_upd_con run_start_def)
  have w: "peer_step ?r ?w"
    by (rule writer_ends) (simp_all add: paired_con con_upd_con run_start_def)
  have c: "peer_step ?w ?c"
    by (rule stops) (simp_all add: paired_con con_upd_con run_start_def)
  have "writeToAssociated 0 zero_message ?c = Panic"
    by (simp add: writeToAssociated_def con_upd_con paired_con run_start_def run_end_def
        asyncWrite_def peerCon_close_def)
  moreover have "live ?c 0" "pc_read (con ?c 0) = Some zero_message"
    by (simp_all add: con_upd_con paired_con)
  ultimately show ?thesis
    using peer_reach [OF peer_reach [OF peer_reach [OF peer_reach [OF peer_reach
        [OF paired_reachable a] b] r] w] c] by blast
qed

text \<open>The way into the deadlock: the first connection fills the channel of the second.\<close>

definition filling :: "nat \<Rightarrow> peerConManager \<Rightarrow> bool" where
  "filling n pm \<longleftrightarrow>
     reachable peer_init peer_step pm \<and> pm_waiting pm = None \<and> pm_map pm = pm_map paired \<and>
     length (pm_cons pm) = 2 \<and> pc_phase (con pm 0) = Running \<and> pc_reading (con pm 0) \<and>
     pc_read (con pm 0) = None \<and> pc_associated (con pm 0) = Some 1 \<and>
     pc_phase (con pm 1) = Registered \<and> \<not> pc_chClosed (con pm 1) \<and>
     length (pc_chMessage (con pm 1)) = n \<and> pc_key (con pm 1) = (''t'', ModeDestination)"

lemma filling_0: "filling 0 paired"
  using paired_reachable by (simp add: filling_def paired_con newPeerConnection_def)

lemma filling_reads: "filling n pm \<Longrightarrow> reachable peer_init peer_step (reading pm)"
  unfolding filling_def by (elim conjE, erule peer_reach, intro reads) simp_all

lemma filling_Suc:
  assumes "filling n pm" and "n < chan_cap"
  shows "\<exists>pm'. filling (Suc n) pm'"
proof -
  define pm' where "pm' = upd_con 1 (\<lambda>c. c\<lparr>pc_chMessage := pc_chMessage c @ [zero_message],
      pc_accepted := pc_accepted c @ [(Some 0, zero_message)]\<rparr>) (reading pm)"
  have "writeToAssociated 0 zero_message (reading pm) = Return pm'"
    using assms by (simp add: writeToAssociated_def con_upd_con filling_def asyncWrite_def pm'_def)
      (simp add: upd_con_def)
  then have "peer_step (reading pm) (passing_of zero_message pm')"
    using assms(1) by (intro forwards) (simp_all add: filling_def con_upd_con)
  from peer_reach [OF filling_reads [OF assms(1)] this] show ?thesis
    using assms(1)
    by (intro exI [of _ "passing_of zero_message pm'"])
      (simp add: filling_def con_upd_con pm'_def)
qed

lemma filling_full: "\<exists>pm. filling chan_cap pm"
proof -
  have "n \<le> chan_cap \<Longrightarrow> \<exists>pm. filling n pm" for n
    by (induction n) (use filling_0 filling_Suc in \<open>auto simp: Suc_le_eq\<close>)
  then show ?thesis by blast
qed

text \<open>
  The deadlock: the second connection waits, with the manager's lock, for the lock of the first,
  whose reader holds it and waits for room in a channel that nobody empties any more.
\<close>

definition stuck :: "peerConManager \<Rightarrow> bool" where
  "stuck pm \<longleftrightarrow>
     pm_waiting pm = Some (Leaving 1) \<and> pm_map pm = pm_map paired \<and> 2 \<le> length (pm_cons pm) \<and>
     pc_phase (con pm 0) = Running \<and> pc_reading (con pm 0) \<and> pc_read (con pm 0) \<noteq> None \<and>
     pc_waiting (con pm 0) \<and> pc_associated (con pm 0) = Some 1 \<and>
     pc_phase (con pm 1) = Ended \<and> \<not> pc_chClosed (con pm 1) \<and>
     chan_cap \<le> length (pc_chMessage (con pm 1)) \<and> pc_key (con pm 1) = (''t'', ModeDestination)"

lemma stuck_upd:
  assumes "stuck pm"
    and "i = 0 \<Longrightarrow> pc_phase (f (con pm i)) = Running \<and> pc_reading (f (con pm i)) \<and> pc_read (f (con pm i)) \<noteq> None \<and>
      pc_waiting (f (con pm i)) \<and> pc_associated (f (con pm i)) = Some 1"
    and "i = 1 \<Longrightarrow> pc_phase (f (con pm i)) = Ended \<and> \<not> pc_chClosed (f (con pm i)) \<and>
      length (pc_chMessage (con pm i)) \<le> length (pc_chMessage (f (con pm i))) \<and>
      pc_key (f (con pm i)) = pc_key (con pm i)"
  shows "stuck (upd_con i f pm)"
  using assms by (auto simp: stuck_def con_upd_con)

lemma stuck_send:
  assumes "stuck pm" and "asyncWrite f m (con pm j) = Return c"
  shows "stuck (pm\<lparr>pm_cons := (pm_cons pm)[j := c]\<rparr>)"
proof -
  have "pm\<lparr>pm_cons := (pm_cons pm)[j := c]\<rparr> = upd_con j (\<lambda>_. c) pm"
    by (simp add: upd_con_def)
  also have "stuck \<dots>"
    using assms by (intro stuck_upd) (auto simp: asyncWrite_Return stuck_def)
  finally show ?thesis .
qed

lemma stuck_step: "peer_step pm pm' \<Longrightarrow> stuck pm \<Longrightarrow> stuck pm'"
proof (induction rule: peer_step.induct)
  case (section_resumes pm w ok)
  then have "0 \<in> locks_needed w pm" "pc_waiting (con pm 0)"
    by (auto simp: stuck_def paired_con otherKey_def)
  then show ?case using section_resumes by (auto simp: locks_free_def)
next
  case (forwards pm i m pm')
  have "writeToAssociated 0 m pm = Blocked"
    using forwards(4) by (simp add: stuck_def writeToAssociated_def asyncWrite_def)
  then have "i \<noteq> 0" using forwards(3) by (metis outcome.distinct(3))
  moreover have "stuck pm'"
    using forwards stuck_send
    by (auto simp: writeToAssociated_def split: option.splits outcome.splits)
  moreover have "i \<noteq> 1" using forwards by (auto simp: stuck_def)
  ultimately show ?case by (intro stuck_upd) simp_all
next
  case (writes pm i)
  have "i \<noteq> 1" using writes by (auto simp: stuck_def)
  with writes show ?case
    by (intro stuck_upd) (auto simp: write_one_def stuck_def split: list.splits)
next
  case (write_fails pm i)
  have "i \<noteq> 1" using write_fails by (auto simp: stuck_def)
  with write_fails show ?case
    by (intro stuck_upd) (auto simp: write_fail_def stuck_def split: list.splits)
next
  case (debug_send tunnelID md m pm pm')
  then show ?case
    using stuck_send by (auto simp: sendToPeer_def split: option.splits outcome.splits)
qed (rule stuck_upd; auto simp: stuck_def | simp add: stuck_def)+

lemma stuck_reachable: "reachable (\<lambda>s. s = pm) peer_step pm' \<Longrightarrow> stuck pm \<Longrightarrow> stuck pm'"
  by (induction rule: reachable.induct) (auto intro: stuck_step)

text \<open>
  C35 (liveness): the manager can deadlock.  A state is reachable in which a \<^verbatim>\<open>connect\<close> that leaves
  holds the manager's lock and waits for the lock of the other connection, and from which no run
  ever gets out: the channel of a connection whose service ids could not be sent has no writer,
  and the other connection's reader waits for room in it with its lock held.  No connection of
  any tunnel is registered or removed any more.
\<close>

theorem manager_can_deadlock:
  "\<exists>pm. reachable peer_init peer_step pm \<and>
     (\<forall>pm'. reachable (\<lambda>s. s = pm) peer_step pm' \<longrightarrow>
        pm_waiting pm' = Some (Leaving 1) \<and> pm_map pm' = pm_map pm)"
proof -
  obtain pm where pm: "filling chan_cap pm" using filling_full by blast
  let ?a = "upd_con 0 (\<lambda>c. c\<lparr>pc_waiting := True\<rparr>) (reading pm)"
  let ?b = "upd_con 1 (run_start False) ?a"
  let ?c = "?b\<lparr>pm_waiting := Some (Leaving 1)\<rparr>"
  have a: "peer_step (reading pm) ?a"
    by (rule waits_for_room [of _ _ zero_message])
      (use pm in \<open>simp_all add: filling_def con_upd_con writeToAssociated_def asyncWrite_def\<close>)
  have b: "peer_step ?a ?b"
    by (rule starts) (use pm in \<open>simp_all add: filling_def con_upd_con\<close>)
  have c: "peer_step ?b ?c"
    by (rule section_waits)
      (use pm in \<open>simp_all add: filling_def con_upd_con run_start_def locks_free_def paired_con
        otherKey_def\<close>)
  have reach: "reachable peer_init peer_step ?c"
    by (rule peer_reach [OF peer_reach [OF peer_reach [OF filling_reads [OF pm] a] b] c])
  have "stuck ?c"
    using pm by (simp add: stuck_def filling_def con_upd_con run_start_def)
  then have s: "stuck pm'" if "reachable (\<lambda>s. s = ?c) peer_step pm'" for pm'
    using stuck_reachable [OF that] by blast
  have m: "pm_map ?c = pm_map paired" using pm by (simp add: filling_def)
  have "pm_waiting pm' = Some (Leaving 1) \<and> pm_map pm' = pm_map ?c"
    if "reachable (\<lambda>s. s = ?c) peer_step pm'" for pm'
    using s [OF that] unfolding m stuck_def by blast
  with reach show ?thesis by blast
qed

theorem manager_can_deadlock_witness:
  "\<exists>pm. reachable peer_init peer_step pm \<and> pm_waiting pm = Some (Leaving 1)"
  using manager_can_deadlock by (blast intro: reachable.start)

lemma expired_tunnel_iff:
  "0 < now \<Longrightarrow> expired_tunnel now store i \<longleftrightarrow>
     (\<forall>t. tunnel_at store i = Some t \<longrightarrow> t_LifetimeAt t < now)"
  by (auto simp: expired_tunnel_def GetTunnel_def table_getWithKey_def zero_Tunnel_def
      zero_time_def split: option.splits)

lemma close_keys_con:
  assumes "map_ok pm" and "distinct order"
  shows "pm_map (close_keys control_ok expired order pm) = pm_map pm \<and>
    (\<forall>i. con (close_keys control_ok expired order pm) i =
       (if pm_map pm (pc_key (con pm i)) = Some i \<and> pc_key (con pm i) \<in> set order \<and>
           expired (fst (pc_key (con pm i)))
        then peerCon_close (control_ok (pc_key (con pm i))) (con pm i) else con pm i))"
  using assms
proof (induction control_ok expired order pm rule: close_keys.induct)
  case (2 control_ok expired key order pm)
  let ?pm = "case pm_map pm key of
      Some i \<Rightarrow> if expired (fst key) then upd_con i (peerCon_close (control_ok key)) pm else pm
    | None \<Rightarrow> pm"
  have same: "pc_key (con (upd_con j (peerCon_close ok) pm) i) = pc_key (con pm i)"
    "pc_associated (con (upd_con j (peerCon_close ok) pm) i) = pc_associated (con pm i)" for i j ok
    by (auto simp: con_upd_con)
  then have "map_ok (upd_con j (peerCon_close ok) pm)" for j ok
    using 2(2) by (simp add: map_ok_def)
  then have "map_ok ?pm" using 2(2) by (simp split: option.splits)
  with 2 have IH: "pm_map (close_keys control_ok expired order ?pm) = pm_map ?pm \<and>
    (\<forall>i. con (close_keys control_ok expired order ?pm) i =
       (if pm_map ?pm (pc_key (con ?pm i)) = Some i \<and> pc_key (con ?pm i) \<in> set order \<and>
           expired (fst (pc_key (con ?pm i)))
        then peerCon_close (control_ok (pc_key (con ?pm i))) (con ?pm i) else con ?pm i))"
    by simp
  have m: "pm_map ?pm = pm_map pm" by (simp split: option.splits)
  have k: "pc_key (con ?pm i) = pc_key (con pm i)" for i
    using same by (simp split: option.splits)
  have c: "con ?pm i = (if pm_map pm key = Some i \<and> expired (fst key)
      then peerCon_close (control_ok key) (con pm i) else con pm i)" for i
    using map_okD(1) [OF 2(2)] by (auto simp: con_upd_con split: option.splits)
  show ?case
  proof (intro conjI allI)
    show "pm_map (close_keys control_ok expired (key # order) pm) = pm_map pm"
      unfolding close_keys.simps IH [THEN conjunct1] m ..
    fix i
    show "con (close_keys control_ok expired (key # order) pm) i =
       (if pm_map pm (pc_key (con pm i)) = Some i \<and> pc_key (con pm i) \<in> set (key # order) \<and>
           expired (fst (pc_key (con pm i)))
        then peerCon_close (control_ok (pc_key (con pm i))) (con pm i) else con pm i)"
      unfolding close_keys.simps IH [THEN conjunct2, rule_format] m k
      using 2(3) map_okD(1,2) [OF 2(2), of key i] by (auto simp: con_upd_con split: option.splits)
  qed
qed simp

text \<open>
  The periodic check closes the connections of closed tunnels, and no others.
  In whatever order Go iterates the map, exactly the registered connections whose tunnel is not
  stored any more or is past its lifetime are closed; connections that were overwritten are not
  looked at, and the map is unchanged.
\<close>

theorem closeExpiredConnection_spec:
  assumes "reachable peer_init peer_step pm" and "distinct order" and "set order = dom (pm_map pm)"
    and "0 < now"
  shows "pm_map (closeExpiredConnection control_ok now store order pm) = pm_map pm \<and>
    (\<forall>i. con (closeExpiredConnection control_ok now store order pm) i =
       (if pm_map pm (pc_key (con pm i)) = Some i \<and>
           (\<forall>t. tunnel_at store (fst (pc_key (con pm i))) = Some t \<longrightarrow> t_LifetimeAt t < now)
        then peerCon_close (control_ok (pc_key (con pm i))) (con pm i) else con pm i))"
proof -
  have "map_ok pm"
    using peer_machine.reachable_inv [OF assms(1)] by (simp add: manager_inv_def peer_inv_def)
  from close_keys_con [OF this assms(2), of control_ok "expired_tunnel now store"]
  show ?thesis
    unfolding closeExpiredConnection_def using assms(3)
    by (auto simp: expired_tunnel_iff [OF assms(4)])
qed

theorem closeExpiredConnection_spec_witness:
  "pc_closed (con (closeExpiredConnection (\<lambda>_. True) 1 sample_store
      [(''t'', ModeSource), (''t'', ModeDestination)] paired) 0)"
proof -
  have "set [(''t'', ModeSource), (''t'', ModeDestination)] = dom (pm_map paired)"
    by (auto simp: paired_con split: if_splits)
  then have "con (closeExpiredConnection (\<lambda>_. True) 1 sample_store
      [(''t'', ModeSource), (''t'', ModeDestination)] paired) 0 = peerCon_close True (con paired 0)"
    using closeExpiredConnection_spec [OF paired_reachable _ _ zero_less_one,
        of "[(''t'', ModeSource), (''t'', ModeDestination)]" "\<lambda>_. True" sample_store]
    by (simp add: paired_con sample_store)
  then show ?thesis by (simp add: peerCon_close_def)
qed

end
