(* ===== verification/Workers.thy ===== *)
theory Workers
  imports Prelude
begin

text \<open>
  The goroutine per stream of the client, \<^verbatim>\<open>client/worker.go\<close>, and the map of them,
  \<^verbatim>\<open>client/workermanager.go\<close>.  A worker is a buffered channel of functions, a goroutine that
  runs them one after the other, a channel that holds the cancel function once, and a channel
  that is closed when the goroutine ends.  Functions are abstract (\<open>'f\<close>); what they do is the
  business of \<^verbatim>\<open>Aws_Client\<close>.
\<close>

section \<open>Worker\<close>

datatype worker_phase = NotStarted | Working | Terminated

record 'f worker =
  chExec :: "'f list"
  execCap :: nat
  chCancel :: bool           \<comment> \<open>the channel holds the cancel function\<close>
  chCancelClosed :: bool
  cancelled :: bool          \<comment> \<open>the context is done\<close>
  w_phase :: worker_phase    \<comment> \<open>\<open>Terminated\<close>: \<^verbatim>\<open>chTerminate\<close> is closed\<close>
  busy :: "'f option"        \<comment> \<open>the function that runs now\<close>
  executed :: "'f list"      \<comment> \<open>history: functions that have run\<close>
  w_accepted :: "'f list"      \<comment> \<open>history: functions that \<^verbatim>\<open>Exec\<close> put in the channel\<close>

definition NewWorker :: "nat \<Rightarrow> 'f worker" where
  "NewWorker n =
     \<lparr>chExec = [], execCap = n, chCancel = False, chCancelClosed = False, cancelled = False,
      w_phase = NotStarted, busy = None, executed = [], w_accepted = []\<rparr>"

text \<open>
  \<^verbatim>\<open>Start\<close>: the send on \<^verbatim>\<open>chCancel\<close> waits when the channel is full and panics when
  \<^verbatim>\<open>Stop\<close> has closed it, so a worker cannot be reused.
\<close>

definition Worker_Start :: "'f worker \<Rightarrow> 'f worker outcome" where
  "Worker_Start w =
     (if chCancelClosed w then Panic
      else if chCancel w then Blocked
      else Return (w\<lparr>chCancel := True, w_phase := Working\<rparr>))"

definition Worker_Exec :: "'f \<Rightarrow> 'f worker \<Rightarrow> 'f worker outcome" where
  "Worker_Exec f w =
     (if execCap w \<le> length (chExec w) then Blocked
      else Return (w\<lparr>chExec := chExec w @ [f], w_accepted := w_accepted w @ [f]\<rparr>))"

text \<open>The goroutine: \<^verbatim>\<open>select\<close> picks either ready case when the context is done.\<close>

inductive worker_step :: "'f worker \<Rightarrow> 'f worker \<Rightarrow> bool" where
  takes: "w_phase w = Working \<Longrightarrow> busy w = None \<Longrightarrow> chExec w = f # fs \<Longrightarrow>
    worker_step w (w\<lparr>chExec := fs, busy := Some f\<rparr>)"
| finishes: "w_phase w = Working \<Longrightarrow> busy w = Some f \<Longrightarrow>
    worker_step w (w\<lparr>busy := None, executed := executed w @ [f]\<rparr>)"
| quits: "w_phase w = Working \<Longrightarrow> busy w = None \<Longrightarrow> cancelled w \<Longrightarrow>
    worker_step w (w\<lparr>w_phase := Terminated\<rparr>)"

inductive_cases worker_stepE: "worker_step w w'"

text \<open>
  \<^verbatim>\<open>Stop\<close>: receiving from \<^verbatim>\<open>chCancel\<close> waits for ever on a worker that was never started, gives
  nothing when it is closed, and otherwise closes it, cancels the context and waits for the
  goroutine; \<open>cancel_ctx\<close> is the part before the wait.
\<close>

definition cancel_ctx :: "'f worker \<Rightarrow> 'f worker" where
  "cancel_ctx w = w\<lparr>chCancel := False, chCancelClosed := True, cancelled := True\<rparr>"

text \<open>
  The worker when \<^verbatim>\<open>Stop\<close> returns, if \<open>k\<close> of the waiting functions were still picked
  by the goroutine; the theorem \<open>Stop_runs_to_end\<close> below shows that these are its results.
\<close>

definition Worker_Stop :: "nat \<Rightarrow> 'f worker \<Rightarrow> 'f worker outcome" where
  "Worker_Stop k w =
     (if chCancel w then
        Return ((cancel_ctx w)\<lparr>w_phase := Terminated, busy := None,
          chExec := drop k (chExec w),
          executed := executed w @ (case busy w of None \<Rightarrow> [] | Some f \<Rightarrow> [f]) @ take k (chExec w)\<rparr>)
      else if chCancelClosed w then Return w
      else Blocked)"

section \<open>What a worker guarantees\<close>

definition worker_inv :: "'f worker \<Rightarrow> bool" where
  "worker_inv w \<longleftrightarrow>
     w_accepted w = executed w @ (case busy w of None \<Rightarrow> [] | Some f \<Rightarrow> [f]) @ chExec w \<and>
     length (chExec w) \<le> execCap w \<and>
     chCancelClosed w = cancelled w \<and>
     (case w_phase w of
        NotStarted \<Rightarrow> executed w = [] \<and> busy w = None \<and> \<not> chCancel w \<and> \<not> cancelled w
      | Working \<Rightarrow> chCancel w = (\<not> cancelled w)
      | Terminated \<Rightarrow> busy w = None \<and> cancelled w \<and> \<not> chCancel w)"

lemma NewWorker_inv [go_inv]: "worker_inv (NewWorker n)"
  by (simp add: worker_inv_def NewWorker_def)

lemma Worker_Start_inv [go_inv]: "worker_inv w \<Longrightarrow> Worker_Start w = Return w' \<Longrightarrow> worker_inv w'"
  by (cases "w_phase w") (auto simp: worker_inv_def Worker_Start_def split: if_splits)

lemma Worker_Exec_inv [go_inv]: "worker_inv w \<Longrightarrow> Worker_Exec f w = Return w' \<Longrightarrow> worker_inv w'"
  by (cases "w_phase w") (auto simp: worker_inv_def Worker_Exec_def split: if_splits option.splits)

lemma worker_step_inv [go_inv]: "worker_step w w' \<Longrightarrow> worker_inv w \<Longrightarrow> worker_inv w'"
  by (induction rule: worker_step.induct) (auto simp: worker_inv_def)

lemma cancel_ctx_inv: "worker_inv w \<Longrightarrow> chCancel w \<Longrightarrow> worker_inv (cancel_ctx w)"
  by (simp add: worker_inv_def cancel_ctx_def split: worker_phase.splits)

lemma Worker_Stop_inv [go_inv]:
  "worker_inv w \<Longrightarrow> Worker_Stop k w = Return w' \<Longrightarrow> worker_inv w'"
  by (auto simp: worker_inv_def Worker_Stop_def cancel_ctx_def split: if_splits)

text \<open>A worker in use: the caller starts it, sends functions and cancels; the goroutine runs.\<close>

inductive worker_use :: "'f worker \<Rightarrow> 'f worker \<Rightarrow> bool" where
  use_start: "Worker_Start w = Return w' \<Longrightarrow> worker_use w w'"
| use_exec: "Worker_Exec f w = Return w' \<Longrightarrow> worker_use w w'"
| use_cancel: "chCancel w \<Longrightarrow> worker_use w (cancel_ctx w)"
| use_step: "worker_step w w' \<Longrightarrow> worker_use w w'"

lemma worker_use_inv: "worker_use w w' \<Longrightarrow> worker_inv w \<Longrightarrow> worker_inv w'"
  by (induction rule: worker_use.induct)
    (auto intro: Worker_Start_inv Worker_Exec_inv cancel_ctx_inv worker_step_inv)

interpretation worker_machine: invariant_system "\<lambda>w. w = NewWorker n" worker_use worker_inv for n
  by unfold_locales (auto intro: NewWorker_inv worker_use_inv)

text \<open>The measure of a cancelled worker: two steps per waiting function, and one to quit.\<close>

definition steps_left :: "'f worker \<Rightarrow> nat" where
  "steps_left w =
     2 * length (chExec w) + (if busy w = None then 0 else 1) + (if w_phase w = Working then 1 else 0)"

lemma worker_step_decreases: "worker_step w w' \<Longrightarrow> steps_left w' < steps_left w"
  by (induction rule: worker_step.induct) (auto simp: steps_left_def)

lemma worker_step_length: "(worker_step ^^ n) w w' \<Longrightarrow> n + steps_left w' \<le> steps_left w"
proof (induction n arbitrary: w')
  case (Suc n)
  then obtain v where "(worker_step ^^ n) w v" "worker_step v w'" by (auto elim: relpowp_Suc_E)
  with Suc.IH [of v] worker_step_decreases [of v w'] show ?case by simp
qed simp

lemma worker_progress:
  "w_phase w = Working \<Longrightarrow> cancelled w \<Longrightarrow> \<exists>w'. worker_step w w'"
  by (cases "busy w") (auto intro: quits finishes)

text \<open>Every run of a cancelled worker to its end is a result of \<open>Worker_Stop\<close>.\<close>

definition worker_rest :: "'f worker \<Rightarrow> nat \<times> bool \<times> bool \<times> bool \<times> 'f list" where
  "worker_rest w = (execCap w, chCancel w, chCancelClosed w, cancelled w, w_accepted w)"

definition in_hand :: "'f worker \<Rightarrow> 'f list" where
  "in_hand w = (case busy w of None \<Rightarrow> [] | Some f \<Rightarrow> [f])"

lemma worker_step_queue:
  assumes "worker_step w w'"
  shows "\<exists>k. k \<le> length (chExec w) \<and> chExec w' = drop k (chExec w) \<and>
    executed w' @ in_hand w' = executed w @ in_hand w @ take k (chExec w) \<and>
    worker_rest w' = worker_rest w \<and> (w_phase w' = Terminated \<longrightarrow> busy w' = None)"
  using assms
proof (induction rule: worker_step.induct)
  case (takes w f fs)
  then show ?case by (intro exI [of _ 1]) (simp add: in_hand_def worker_rest_def)
next
  case (finishes w f)
  then show ?case by (intro exI [of _ 0]) (simp add: in_hand_def worker_rest_def)
next
  case (quits w)
  then show ?case by (intro exI [of _ 0]) (simp add: in_hand_def worker_rest_def)
qed

lemma worker_steps_queue:
  "worker_step\<^sup>*\<^sup>* w w' \<Longrightarrow> w_phase w = Working \<Longrightarrow>
    \<exists>k. k \<le> length (chExec w) \<and> chExec w' = drop k (chExec w) \<and>
    executed w' @ in_hand w' = executed w @ in_hand w @ take k (chExec w) \<and>
    worker_rest w' = worker_rest w \<and> (w_phase w' = Terminated \<longrightarrow> busy w' = None)"
proof (induction rule: rtranclp_induct)
  case base
  then show ?case by (intro exI [of _ 0]) simp
next
  case (step v w')
  then obtain k where k: "k \<le> length (chExec w)" "chExec v = drop k (chExec w)"
    "executed v @ in_hand v = executed w @ in_hand w @ take k (chExec w)"
    "worker_rest v = worker_rest w"
    by blast
  obtain j where j: "j \<le> length (chExec v)" "chExec w' = drop j (chExec v)"
    "executed w' @ in_hand w' = executed v @ in_hand v @ take j (chExec v)"
    "worker_rest w' = worker_rest v" "w_phase w' = Terminated \<longrightarrow> busy w' = None"
    using worker_step_queue [OF step(2)] by blast
  have "executed w' @ in_hand w' = executed w @ in_hand w @ take (k + j) (chExec w)"
    using k(2,3) j(3) by (metis append.assoc take_add)
  then show ?case
    using k j by (intro exI [of _ "k + j"]) (auto simp: add.commute)
qed

lemma worker_eqI:
  fixes v w :: "'f worker"
  assumes "chExec v = chExec w" "execCap v = execCap w" "chCancel v = chCancel w"
    "chCancelClosed v = chCancelClosed w" "cancelled v = cancelled w" "w_phase v = w_phase w"
    "busy v = busy w" "executed v = executed w" "w_accepted v = w_accepted w"
  shows "v = w"
  using assms by (cases v, cases w) simp

section \<open>Properties of a worker\<close>

text \<open>
  A worker runs functions one after the other, in the order they were sent.
  However a worker is used, what has run, then the function that runs now, then the channel, is
  exactly what \<^verbatim>\<open>Exec\<close> accepted; a terminated worker runs nothing, and the channel never
  holds more than its capacity.
\<close>

theorem worker_runs_in_order:
  assumes "reachable (\<lambda>w. w = NewWorker n) worker_use w"
  shows "w_accepted w = executed w @ (case busy w of None \<Rightarrow> [] | Some f \<Rightarrow> [f]) @ chExec w \<and>
    length (chExec w) \<le> execCap w \<and> (w_phase w = Terminated \<longrightarrow> busy w = None)"
  using worker_machine.reachable_inv [OF assms]
  by (simp add: worker_inv_def split: worker_phase.splits)

theorem worker_runs_in_order_witness:
  "\<exists>w. Worker_Exec (7 :: nat) (NewWorker 1) = Return w \<and> w_accepted w = executed w @ chExec w"
proof -
  let ?w = "(NewWorker 1)\<lparr>chExec := [7 :: nat], w_accepted := [7]\<rparr>"
  have e: "Worker_Exec 7 (NewWorker 1) = Return ?w"
    by (simp add: Worker_Exec_def NewWorker_def)
  then have "reachable (\<lambda>w. w = NewWorker 1) worker_use ?w"
    by (intro reachable_step1 [of _ "NewWorker 1"] use_exec) simp_all
  from worker_runs_in_order [OF this] e show ?thesis by (auto simp: NewWorker_def)
qed

text \<open>
  C30 (termination): \<^verbatim>\<open>Stop\<close> returns.  If every function returns, the goroutine of a cancelled
  worker makes at most two steps per waiting function and two more, it is never stuck before it
  has ended, and where it ends the worker is \<open>Worker_Stop k\<close> for the number \<open>k\<close> of waiting
  functions that were still picked: the rest of them never run.
\<close>

theorem Stop_runs_to_end:
  assumes "worker_inv w" and "chCancel w"
  shows "(\<forall>n w'. (worker_step ^^ n) (cancel_ctx w) w' \<longrightarrow> n \<le> 2 * length (chExec w) + 2) \<and>
    (\<forall>w'. worker_step\<^sup>*\<^sup>* (cancel_ctx w) w' \<longrightarrow>
       (if w_phase w' = Terminated then \<exists>k. Worker_Stop k w = Return w'
        else \<exists>w''. worker_step w' w''))"
proof -
  have w: "w_phase w = Working" using assms by (simp add: worker_inv_def split: worker_phase.splits)
  then have c: "w_phase (cancel_ctx w) = Working" "chExec (cancel_ctx w) = chExec w"
    "busy (cancel_ctx w) = busy w" "executed (cancel_ctx w) = executed w"
    by (simp_all add: cancel_ctx_def)
  have "n \<le> 2 * length (chExec w) + 2" if "(worker_step ^^ n) (cancel_ctx w) w'" for n w'
    using worker_step_length [OF that] c by (simp add: steps_left_def split: if_splits)
  moreover have "if w_phase w' = Terminated then \<exists>k. Worker_Stop k w = Return w'
        else \<exists>w''. worker_step w' w''" if steps: "worker_step\<^sup>*\<^sup>* (cancel_ctx w) w'" for w'
  proof -
    obtain k where k: "chExec w' = drop k (chExec w)"
      "executed w' @ in_hand w' = executed w @ in_hand w @ take k (chExec w)"
      "worker_rest w' = worker_rest (cancel_ctx w)" "w_phase w' = Terminated \<longrightarrow> busy w' = None"
      using worker_steps_queue [OF steps c(1)] c by (auto simp: in_hand_def)
    have "w_phase w' = Working \<or> w_phase w' = Terminated"
      using steps c(1) by (induction rule: rtranclp_induct) (auto elim: worker_stepE)
    moreover have "cancelled w'" using k(3) by (simp add: worker_rest_def cancel_ctx_def)
    moreover have "Worker_Stop k w = Return w'" if "w_phase w' = Terminated"
    proof -
      have "executed w' = executed w @ in_hand w @ take k (chExec w)" "busy w' = None"
        using k(2,4) that by (simp_all add: in_hand_def)
      with k(1,3) that show ?thesis
        unfolding Worker_Stop_def worker_rest_def cancel_ctx_def
        by (simp add: assms(2) in_hand_def worker_eqI)
    qed
    ultimately show ?thesis using worker_progress by (metis worker_phase.distinct(5))
  qed
  ultimately show ?thesis by blast
qed

theorem Stop_runs_to_end_witness:
  "\<exists>w. Worker_Start (NewWorker 10 :: nat worker) = Return w \<and>
     (\<forall>n w'. (worker_step ^^ n) (cancel_ctx w) w' \<longrightarrow> n \<le> 2)"
proof -
  obtain w where w: "Worker_Start (NewWorker 10 :: nat worker) = Return w" "chCancel w" "chExec w = []"
    by (simp add: Worker_Start_def NewWorker_def)
  have "worker_inv w" by (rule Worker_Start_inv [OF NewWorker_inv w(1)])
  from Stop_runs_to_end [OF this w(2)] w show ?thesis by auto
qed

end
