(* ===== verification/Worker_Manager.thy ===== *)
theory Worker_Manager
  imports Workers
begin

text \<open>
  The map of workers by stream, \<^verbatim>\<open>client/workermanager.go\<close>.  The workers live in a heap (the
  list \<open>mg_workers\<close>): a worker that the map no longer holds still exists, and so does its
  goroutine.  \<^verbatim>\<open>start\<close>, the body of \<^verbatim>\<open>stop\<close> and \<^verbatim>\<open>exec\<close> hold the manager's lock for their
  whole body; \<^verbatim>\<open>stop\<close> itself only starts a goroutine that runs its body later.
\<close>

section \<open>Model\<close>

record 'f workerManager =
  workerMap :: "int32 \<rightharpoonup> nat"
  mg_workers :: "'f worker list"
  bufSize :: nat
  mg_stopping :: "int32 list"   \<comment> \<open>goroutines that \<^verbatim>\<open>stop\<close> started and that have not run\<close>

definition new_manager :: "nat \<Rightarrow> 'f workerManager" where
  "new_manager n = \<lparr>workerMap = Map.empty, mg_workers = [], bufSize = n, mg_stopping = []\<rparr>"

definition mng_start :: "int32 \<Rightarrow> 'f workerManager \<Rightarrow> 'f workerManager outcome" where
  "mng_start streamID mng =
     (case Worker_Start (NewWorker (bufSize mng)) of
        Panic \<Rightarrow> Panic
      | Blocked \<Rightarrow> Blocked
      | Return worker \<Rightarrow>
          Return (mng\<lparr>mg_workers := mg_workers mng @ [worker],
                      workerMap := (workerMap mng)(streamID \<mapsto> length (mg_workers mng))\<rparr>))"

definition mng_exec :: "int32 \<Rightarrow> 'f \<Rightarrow> 'f workerManager \<Rightarrow> (bool \<times> 'f workerManager) outcome" where
  "mng_exec streamID fnc mng =
     (case workerMap mng streamID of
        None \<Rightarrow> Return (False, mng)
      | Some i \<Rightarrow>
          (case Worker_Exec fnc (mg_workers mng ! i) of
             Panic \<Rightarrow> Panic
           | Blocked \<Rightarrow> Blocked
           | Return worker \<Rightarrow> Return (True, mng\<lparr>mg_workers := (mg_workers mng)[i := worker]\<rparr>)))"

definition mng_stop :: "int32 \<Rightarrow> 'f workerManager \<Rightarrow> 'f workerManager" where
  "mng_stop streamID mng = mng\<lparr>mg_stopping := mg_stopping mng @ [streamID]\<rparr>"

text \<open>
  The body of the goroutine of \<^verbatim>\<open>stop\<close>; \<open>k\<close> is the number of waiting functions that the
  worker still picks before it ends.
\<close>

definition mng_stop_run :: "nat \<Rightarrow> int32 \<Rightarrow> 'f workerManager \<Rightarrow> 'f workerManager outcome" where
  "mng_stop_run k streamID mng =
     (let mng = mng\<lparr>mg_stopping := remove1 streamID (mg_stopping mng)\<rparr>
      in (case workerMap mng streamID of
            None \<Rightarrow> Return mng
          | Some i \<Rightarrow>
              (case Worker_Stop k (mg_workers mng ! i) of
                 Panic \<Rightarrow> Panic
               | Blocked \<Rightarrow> Blocked
               | Return worker \<Rightarrow>
                   Return (mng\<lparr>mg_workers := (mg_workers mng)[i := worker],
                               workerMap := (workerMap mng)(streamID := None)\<rparr>))))"

text \<open>\<^verbatim>\<open>getAll\<close>, in the order in which Go iterates the map.\<close>

definition mng_getAll :: "int32 list \<Rightarrow> 'f workerManager \<Rightarrow> nat list" where
  "mng_getAll order mng = List.map_filter (workerMap mng) order"

fun stop_workers :: "(nat \<Rightarrow> nat) \<Rightarrow> nat list \<Rightarrow> 'f workerManager \<Rightarrow> 'f workerManager outcome" where
  "stop_workers k [] mng = Return mng"
| "stop_workers k (i # is) mng =
     (case Worker_Stop (k i) (mg_workers mng ! i) of
        Panic \<Rightarrow> Panic
      | Blocked \<Rightarrow> Blocked
      | Return worker \<Rightarrow> stop_workers k is (mng\<lparr>mg_workers := (mg_workers mng)[i := worker]\<rparr>))"

definition mng_stopAll ::
  "(nat \<Rightarrow> nat) \<Rightarrow> int32 list \<Rightarrow> 'f workerManager \<Rightarrow> 'f workerManager outcome" where
  "mng_stopAll k order mng = stop_workers k (mng_getAll order mng) mng"

text \<open>The manager in use, and the goroutines of its workers.\<close>

inductive mng_step :: "'f workerManager \<Rightarrow> 'f workerManager \<Rightarrow> bool" where
  mng_starts: "mng_start streamID m = Return m' \<Longrightarrow> mng_step m m'"
| mng_execs: "mng_exec streamID f m = Return (b, m') \<Longrightarrow> mng_step m m'"
| mng_stops: "mng_step m (mng_stop streamID m)"
| mng_stop_runs: "streamID \<in> set (mg_stopping m) \<Longrightarrow> mng_stop_run k streamID m = Return m' \<Longrightarrow>
    mng_step m m'"
| mng_stops_all: "mng_stopAll ks order m = Return m' \<Longrightarrow> mng_step m m'"
| mng_works: "i < length (mg_workers m) \<Longrightarrow> worker_step (mg_workers m ! i) w \<Longrightarrow>
    mng_step m (m\<lparr>mg_workers := (mg_workers m)[i := w]\<rparr>)"

section \<open>Invariant\<close>

text \<open>
  Every worker is well formed, was started and has the capacity of the manager; the map points
  to workers, and to different ones for different streams.
\<close>

definition mng_worker_ok :: "nat \<Rightarrow> 'f worker \<Rightarrow> bool" where
  "mng_worker_ok n w \<longleftrightarrow>
     worker_inv w \<and> execCap w = n \<and> w_phase w \<noteq> NotStarted \<and>
     (cancelled w \<longrightarrow> w_phase w = Terminated)"

definition wmap_ok :: "nat \<Rightarrow> (int32 \<rightharpoonup> nat) \<Rightarrow> bool" where
  "wmap_ok l wm \<longleftrightarrow>
     (\<forall>s i. wm s = Some i \<longrightarrow> i < l) \<and> (\<forall>s s' i. wm s = Some i \<longrightarrow> wm s' = Some i \<longrightarrow> s = s')"

lemma wmap_okD:
  assumes "wmap_ok l wm"
  shows "wm s = Some i \<Longrightarrow> i < l" "wm s = Some i \<Longrightarrow> wm s' = Some i \<Longrightarrow> s = s'"
  using assms unfolding wmap_ok_def by blast+

lemma wmap_ok_new: "wmap_ok l wm \<Longrightarrow> wmap_ok (Suc l) (wm(s \<mapsto> l))"
  unfolding wmap_ok_def by (auto simp: less_Suc_eq)

lemma wmap_ok_del: "wmap_ok l wm \<Longrightarrow> wmap_ok l (wm(s := None))"
  unfolding wmap_ok_def by auto

definition mng_inv :: "nat \<Rightarrow> 'f workerManager \<Rightarrow> bool" where
  "mng_inv n m \<longleftrightarrow>
     bufSize m = n \<and> (\<forall>w \<in> set (mg_workers m). mng_worker_ok n w) \<and>
     wmap_ok (length (mg_workers m)) (workerMap m)"

lemma mng_invD:
  assumes "mng_inv n m"
  shows "bufSize m = n" "workerMap m s = Some i \<Longrightarrow> i < length (mg_workers m)"
    "i < length (mg_workers m) \<Longrightarrow> mng_worker_ok n (mg_workers m ! i)"
    "workerMap m s = Some i \<Longrightarrow> workerMap m s' = Some i \<Longrightarrow> s = s'"
  using assms by (auto simp: mng_inv_def dest: wmap_okD)

lemma new_manager_inv [go_inv]: "mng_inv n (new_manager n)"
  by (simp add: mng_inv_def new_manager_def wmap_ok_def)

lemma mng_start_Return:
  "mng_start streamID m = Return (m\<lparr>mg_workers := mg_workers m @ [(NewWorker (bufSize m))
       \<lparr>chCancel := True, w_phase := Working\<rparr>],
     workerMap := (workerMap m)(streamID \<mapsto> length (mg_workers m))\<rparr>)"
  by (simp add: mng_start_def Worker_Start_def NewWorker_def)

lemma mng_worker_ok_new:
  "mng_worker_ok n ((NewWorker n)\<lparr>chCancel := True, w_phase := Working\<rparr>)"
  by (simp add: mng_worker_ok_def worker_inv_def NewWorker_def)

lemma mng_worker_ok_Exec:
  "mng_worker_ok n w \<Longrightarrow> Worker_Exec f w = Return w' \<Longrightarrow> mng_worker_ok n w'"
  using Worker_Exec_inv [of w f w'] by (auto simp: mng_worker_ok_def Worker_Exec_def split: if_splits)

lemma mng_worker_ok_Stop:
  "mng_worker_ok n w \<Longrightarrow> Worker_Stop k w = Return w' \<Longrightarrow> mng_worker_ok n w'"
  using Worker_Stop_inv [of w k w']
  by (auto simp: mng_worker_ok_def Worker_Stop_def cancel_ctx_def split: if_splits)

lemma mng_worker_ok_step: "mng_worker_ok n w \<Longrightarrow> worker_step w w' \<Longrightarrow> mng_worker_ok n w'"
  using worker_step_inv [of w w'] by (auto simp: mng_worker_ok_def elim: worker_stepE)

lemma mng_inv_worker:
  assumes "mng_inv n m" and "mng_worker_ok n w"
  shows "mng_inv n (m\<lparr>mg_workers := (mg_workers m)[i := w]\<rparr>)"
  using assms set_update_subset_insert [of "mg_workers m" i w] by (auto simp: mng_inv_def)

lemma mng_start_inv [go_inv]: "mng_inv n m \<Longrightarrow> mng_start s m = Return m' \<Longrightarrow> mng_inv n m'"
  by (auto simp: mng_start_Return mng_inv_def mng_worker_ok_new wmap_ok_new)

lemma mng_exec_inv [go_inv]:
  assumes "mng_inv n m" and "mng_exec s f m = Return (b, m')"
  shows "mng_inv n m'"
proof (cases "workerMap m s")
  case None
  then show ?thesis using assms by (simp add: mng_exec_def)
next
  case (Some i)
  then obtain w where w: "Worker_Exec f (mg_workers m ! i) = Return w"
    "m' = m\<lparr>mg_workers := (mg_workers m)[i := w]\<rparr>"
    using assms(2) by (auto simp: mng_exec_def split: outcome.splits)
  have "mng_worker_ok n w"
    using mng_worker_ok_Exec [OF mng_invD(3) [OF assms(1)] w(1)] mng_invD(2) [OF assms(1) Some] .
  then show ?thesis unfolding w(2) by (rule mng_inv_worker [OF assms(1)])
qed

lemma mng_stop_inv [go_inv]: "mng_inv n m \<Longrightarrow> mng_inv n (mng_stop s m)"
  by (simp add: mng_inv_def mng_stop_def)

text \<open>\<^verbatim>\<open>Worker.Stop\<close> of a worker that was started returns.\<close>

lemma Worker_Stop_returns:
  assumes "mng_worker_ok n w"
  shows "\<exists>w'. Worker_Stop k w = Return w' \<and> w_phase w' = Terminated"
  using assms
  by (cases "w_phase w") (auto simp: mng_worker_ok_def worker_inv_def Worker_Stop_def cancel_ctx_def)

lemma stop_workers_inv:
  "mng_inv n m \<Longrightarrow> set is \<subseteq> {..<length (mg_workers m)} \<Longrightarrow> stop_workers k is m = Return m' \<Longrightarrow>
     mng_inv n m' \<and> workerMap m' = workerMap m \<and> length (mg_workers m') = length (mg_workers m)"
proof (induction k "is" m rule: stop_workers.induct)
  case (2 k i "is" m)
  then obtain w where w: "Worker_Stop (k i) (mg_workers m ! i) = Return w"
    by (auto split: outcome.splits)
  moreover have "mng_worker_ok n w"
    using mng_worker_ok_Stop [OF mng_invD(3) [OF 2(2)] w] 2(3) by simp
  then have "mng_inv n (m\<lparr>mg_workers := (mg_workers m)[i := w]\<rparr>)"
    by (rule mng_inv_worker [OF 2(2)])
  ultimately show ?case using 2 by simp
qed simp

lemma mng_getAll_range: "mng_inv n m \<Longrightarrow> set (mng_getAll order m) \<subseteq> {..<length (mg_workers m)}"
  using mng_invD(2) [of n m] by (auto simp: mng_getAll_def List.map_filter_def)

lemma mng_stopAll_inv [go_inv]:
  "mng_inv n m \<Longrightarrow> mng_stopAll k order m = Return m' \<Longrightarrow>
     mng_inv n m' \<and> workerMap m' = workerMap m \<and> length (mg_workers m') = length (mg_workers m)"
  unfolding mng_stopAll_def by (rule stop_workers_inv [OF _ mng_getAll_range])

lemma mng_stop_run_inv [go_inv]:
  assumes "mng_inv n m" and "mng_stop_run k s m = Return m'"
  shows "mng_inv n m'"
proof -
  let ?m = "m\<lparr>mg_stopping := remove1 s (mg_stopping m)\<rparr>"
  have inv: "mng_inv n ?m" using assms(1) by (simp add: mng_inv_def)
  show ?thesis
  proof (cases "workerMap m s")
    case None
    then show ?thesis using assms(2) inv by (simp add: mng_stop_run_def)
  next
    case (Some i)
    then obtain w where w: "Worker_Stop k (mg_workers m ! i) = Return w"
      "m' = ?m\<lparr>mg_workers := (mg_workers m)[i := w], workerMap := (workerMap m)(s := None)\<rparr>"
      using assms(2) by (auto simp: mng_stop_run_def Let_def split: outcome.splits)
    have "mng_worker_ok n w"
      using mng_worker_ok_Stop [OF mng_invD(3) [OF assms(1)] w(1)] mng_invD(2) [OF assms(1) Some] .
    from mng_inv_worker [OF inv this, of i] show ?thesis
      by (simp add: mng_inv_def w(2) wmap_ok_del)
  qed
qed

lemma mng_step_inv: "mng_step m m' \<Longrightarrow> mng_inv n m \<Longrightarrow> mng_inv n m'"
proof (induction rule: mng_step.induct)
  case (mng_works i m w)
  then show ?case using mng_inv_worker mng_worker_ok_step mng_invD(3) by blast
qed (auto intro: mng_start_inv mng_exec_inv mng_stop_inv mng_stop_run_inv dest: mng_stopAll_inv)

interpretation worker_manager: invariant_system "\<lambda>m. m = new_manager n" mng_step "mng_inv n" for n
  by unfold_locales (auto intro: new_manager_inv mng_step_inv)

section \<open>Properties\<close>

text \<open>What stopping some workers does to each of them.\<close>

lemma stop_workers_at:
  "mng_inv n m \<Longrightarrow> set is \<subseteq> {..<length (mg_workers m)} \<Longrightarrow>
     \<exists>m'. stop_workers k is m = Return m' \<and> mng_inv n m' \<and> workerMap m' = workerMap m \<and>
       length (mg_workers m') = length (mg_workers m) \<and>
       (\<forall>j \<in> set is. w_phase (mg_workers m' ! j) = Terminated) \<and>
       (\<forall>j. j \<notin> set is \<longrightarrow> mg_workers m' ! j = mg_workers m ! j)"
proof (induction k "is" m rule: stop_workers.induct)
  case (2 k i "is" m)
  obtain w where w: "Worker_Stop (k i) (mg_workers m ! i) = Return w" "w_phase w = Terminated"
    using Worker_Stop_returns [OF mng_invD(3) [OF 2(2)]] 2(3) by fastforce
  let ?m = "m\<lparr>mg_workers := (mg_workers m)[i := w]\<rparr>"
  have "mng_worker_ok n w"
    using mng_worker_ok_Stop [OF mng_invD(3) [OF 2(2)] w(1)] 2(3) by simp
  then have "mng_inv n ?m" by (rule mng_inv_worker [OF 2(2)])
  then obtain m' where m': "stop_workers k is ?m = Return m'" "mng_inv n m'"
    "workerMap m' = workerMap m" "length (mg_workers m') = length (mg_workers m)"
    "\<forall>j \<in> set is. w_phase (mg_workers m' ! j) = Terminated"
    "\<forall>j. j \<notin> set is \<longrightarrow> mg_workers m' ! j = mg_workers ?m ! j"
    using 2 w by fastforce
  have "w_phase (mg_workers m' ! i) = Terminated"
    using m'(5,6) w(2) 2(3) by (cases "i \<in> set is") simp_all
  with m' w show ?case by simp
qed simp

fun mng_exec_all :: "int32 \<Rightarrow> 'f list \<Rightarrow> 'f workerManager \<Rightarrow> (bool list \<times> 'f workerManager) outcome" where
  "mng_exec_all s [] m = Return ([], m)"
| "mng_exec_all s (f # fs) m =
     (case mng_exec s f m of
        Panic \<Rightarrow> Panic
      | Blocked \<Rightarrow> Blocked
      | Return (b, m1) \<Rightarrow>
          (case mng_exec_all s fs m1 of
             Panic \<Rightarrow> Panic
           | Blocked \<Rightarrow> Blocked
           | Return (bs, m2) \<Rightarrow> Return (b # bs, m2)))"

lemma mng_exec_all_at:
  assumes "workerMap m s = Some i" and "i < length (mg_workers m)"
  shows "mng_exec_all s fs m =
    (let w = mg_workers m ! i
     in if length fs = 0 then Return ([], m)
        else if length (chExec w) + length fs \<le> execCap w then
          Return (replicate (length fs) True,
            m\<lparr>mg_workers := (mg_workers m)
               [i := w\<lparr>chExec := chExec w @ fs, w_accepted := w_accepted w @ fs\<rparr>]\<rparr>)
        else Blocked)"
  using assms
proof (induction fs arbitrary: m)
  case (Cons f fs)
  let ?w = "mg_workers m ! i"
  let ?w1 = "?w\<lparr>chExec := chExec ?w @ [f], w_accepted := w_accepted ?w @ [f]\<rparr>"
  let ?m1 = "m\<lparr>mg_workers := (mg_workers m)[i := ?w1]\<rparr>"
  show ?case
  proof (cases "execCap ?w \<le> length (chExec ?w)")
    case True
    then show ?thesis using Cons.prems by (simp add: mng_exec_def Worker_Exec_def Let_def)
  next
    case False
    then have e: "mng_exec s f m = Return (True, ?m1)"
      using Cons.prems by (simp add: mng_exec_def Worker_Exec_def)
    have "fs = [] \<or> length fs \<noteq> 0" by auto
    then show ?thesis
      using Cons.IH [of ?m1] Cons.prems False unfolding mng_exec_all.simps e
      by (auto simp: Let_def)
  qed
qed simp

text \<open>
  A stopped stream still takes functions.  \<^verbatim>\<open>stopAll\<close> ends the workers but leaves
  them in the map.  For a stream that was in the map, \<^verbatim>\<open>exec\<close> goes on answering that the
  function was accepted, though it never runs, until the channel of the dead worker is full; the
  next \<^verbatim>\<open>exec\<close> waits for ever, with the manager's lock held.
\<close>

theorem stopAll_leaves_dead_workers:
  assumes "reachable (\<lambda>m. m = new_manager n) mng_step m" and "mng_stopAll k order m = Return m'"
    and "workerMap m s = Some i" and "s \<in> set order"
    and "room = n - length (chExec (mg_workers m' ! i))"
  shows "w_phase (mg_workers m' ! i) = Terminated \<and>
    (\<forall>fs. fs \<noteq> [] \<longrightarrow> (if length fs \<le> room
       then \<exists>m''. mng_exec_all s fs m' = Return (replicate (length fs) True, m'') \<and>
              w_phase (mg_workers m'' ! i) = Terminated \<and>
              executed (mg_workers m'' ! i) = executed (mg_workers m' ! i)
       else mng_exec_all s fs m' = Blocked))"
proof -
  have inv: "mng_inv n m" by (rule worker_manager.reachable_inv [OF assms(1)])
  have i: "i < length (mg_workers m)" by (rule mng_invD(2) [OF inv assms(3)])
  have "i \<in> set (mng_getAll order m)"
    using assms(3,4) by (force simp: mng_getAll_def List.map_filter_def)
  with stop_workers_at [OF inv mng_getAll_range [OF inv], of k order] assms(2) i
  have m': "mng_inv n m'" "workerMap m' = workerMap m" "i < length (mg_workers m')"
    "w_phase (mg_workers m' ! i) = Terminated"
    by (auto simp: mng_stopAll_def)
  then have w: "execCap (mg_workers m' ! i) = n" "length (chExec (mg_workers m' ! i)) \<le> n"
    using mng_invD(3) [OF m'(1,3)] by (auto simp: mng_worker_ok_def worker_inv_def)
  have "mng_exec_all s fs m' =
    (if length fs = 0 then Return ([], m')
     else if length fs \<le> room then
       Return (replicate (length fs) True, m'\<lparr>mg_workers := (mg_workers m')
         [i := (mg_workers m' ! i)\<lparr>chExec := chExec (mg_workers m' ! i) @ fs,
                 w_accepted := w_accepted (mg_workers m' ! i) @ fs\<rparr>]\<rparr>)
     else Blocked)" for fs
    using mng_exec_all_at [of m' s i fs] m' w assms(3,5) by (simp add: Let_def le_diff_conv2 add.commute)
  then show ?thesis using m'(3,4) by auto
qed

lemma one_worker:
  "reachable (\<lambda>m. m = new_manager n) mng_step
     \<lparr>workerMap = [s \<mapsto> 0], mg_workers = [(NewWorker n)\<lparr>chCancel := True, w_phase := Working\<rparr>],
      bufSize = n, mg_stopping = []\<rparr>"
  by (rule reachable_step1 [of _ "new_manager n"], simp, rule mng_starts [of s])
    (simp add: mng_start_Return, simp add: new_manager_def)

theorem stopAll_leaves_dead_workers_witness:
  "\<exists>m'. mng_stopAll (\<lambda>_. 0) [7]
      \<lparr>workerMap = [7 \<mapsto> 0], mg_workers = [(NewWorker 10 :: nat worker)\<lparr>chCancel := True, w_phase := Working\<rparr>],
       bufSize = 10, mg_stopping = []\<rparr> = Return m' \<and>
     mng_exec_all 7 [0 ..< 11] m' = Blocked"
proof -
  let ?m = "\<lparr>workerMap = [7 \<mapsto> 0], mg_workers = [(NewWorker 10 :: nat worker)\<lparr>chCancel := True, w_phase := Working\<rparr>],
       bufSize = 10, mg_stopping = []\<rparr>"
  obtain m' where m': "mng_stopAll (\<lambda>_. 0) [7] ?m = Return m'" "chExec (mg_workers m' ! 0) = []"
    by (simp add: mng_stopAll_def mng_getAll_def List.map_filter_def Worker_Stop_def NewWorker_def
        cancel_ctx_def)
  from stopAll_leaves_dead_workers [OF one_worker m'(1), of 7 0 10] m' show ?thesis
    by fastforce
qed

text \<open>
  A late stop hits the wrong worker.  \<^verbatim>\<open>stop\<close> runs later, in a goroutine of its
  own.  When the stream is started again before it runs, it ends the \<^emph>\<open>new\<close> worker and takes the
  stream out of the map, so that functions for the stream are refused; the old worker runs on,
  and no later \<^verbatim>\<open>stop\<close> or \<^verbatim>\<open>stopAll\<close> ever reaches it.
\<close>

theorem late_stop_hits_new_worker:
  fixes m :: "'f workerManager"
  assumes "reachable (\<lambda>m. m = new_manager n) mng_step m"
    and "workerMap m s = Some i" and "w_phase (mg_workers m ! i) = Working"
    and "mng_start s (mng_stop s m) = Return m1" and "mng_stop_run k s m1 = Return m2"
  shows "w_phase (mg_workers m2 ! length (mg_workers m)) = Terminated \<and>
    mng_exec s f m2 = Return (False, m2) \<and>
    mg_workers m2 ! i = mg_workers m ! i \<and> i \<notin> ran (workerMap m2)"
proof -
  have inv: "mng_inv n m" by (rule worker_manager.reachable_inv [OF assms(1)])
  have i: "i < length (mg_workers m)" by (rule mng_invD(2) [OF inv assms(2)])
  let ?l = "length (mg_workers m)"
  let ?new = "(NewWorker (bufSize m) :: 'f worker)\<lparr>chCancel := True, w_phase := Working\<rparr>"
  have m1: "workerMap m1 = (workerMap m)(s \<mapsto> ?l)" "mg_workers m1 = mg_workers m @ [?new]"
    using assms(4) by (auto simp: mng_start_Return mng_stop_def)
  obtain w where w: "Worker_Stop k ?new = Return w" "w_phase w = Terminated"
    by (simp add: Worker_Stop_def)
  then have m2: "workerMap m2 = (workerMap m)(s := None)" "mg_workers m2 = mg_workers m @ [w]"
    using assms(5) m1 by (auto simp: mng_stop_run_def Let_def)
  have "i \<notin> ran ((workerMap m)(s := None))"
    using mng_invD(4) [OF inv assms(2)] by (auto simp: ran_def split: if_splits)
  then show ?thesis
    using w i m2 by (simp add: mng_exec_def nth_append)
qed

theorem late_stop_hits_new_worker_witness:
  "\<exists>m1 m2. mng_start 7 (mng_stop 7 \<lparr>workerMap = [7 \<mapsto> 0],
       mg_workers = [(NewWorker 10 :: nat worker)\<lparr>chCancel := True, w_phase := Working\<rparr>],
       bufSize = 10, mg_stopping = []\<rparr>) = Return m1 \<and>
     mng_stop_run 0 7 m1 = Return m2 \<and> mng_exec 7 0 m2 = Return (False, m2)"
proof -
  let ?m = "\<lparr>workerMap = [7 \<mapsto> 0], mg_workers = [(NewWorker 10 :: nat worker)\<lparr>chCancel := True, w_phase := Working\<rparr>],
       bufSize = 10, mg_stopping = []\<rparr>"
  obtain m1 where m1: "mng_start 7 (mng_stop 7 ?m) = Return m1"
    by (simp add: mng_start_Return)
  then obtain m2 where m2: "mng_stop_run 0 7 m1 = Return m2"
    by (auto simp: mng_start_Return mng_stop_def mng_stop_run_def Worker_Stop_def)
  have "mng_exec 7 0 m2 = Return (False, m2)"
    using late_stop_hits_new_worker [OF one_worker _ _ m1 m2, of 0 0] by simp
  with m1 m2 show ?thesis by blast
qed

end
