(* ===== verification/Aws_Client.thy ===== *)
theory Aws_Client
  imports Message_RW Worker_Manager
begin

text \<open>
  The client of the tunnelling service, \<^verbatim>\<open>client/awsclient.go\<close>.

  The state of the \<^verbatim>\<open>awsClient\<close> struct that changes is the record \<open>awsClient\<close>; what is fixed
  once the client is built is the record \<open>client_env\<close>.  The listeners reach the state of the
  program that uses the client, so their handlers work on an extension of the record.  The
  goroutines of the client are the reader of messages, one worker per stream, and the callers of
  the \<open>Send\<close> operations; \<^verbatim>\<open>writeMutex\<close> makes each send one step.
\<close>

section \<open>State, listeners and environment\<close>

text \<open>
  The closures that \<^verbatim>\<open>invokeEvent\<close> hands to a worker: the number of the listener and the
  message they capture.
\<close>

datatype task = DataTask nat message | ResetTask nat message

fun task_listener :: "task \<Rightarrow> nat" where
  "task_listener (DataTask l m) = l"
| "task_listener (ResetTask l m) = l"

fun task_message :: "task \<Rightarrow> message" where
  "task_message (DataTask l m) = m"
| "task_message (ResetTask l m) = m"

record awsClient =
  workerMng :: "task workerManager"
  cl_conns :: "bool list"         \<comment> \<open>the connections made, and whether each is open; \<^verbatim>\<open>con\<close> is the last\<close>
  cl_tried :: "message list"      \<comment> \<open>history: messages that \<^verbatim>\<open>WriteMessage\<close> was called for\<close>
  cl_sent :: "message list"       \<comment> \<open>history: messages that were written\<close>
  cl_wire :: "bytes list"         \<comment> \<open>their bytes\<close>
  cl_taken :: "task list"         \<comment> \<open>history: closures that \<^verbatim>\<open>exec\<close> accepted\<close>
  cl_handled :: "message list"    \<comment> \<open>history: messages that the reader took up, ignorable or not\<close>

text \<open>A listener error is only logged; it is a text.\<close>

record 's AWSMessageListener =
  OnStreamStart :: "message \<Rightarrow> 's \<Rightarrow> (string option \<times> 's) outcome"
  OnStreamReset :: "message \<Rightarrow> 's \<Rightarrow> 's outcome"
  OnSessionReset :: "message \<Rightarrow> 's \<Rightarrow> 's outcome"
  OnData :: "message \<Rightarrow> 's \<Rightarrow> (string option \<times> 's) outcome"
  OnServiceIDs :: "message \<Rightarrow> 's \<Rightarrow> (string option \<times> 's) outcome"

section \<open>Building the client\<close>

text \<open>
  The parts of \<^verbatim>\<open>net/url\<close> and \<^verbatim>\<open>net/http\<close> that are used: a header and a query map a key
  to its values; \<^verbatim>\<open>Get\<close> gives the first, \<^verbatim>\<open>Add\<close> appends.
\<close>

type_synonym http_header = "string \<rightharpoonup> string list"

definition header_Get :: "http_header \<Rightarrow> string \<Rightarrow> string" where
  "header_Get h key = (case h key of Some (v # vs) \<Rightarrow> v | _ \<Rightarrow> '''')"

definition query_Add :: "(string \<rightharpoonup> string list) \<Rightarrow> string \<Rightarrow> string \<Rightarrow> (string \<rightharpoonup> string list)" where
  "query_Add q key v = q(key \<mapsto> (case q key of None \<Rightarrow> [v] | Some vs \<Rightarrow> vs @ [v]))"

record url =
  Scheme :: string
  Host :: string
  Path :: string
  Query :: "string \<rightharpoonup> string list"

text \<open>\<^verbatim>\<open>clientToken\<close>: the host name and the hash function are parameters.\<close>

definition hex_digit :: "nat \<Rightarrow> char" where
  "hex_digit n = ''0123456789abcdef'' ! n"

definition hex :: "bytes \<Rightarrow> string" where
  "hex bs = concat (map (\<lambda>b. [hex_digit (unat b div 16), hex_digit (unat b mod 16)]) bs)"

definition clientToken :: "string + string \<Rightarrow> (string \<Rightarrow> bytes) \<Rightarrow> string \<Rightarrow> string" where
  "clientToken Hostname Sum256 token =
     (let hostName = (case Hostname of Inl err \<Rightarrow> '''' | Inr h \<Rightarrow> h)
      in hex (Sum256 (token @ '':'' @ hostName)))"

definition channelBufSizePerStreamID :: nat where
  "channelBufSizePerStreamID = 10"

text \<open>
  \<^verbatim>\<open>tls.Config\<close>, as far as the sources set it, and \<^verbatim>\<open>time.Duration\<close> in nanoseconds.  The client
  keeps its timeout and its intervals; in the steps of the model time passes freely.
\<close>

record tls_config =
  InsecureSkipVerify :: bool

type_synonym duration = int

record 's AWSClientOptions =
  co_Mode :: mode
  co_Endpoint :: url
  co_Token :: string
  co_TLSConfig :: "tls_config option"
  co_DialTimeout :: duration
  co_ReconnectInterval :: duration
  co_PingInterval :: duration
  co_MessageListeners :: "'s AWSMessageListener list"
  co_ConnectHandlers :: "('s \<Rightarrow> 's outcome) list"

text \<open>
  \<open>env_write n\<close> is the error of the \<open>n\<close>-th \<^verbatim>\<open>WriteMessage\<close> call, if it fails; the protobuf
  codec is a parameter as in \<^verbatim>\<open>Message_RW\<close>.
\<close>

record client_io =
  env_marshal :: "message \<Rightarrow> string + bytes"
  env_unmarshal :: "bytes \<Rightarrow> string + message"
  env_write :: "nat \<Rightarrow> string option"

record dialer =
  TLSClientConfig :: tls_config
  Subprotocols :: "string list"

record 's client_env =
  env_mode :: mode
  endpoint :: url
  token :: string
  dialTimeout :: duration
  reconnectInterval :: duration
  pingInterval :: duration
  env_dialer :: dialer
  requestHeader :: http_header
  messageListeners :: "'s AWSMessageListener list"
  connectHandlers :: "('s \<Rightarrow> 's outcome) list"
  env_io :: client_io

definition NewAWSClient ::
  "string + string \<Rightarrow> (string \<Rightarrow> bytes) \<Rightarrow> client_io \<Rightarrow> 's AWSClientOptions \<Rightarrow>
     's client_env \<times> awsClient" where
  "NewAWSClient Hostname Sum256 io options =
     (let ep = co_Endpoint options;
          ep = ep\<lparr>Query := query_Add (Query ep) QueryKeyProxyMode (co_Mode options)\<rparr>;
          ct = clientToken Hostname Sum256 (co_Token options);
          reqHeader = Map.empty(HeaderKeyAccessToken \<mapsto> [co_Token options],
                                    HeaderKeyClientToken \<mapsto> [ct]);
          tlsConfig = (case co_TLSConfig options of
                         None \<Rightarrow> \<lparr>InsecureSkipVerify = False\<rparr> | Some c \<Rightarrow> c)
      in (\<lparr>env_mode = co_Mode options, endpoint = ep, token = co_Token options,
           dialTimeout = co_DialTimeout options,
           reconnectInterval = co_ReconnectInterval options,
           pingInterval = co_PingInterval options,
           env_dialer = \<lparr>TLSClientConfig = tlsConfig, Subprotocols = [SubProtocolV2]\<rparr>,
           requestHeader = reqHeader,
           messageListeners = co_MessageListeners options,
           connectHandlers = co_ConnectHandlers options,
           env_io = io\<rparr>,
          \<lparr>workerMng = new_manager channelBufSizePerStreamID, cl_conns = [], cl_tried = [],
           cl_sent = [], cl_wire = [], cl_taken = [], cl_handled = []\<rparr>))"

datatype client_error =
    SerializeError rw_error
  | SendWebsocketFailed string
  | FailedToSendStreamStart client_error
  | FailedToSendStreamReset client_error
  | FailedToSendData client_error

section \<open>Sending\<close>

text \<open>Before the first connection \<^verbatim>\<open>client.con\<close> is nil and the write panics.\<close>

definition sendMessage ::
  "client_io \<Rightarrow> int32 \<Rightarrow> string \<Rightarrow> message_type \<Rightarrow> bytes \<Rightarrow>
     'a awsClient_scheme \<Rightarrow> (client_error option \<times> 'a awsClient_scheme) outcome" where
  "sendMessage io streamID serviceID messageType bdata s =
     (let message = zero_message\<lparr>StreamId := streamID, ServiceId := serviceID,
                      Type := messageType, Payload := bdata\<rparr>
      in (case SerializeMessage (env_marshal io) message of
            Inl err \<Rightarrow> Return (Some (SerializeError err), s)
          | Inr bin \<Rightarrow>
              if cl_conns s = [] then Panic
              else
                let s1 = s\<lparr>cl_tried := cl_tried s @ [message]\<rparr>
                in (case env_write io (length (cl_tried s)) of
                      Some err \<Rightarrow> Return (Some (SendWebsocketFailed err), s1)
                    | None \<Rightarrow> Return (None, s1\<lparr>cl_sent := cl_sent s @ [message],
                                             cl_wire := cl_wire s @ [bin]\<rparr>))))"

definition SendStreamStart ::
  "client_io \<Rightarrow> int32 \<Rightarrow> string \<Rightarrow> 'a awsClient_scheme \<Rightarrow>
     (client_error option \<times> 'a awsClient_scheme) outcome" where
  "SendStreamStart io streamID serviceID s =
     bind_outcome (mng_start streamID (workerMng s)) (\<lambda>mng.
     bind_outcome (sendMessage io streamID serviceID Message_STREAM_START []
                     (s\<lparr>workerMng := mng\<rparr>)) (\<lambda>(err, s).
       Return (case err of
                 Some e \<Rightarrow> (Some (FailedToSendStreamStart e),
                            s\<lparr>workerMng := mng_stop streamID (workerMng s)\<rparr>)
               | None \<Rightarrow> (None, s))))"

definition SendStreamReset ::
  "client_io \<Rightarrow> int32 \<Rightarrow> string \<Rightarrow> 'a awsClient_scheme \<Rightarrow>
     (client_error option \<times> 'a awsClient_scheme) outcome" where
  "SendStreamReset io streamID serviceID s =
     bind_outcome (sendMessage io streamID serviceID Message_STREAM_RESET []
                     (s\<lparr>workerMng := mng_stop streamID (workerMng s)\<rparr>)) (\<lambda>(err, s).
       Return (map_option FailedToSendStreamReset err, s))"

definition SendData ::
  "client_io \<Rightarrow> int32 \<Rightarrow> string \<Rightarrow> bytes \<Rightarrow> 'a awsClient_scheme \<Rightarrow>
     (client_error option \<times> 'a awsClient_scheme) outcome" where
  "SendData io streamID serviceID bdata s =
     bind_outcome (sendMessage io streamID serviceID Message_DATA bdata s) (\<lambda>(err, s).
       Return (map_option FailedToSendData err, s))"

section \<open>Receiving\<close>

text \<open>
  The event for one listener, number \<open>l\<close>.  A message of an unknown type is only logged (the
  hook for it is set in unit tests alone).
\<close>

definition exec_task ::
  "task \<Rightarrow> 'a awsClient_scheme \<Rightarrow> 'a awsClient_scheme outcome" where
  "exec_task t s =
     bind_outcome (mng_exec (StreamId (task_message t)) t (workerMng s)) (\<lambda>(executed, mng).
       Return (s\<lparr>workerMng := mng,
                 cl_taken := (if executed then cl_taken s @ [t] else cl_taken s)\<rparr>))"

definition invokeEvent ::
  "'a awsClient_scheme client_env \<Rightarrow> nat \<Rightarrow> message \<Rightarrow> 'a awsClient_scheme \<Rightarrow>
     'a awsClient_scheme outcome" where
  "invokeEvent env l message s =
     (let listener = messageListeners env ! l
      in if Type message = Message_STREAM_START then
           bind_outcome (mng_start (StreamId message) (workerMng s)) (\<lambda>mng.
           bind_outcome (OnStreamStart listener message (s\<lparr>workerMng := mng\<rparr>)) (\<lambda>(err, s).
             if err = None then Return s
             else bind_outcome (SendStreamReset (env_io env) (StreamId message) (ServiceId message) s)
                    (\<lambda>(_, s). Return s)))
         else if Type message = Message_DATA then exec_task (DataTask l message) s
         else if Type message = Message_STREAM_RESET then exec_task (ResetTask l message) s
         else if Type message = Message_SESSION_RESET then OnSessionReset listener message s
         else if Type message = Message_SERVICE_IDS then
           bind_outcome (OnServiceIDs listener message s) (\<lambda>(_, s). Return s)
         else Return s)"

text \<open>What a worker does when it runs a closure.\<close>

fun run_task ::
  "'a awsClient_scheme client_env \<Rightarrow> task \<Rightarrow> 'a awsClient_scheme \<Rightarrow>
     'a awsClient_scheme outcome" where
  "run_task env (DataTask l message) s =
     bind_outcome (OnData (messageListeners env ! l) message s) (\<lambda>(err, s).
       if err = None then Return s
       else bind_outcome (SendStreamReset (env_io env) (StreamId message) (ServiceId message) s)
              (\<lambda>(_, s). Return s))"
| "run_task env (ResetTask l message) s =
     bind_outcome (OnStreamReset (messageListeners env ! l) message s) (\<lambda>s.
       Return (s\<lparr>workerMng := mng_stop (StreamId message) (workerMng s)\<rparr>))"

text \<open>The loop over the listeners.\<close>

fun invoke_listeners ::
  "'a awsClient_scheme client_env \<Rightarrow> nat list \<Rightarrow> message \<Rightarrow> 'a awsClient_scheme \<Rightarrow>
     'a awsClient_scheme outcome" where
  "invoke_listeners env [] message s = Return s"
| "invoke_listeners env (l # ls) message s =
     bind_outcome (invokeEvent env l message s) (invoke_listeners env ls message)"

definition handle_message ::
  "'a awsClient_scheme client_env \<Rightarrow> message \<Rightarrow> 'a awsClient_scheme \<Rightarrow>
     'a awsClient_scheme outcome" where
  "handle_message env message s =
     (let s = s\<lparr>cl_handled := cl_handled s @ [message]\<rparr>
      in if Ignorable message then Return s
         else invoke_listeners env [0 ..< length (messageListeners env)] message s)"

text \<open>
  \<^verbatim>\<open>keepReadingMessages\<close>.  \<open>ctx i\<close> is what \<^verbatim>\<open>ctx.Err()\<close> says at the \<open>i\<close>-th look,
  \<open>others i\<close> what the other goroutines do before the \<open>i\<close>-th message is handled.  Every message
  takes at least its length prefix off the pending bytes, so the loop ends.
\<close>

datatype ctx_error = Canceled | DeadlineExceeded

datatype read_end = CtxDone ctx_error | ReadFailed rw_error

lemma split_frame_shrinks: "split_frame bs = Frame body rest \<Longrightarrow> length rest < length bs"
  unfolding split_frame_def Let_def by (auto split: if_splits)

lemma Next_shrinks:
  assumes "Next unmarshal r = (Return (Inr m), r')"
  shows "length (pending r') < length (pending r)"
proof -
  have "next_spec unmarshal r = Return (Inr m)"
    using Next_refines [of unmarshal r] assms by simp
  then obtain body rest where f: "split_frame (pending r) = Frame body rest"
    by (auto simp: next_spec_def split: frame.splits option.splits)
  then have "pending r' = rest"
    using Next_refines [of unmarshal r] assms by simp
  with split_frame_shrinks [OF f] show ?thesis by simp
qed

function keepReadingMessages ::
  "'a awsClient_scheme client_env \<Rightarrow> (nat \<Rightarrow> ctx_error option) \<Rightarrow>
     (nat \<Rightarrow> 'a awsClient_scheme \<Rightarrow> 'a awsClient_scheme) \<Rightarrow> nat \<Rightarrow> reader \<Rightarrow>
     'a awsClient_scheme \<Rightarrow> (read_end \<times> 'a awsClient_scheme) outcome" where
  "keepReadingMessages env ctx others i r s =
     (case ctx i of
        Some e \<Rightarrow> Return (CtxDone e, s)
      | None \<Rightarrow>
          (case Next (env_unmarshal (env_io env)) r of
             (Blocked, r') \<Rightarrow> Blocked
           | (Panic, r') \<Rightarrow> Panic
           | (Return (Inl err), r') \<Rightarrow> Return (ReadFailed err, s)
           | (Return (Inr message), r') \<Rightarrow>
               bind_outcome (handle_message env message (others i s))
                 (keepReadingMessages env ctx others (Suc i) r')))"
  by pat_completeness auto
termination
  by (relation "measure (\<lambda>(env, ctx, others, i, r, s). length (pending r))")
    (auto dest: Next_shrinks [OF sym])

declare keepReadingMessages.simps [simp del]

section \<open>Connecting\<close>

text \<open>
  A failed dial; \<^verbatim>\<open>connectError\<close> has no \<^verbatim>\<open>Unwrap\<close>, so \<^verbatim>\<open>errors.Is\<close> never finds a context
  error in it.
\<close>

record http_response =
  StatusCode :: int
  Header :: http_header

record connectError =
  causeErr :: string
  response :: "http_response option"

definition tunnelClosed :: "connectError \<Rightarrow> bool" where
  "tunnelClosed conErr =
     (case response conErr of
        Some r \<Rightarrow> header_Get (Header r) HeaderKeyStatusReason = StatusReasonTunnelClosed
      | None \<Rightarrow> False)"

definition retryable :: "connectError \<Rightarrow> bool" where
  "retryable conErr =
     (case response conErr of
        Some r \<Rightarrow> \<not> (400 \<le> StatusCode r \<and> StatusCode r < 500)
      | None \<Rightarrow> True)"

text \<open>
  What the world does in one round of \<^verbatim>\<open>Run\<close>.
  \<^item> \<open>at_dial\<close>: the failure of the dial;
  \<^item> \<open>at_reads\<close>: the results of \<^verbatim>\<open>ReadMessage\<close> on the connection, before \<^verbatim>\<open>close\<close> ends it;
  \<^item> \<open>at_ctx\<close>, \<open>at_others\<close>: as in \<open>keepReadingMessages\<close>;
  \<^item> \<open>at_cancelled\<close>: the \<^verbatim>\<open>select\<close> took \<^verbatim>\<open>ctx.Done()\<close>, with this \<^verbatim>\<open>ctx.Err()\<close>;
  \<^item> \<open>at_closeErr\<close>, \<open>at_conErr\<close>: the failures of the close frame and of \<^verbatim>\<open>con.Close\<close>;
  \<^item> \<open>at_order\<close>, \<open>at_picks\<close>: the map order and the last picks of the workers in \<^verbatim>\<open>stopAll\<close>;
  \<^item> \<open>at_done\<close>: the \<^verbatim>\<open>select\<close> of \<^verbatim>\<open>Run\<close> took \<^verbatim>\<open>ctx.Done()\<close>.
\<close>

record 's attempt =
  at_dial :: "connectError option"
  at_reads :: "ws_result list"
  at_ctx :: "nat \<Rightarrow> ctx_error option"
  at_others :: "nat \<Rightarrow> 's \<Rightarrow> 's"
  at_cancelled :: "ctx_error option"
  at_closeErr :: "string option"
  at_conErr :: "string option"
  at_order :: "int32 list"
  at_picks :: "nat \<Rightarrow> nat"
  at_done :: bool

definition client_connect ::
  "'a attempt \<Rightarrow> 'b awsClient_scheme \<Rightarrow> connectError option \<times> 'b awsClient_scheme" where
  "client_connect at s =
     (case at_dial at of
        Some err \<Rightarrow> (Some err, s)
      | None \<Rightarrow> (None, s\<lparr>cl_conns := cl_conns s @ [True]\<rparr>))"

text \<open>
  \<^verbatim>\<open>keepSendingPing\<close>: the ticker ticks with the result of \<^verbatim>\<open>WriteControl\<close>, or the context is
  done; the result is the number of pings sent.
\<close>

datatype ping_event = Tick "string option" | PingCtxDone

fun keepSendingPing :: "ping_event list \<Rightarrow> nat \<Rightarrow> nat outcome" where
  "keepSendingPing [] n = Blocked"
| "keepSendingPing (PingCtxDone # es) n = Return n"
| "keepSendingPing (Tick None # es) n = keepSendingPing es (Suc n)"
| "keepSendingPing (Tick (Some err) # es) n = keepSendingPing es n"

text \<open>\<^verbatim>\<open>close\<close>: when the close frame cannot be written, the connection is not closed.\<close>

definition client_close ::
  "string option \<Rightarrow> string option \<Rightarrow> 'b awsClient_scheme \<Rightarrow> string option \<times> 'b awsClient_scheme" where
  "client_close frame_err close_err s =
     (case frame_err of
        Some err \<Rightarrow> (Some err, s)
      | None \<Rightarrow> (close_err, s\<lparr>cl_conns := (cl_conns s)[length (cl_conns s) - 1 := False]\<rparr>))"

text \<open>
  \<^verbatim>\<open>Worker.Stop\<close> with its effects: the function in hand and \<open>k\<close> of the waiting functions run
  before the worker ends.
\<close>

fun run_tasks ::
  "'a awsClient_scheme client_env \<Rightarrow> task list \<Rightarrow> 'a awsClient_scheme \<Rightarrow>
     'a awsClient_scheme outcome" where
  "run_tasks env [] s = Return s"
| "run_tasks env (t # ts) s = bind_outcome (run_task env t s) (run_tasks env ts)"

definition stop_worker ::
  "'a awsClient_scheme client_env \<Rightarrow> nat \<Rightarrow> nat \<Rightarrow> 'a awsClient_scheme \<Rightarrow>
     'a awsClient_scheme outcome" where
  "stop_worker env k i s =
     (let w = mg_workers (workerMng s) ! i
      in bind_outcome (run_tasks env (if chCancel w then in_hand w @ take k (chExec w) else []) s) (\<lambda>s.
         bind_outcome (Worker_Stop k (mg_workers (workerMng s) ! i)) (\<lambda>w'.
           Return (s\<lparr>workerMng := (workerMng s)
                     \<lparr>mg_workers := (mg_workers (workerMng s))[i := w']\<rparr>\<rparr>))))"

fun stop_all_workers ::
  "'a awsClient_scheme client_env \<Rightarrow> (nat \<Rightarrow> nat) \<Rightarrow> nat list \<Rightarrow> 'a awsClient_scheme \<Rightarrow>
     'a awsClient_scheme outcome" where
  "stop_all_workers env k [] s = Return s"
| "stop_all_workers env k (i # is) s =
     bind_outcome (stop_worker env (k i) i s) (stop_all_workers env k is)"

definition client_stopAll ::
  "'a awsClient_scheme client_env \<Rightarrow> (nat \<Rightarrow> nat) \<Rightarrow> int32 list \<Rightarrow> 'a awsClient_scheme \<Rightarrow>
     'a awsClient_scheme outcome" where
  "client_stopAll env k order s = stop_all_workers env k (mng_getAll order (workerMng s)) s"

fun run_handlers :: "('s \<Rightarrow> 's outcome) list \<Rightarrow> 's \<Rightarrow> 's outcome" where
  "run_handlers [] s = Return s"
| "run_handlers (h # hs) s = bind_outcome (h s) (run_handlers hs)"

datatype start_error = ConnectErr connectError | CtxErr ctx_error | ReadErr rw_error

text \<open>
  What the reader gets from the connection, the last one of the state: the reads of the round, and
  when the round is cancelled and \<^verbatim>\<open>close\<close> leaves the connection closed, a failure.  When
  \<^verbatim>\<open>close\<close> leaves it open, the reader goes on waiting, and \<^verbatim>\<open>start\<close> with it.
\<close>

definition reads_until_closed :: "'b attempt \<Rightarrow> 'a awsClient_scheme \<Rightarrow> ws_result list" where
  "reads_until_closed at s =
     at_reads at @
     (if at_cancelled at \<noteq> None \<and>
         \<not> last (cl_conns (snd (client_close (at_closeErr at) (at_conErr at) s)))
      then [\<lparr>ws_type = -1, ws_data = [], ws_err = Some ''use of closed network connection''\<rparr>] else [])"

fun read_error :: "read_end \<Rightarrow> start_error" where
  "read_error (CtxDone e) = CtxErr e"
| "read_error (ReadFailed e) = ReadErr e"

definition client_start ::
  "'a awsClient_scheme client_env \<Rightarrow> 'a awsClient_scheme attempt \<Rightarrow> 'a awsClient_scheme \<Rightarrow>
     (start_error \<times> 'a awsClient_scheme) outcome" where
  "client_start env at s =
     (case client_connect at s of
        (Some err, s) \<Rightarrow> Return (ConnectErr err, s)
      | (None, s) \<Rightarrow>
          bind_outcome (run_handlers (connectHandlers env) s) (\<lambda>s.
          bind_outcome (keepReadingMessages env (at_ctx at) (at_others at) 0
                          (ws_reader (reads_until_closed at s)) s) (\<lambda>(end, s).
          let s = snd (client_close (at_closeErr at) (at_conErr at) s)
          in bind_outcome (client_stopAll env (at_picks at) (at_order at) s) (\<lambda>s.
               Return (case at_cancelled at of
                         Some e \<Rightarrow> (CtxErr e, s)
                       | None \<Rightarrow> (read_error end, s))))))"

datatype run_error = ErrTunnelClosed | NotRetryable connectError

text \<open>
  \<^verbatim>\<open>Run\<close> over the rounds so far: \<open>None\<close> when it still runs after them, otherwise its result
  (\<open>Some None\<close> is a nil error).
\<close>

fun client_Run ::
  "'a awsClient_scheme client_env \<Rightarrow> 'a awsClient_scheme attempt list \<Rightarrow> 'a awsClient_scheme \<Rightarrow>
     (run_error option option \<times> 'a awsClient_scheme) outcome" where
  "client_Run env [] s = Return (None, s)"
| "client_Run env (at # ats) s =
     bind_outcome (client_start env at s) (\<lambda>(err, s).
       case err of
         ConnectErr conErr \<Rightarrow>
           if tunnelClosed conErr then Return (Some (Some ErrTunnelClosed), s)
           else if \<not> retryable conErr then Return (Some (Some (NotRetryable conErr)), s)
           else if at_done at then Return (Some None, s)
           else client_Run env ats s
       | CtxErr e \<Rightarrow> Return (Some None, s)
       | ReadErr e \<Rightarrow>
           if at_done at then Return (Some None, s) else client_Run env ats s)"

section \<open>Reading and dispatching\<close>

lemma keepReadingMessages_message:
  assumes "ctx i = None" and "unframe (pending r) = Some (b, rest)"
    and "env_unmarshal (env_io env) b = Inr m"
  obtains r' where "pending r' = rest" "pending_err r' = pending_err r"
    "keepReadingMessages env ctx others i r s =
       bind_outcome (handle_message env m (others i s)) (keepReadingMessages env ctx others (Suc i) r')"
proof -
  obtain r' where r': "Next (env_unmarshal (env_io env)) r = (Return (Inr m), r')" "pending r' = rest"
    "pending_err r' = pending_err r"
    using assms(2,3) by (rule Next_unframe)
  show ?thesis
  proof (rule that [OF r'(2,3)])
    show "keepReadingMessages env ctx others i r s =
      bind_outcome (handle_message env m (others i s)) (keepReadingMessages env ctx others (Suc i) r')"
      by (subst keepReadingMessages.simps) (simp add: assms(1) r'(1))
  qed
qed

lemma Next_at_end:
  assumes "pending r = []"
  shows "fst (Next unmarshal r) =
    (case pending_err r of None \<Rightarrow> Blocked | Some e \<Rightarrow> Return (Inl (FailedToRead e)))"
  using Next_refines [of unmarshal r] assms by (simp add: next_spec_def split_frame_def)

lemma keepReadingMessages_end:
  assumes "pending r = []" and "ctx i = None"
  shows "keepReadingMessages env ctx others i r s =
    (case pending_err r of
       None \<Rightarrow> Blocked
     | Some e \<Rightarrow> Return (ReadFailed (FailedToRead e), s))"
  using Next_at_end [OF assms(1), of "env_unmarshal (env_io env)"] assms(2)
  by (subst keepReadingMessages.simps)
    (cases "Next (env_unmarshal (env_io env)) r", auto split: option.splits)

text \<open>
  The calls that a list of messages leads to, spelled out: for each message what the other
  goroutines did before it and its note in the history, and, unless it is ignorable, the event of
  every listener.
\<close>

definition note_handled :: "message \<Rightarrow> 'a awsClient_scheme \<Rightarrow> 'a awsClient_scheme" where
  "note_handled m s = s\<lparr>cl_handled := cl_handled s @ [m]\<rparr>"

fun calls_for ::
  "'a awsClient_scheme client_env \<Rightarrow> (nat \<Rightarrow> 'a awsClient_scheme \<Rightarrow> 'a awsClient_scheme) \<Rightarrow>
     nat \<Rightarrow> message list \<Rightarrow> ('a awsClient_scheme \<Rightarrow> 'a awsClient_scheme outcome) list" where
  "calls_for env others i [] = []"
| "calls_for env others i (m # ms) =
     (\<lambda>s. Return (note_handled m (others i s))) #
     (if Ignorable m then [] else map (\<lambda>l. invokeEvent env l m) [0 ..< length (messageListeners env)]) @
     calls_for env others (Suc i) ms"

lemma bind_outcome_assoc:
  "bind_outcome (bind_outcome x f) g = bind_outcome x (\<lambda>y. bind_outcome (f y) g)"
  by (cases x) simp_all

lemma run_handlers_append:
  "run_handlers (hs @ hs') s = bind_outcome (run_handlers hs s) (run_handlers hs')"
proof (induction hs arbitrary: s)
  case (Cons h hs)
  have "run_handlers (hs @ hs') = (\<lambda>s. bind_outcome (run_handlers hs s) (run_handlers hs'))"
    using Cons.IH by (rule ext)
  then show ?case by (simp add: bind_outcome_assoc)
qed simp

lemma invoke_listeners_calls:
  "invoke_listeners env ls m = run_handlers (map (\<lambda>l. invokeEvent env l m) ls)"
proof (induction ls)
  case (Cons l ls)
  show ?case by (rule ext) (simp add: Cons.IH)
qed (simp add: fun_eq_iff)

lemma handle_message_calls:
  "handle_message env m s = run_handlers
     (if Ignorable m then [] else map (\<lambda>l. invokeEvent env l m) [0 ..< length (messageListeners env)])
     (note_handled m s)"
  by (simp add: handle_message_def note_handled_def invoke_listeners_calls Let_def)

lemma keepReadingMessages_all:
  assumes "decode_n unframe (length bodies) (pending r) = Some (bodies, [])"
    and "list_all2 (\<lambda>b m. env_unmarshal (env_io env) b = Inr m) bodies ms"
    and "pending_err r = Some e" and "\<forall>j. ctx j = None"
  shows "keepReadingMessages env ctx others i r s =
    bind_outcome (run_handlers (calls_for env others i ms) s) (\<lambda>s. Return (ReadFailed (FailedToRead e), s))"
  using assms
proof (induction bodies arbitrary: r ms i s)
  case Nil
  then have "pending r = []" by simp
  with Nil show ?case by (simp add: keepReadingMessages_end)
next
  case (Cons b bodies)
  from Cons.prems(1) obtain rest where b: "unframe (pending r) = Some (b, rest)"
    and bs: "decode_n unframe (length bodies) rest = Some (bodies, [])"
    by (auto split: option.splits)
  from Cons.prems(2) obtain m ms' where m: "env_unmarshal (env_io env) b = Inr m" "ms = m # ms'"
    and ms': "list_all2 (\<lambda>b m. env_unmarshal (env_io env) b = Inr m) bodies ms'"
    by (auto simp: list_all2_Cons1)
  have ctx: "ctx i = None" using Cons.prems(4) by simp
  obtain r' where r': "pending r' = rest" "pending_err r' = pending_err r"
    "keepReadingMessages env ctx others i r s =
       bind_outcome (handle_message env m (others i s)) (keepReadingMessages env ctx others (Suc i) r')"
    using ctx b m(1) by (rule keepReadingMessages_message)
  have "keepReadingMessages env ctx others (Suc i) r' =
    (\<lambda>s. bind_outcome (run_handlers (calls_for env others (Suc i) ms') s)
           (\<lambda>s. Return (ReadFailed (FailedToRead e), s)))"
    using bs ms' r'(1,2) Cons.prems(3,4) by (intro ext Cons.IH) simp_all
  then show ?case
    by (simp add: r'(3) m(2) handle_message_calls run_handlers_append bind_outcome_assoc)
qed

section \<open>Properties of reading\<close>

text \<open>
  C12 (functional): every message of the service is handled exactly once and in order.  Whatever
  the other goroutines do in between, and however the service cuts the bytes of its messages
  into frames, the reader makes exactly these calls: for each message in order that is not
  ignorable, the event of every listener, in the order of the listeners, and nothing for an
  ignorable one; then it ends with the error of the connection.
\<close>

theorem keepReadingMessages_dispatches:
  assumes "codec_roundtrip (env_marshal (env_io env)) (env_unmarshal (env_io env))"
    and "map (SerializeMessage (env_marshal (env_io env))) ms = map Inr bins"
    and "\<forall>b \<in> set bins. length b \<le> 65535"
    and "concat chunks = concat bins"
    and "binaryReaderWSAdapter_Read failure = Inl e" and "\<forall>j. ctx j = None"
  shows "keepReadingMessages env ctx others 0 (ws_reader (map binary_frame chunks @ [failure])) s =
    bind_outcome (run_handlers (calls_for env others 0 ms) s)
      (\<lambda>s. Return (ReadFailed (FailedToRead e), s))"
proof -
  obtain bodies where bins: "bins = map add_size bodies"
    and bodies: "list_all2 (\<lambda>b m. env_unmarshal (env_io env) b = Inr m) bodies ms"
    using serialize_bodies [OF assms(1,2)] by blast
  have "list_all (\<lambda>b. length b \<le> max_body) bodies"
    using assms(3) by (auto simp: bins list_all_iff max_body_def)
  then have "decode_n unframe (length bodies) (concat (map add_size bodies)) = Some (bodies, [])"
    using sized.decode_n_encs [of bodies "[]"] by simp
  moreover have "pending (ws_reader (map binary_frame chunks @ [failure])) =
      concat (map add_size bodies)"
    using assms(4,5) oks_append_binary(1) [of chunks "[failure]"] by (simp add: bins)
  moreover have "pending_err (ws_reader (map binary_frame chunks @ [failure])) = Some e"
    using assms(5) oks_append_binary(2) [of chunks "[failure]"] by simp
  ultimately show ?thesis
    using bodies assms(6) by (intro keepReadingMessages_all) simp_all
qed

text \<open>A listener and a codec for the witness: session resets, noted in \<open>cl_tried\<close>.\<close>

definition reset_message :: message where
  "reset_message = zero_message\<lparr>Type := Message_SESSION_RESET\<rparr>"

definition demo_env :: "awsClient client_env" where
  "demo_env =
     \<lparr>env_mode = ModeSource,
      endpoint = \<lparr>Scheme = ''wss'', Host = ''h'', Path = ''/tunnel'', Query = Map.empty\<rparr>,
      token = ''t'', dialTimeout = 10000000000, reconnectInterval = 5000000000,
      pingInterval = 30000000000,
      env_dialer = \<lparr>TLSClientConfig = \<lparr>InsecureSkipVerify = False\<rparr>, Subprotocols = [SubProtocolV2]\<rparr>,
      requestHeader = Map.empty,
      messageListeners =
        [\<lparr>OnStreamStart = (\<lambda>m s. Return (None, s)), OnStreamReset = (\<lambda>m s. Return s),
          OnSessionReset = (\<lambda>m s. Return (s\<lparr>cl_tried := cl_tried s @ [m]\<rparr>)),
          OnData = (\<lambda>m s. Return (None, s)), OnServiceIDs = (\<lambda>m s. Return (None, s))\<rparr>],
      connectHandlers = [],
      env_io =
        \<lparr>env_marshal = (\<lambda>m. if m = reset_message then Inr [8, 4] else Inl ''unsupported''),
         env_unmarshal = (\<lambda>b. if b = [8, 4] then Inr reset_message else Inl ''invalid''),
         env_write = (\<lambda>n. None)\<rparr>\<rparr>"

definition demo_client :: awsClient where
  "demo_client =
     \<lparr>workerMng = new_manager channelBufSizePerStreamID, cl_conns = [True], cl_tried = [],
      cl_sent = [], cl_wire = [], cl_taken = [], cl_handled = []\<rparr>"

theorem keepReadingMessages_dispatches_witness:
  "keepReadingMessages demo_env (\<lambda>i. None) (\<lambda>i s. s) 0
     (ws_reader (map binary_frame [[0], [2, 8, 4, 0, 2], [8, 4]] @
       [\<lparr>ws_type = 8, ws_data = [], ws_err = None\<rparr>])) demo_client =
     Return (ReadFailed (FailedToRead OnlyBinaryAccepted), demo_client
       \<lparr>cl_tried := [reset_message, reset_message], cl_handled := [reset_message, reset_message]\<rparr>)"
proof -
  have c: "codec_roundtrip (env_marshal (env_io demo_env)) (env_unmarshal (env_io demo_env))"
    by (simp add: codec_roundtrip_def demo_env_def)
  have b: "map (SerializeMessage (env_marshal (env_io demo_env))) [reset_message, reset_message] =
      map Inr [[0, 2, 8, 4], [0, 2, 8, 4]]"
    by (simp add: SerializeMessage_def demo_env_def add_size_def put_be_uint16_def)
  have f: "binaryReaderWSAdapter_Read \<lparr>ws_type = 8, ws_data = [], ws_err = None\<rparr> = Inl OnlyBinaryAccepted"
    by (simp add: binaryReaderWSAdapter_Read_def BinaryMessage_def)
  have h: "invokeEvent demo_env 0 reset_message s = Return (s\<lparr>cl_tried := cl_tried s @ [reset_message]\<rparr>)"
    "length (messageListeners demo_env) = 1" "\<not> Ignorable reset_message" for s
    by (simp_all add: invokeEvent_def demo_env_def reset_message_def zero_message_def
        message_type_defs Let_def)
  show ?thesis
    using keepReadingMessages_dispatches [OF c b _ _ f, of "[[0], [2, 8, 4, 0, 2], [8, 4]]"]
    by (simp add: h demo_client_def note_handled_def)
qed

text \<open>
  C39 (liveness): cancelling \<^verbatim>\<open>Run\<close> does not end it when the close frame cannot be written.
  Let the service send nothing after the connect, the reader have looked at the context before
  it was cancelled (it waits in its first read), and the connect handlers leave the connection
  alone.  Then a cancelled \<^verbatim>\<open>start\<close> comes back exactly when the close frame was written; after
  a failed close frame \<^verbatim>\<open>close\<close> gives up before \<^verbatim>\<open>con.Close()\<close>, the connection is still
  open, the reader never stops waiting, and \<^verbatim>\<open>start\<close> waits for the reader.
\<close>

theorem cancelled_start_returns_iff_close_frame_sent:
  fixes s :: "'a awsClient_scheme"
  assumes "at_dial at = None" and "at_cancelled at = Some c" and "at_reads at = []"
    and "at_ctx at 0 = None"
    and "run_handlers (connectHandlers env) (s\<lparr>cl_conns := cl_conns s @ [True]\<rparr>) = Return s1"
    and "cl_conns s1 = cl_conns s @ [True]"
    and "\<And>cs. client_stopAll env (at_picks at) (at_order at) (s1\<lparr>cl_conns := cs\<rparr>) = Return (s2 cs)"
  shows "(if at_closeErr at = None
      then client_start env at s =
        Return (CtxErr c, s2 (cl_conns s @ [False]))
      else client_start env at s = Blocked)"
proof -
  have closed: "last (cl_conns (snd (client_close (at_closeErr at) (at_conErr at) s1))) \<longleftrightarrow> at_closeErr at \<noteq> None"
    by (cases "at_closeErr at") (simp_all add: client_close_def assms(6) list_update_append)
  then have "pending (ws_reader (reads_until_closed at s1)) = []"
    using assms(2,3) by (simp add: reads_until_closed_def binaryReaderWSAdapter_Read_def)
  moreover have "pending_err (ws_reader (reads_until_closed at s1)) =
    (if at_closeErr at = None then Some (ReadMessageError ''use of closed network connection'') else None)"
    using assms(2,3) closed by (simp add: reads_until_closed_def binaryReaderWSAdapter_Read_def)
  ultimately show ?thesis
    using assms
    by (simp add: client_start_def client_connect_def keepReadingMessages_end client_close_def
        list_update_append)
qed

definition silent_attempt :: "string option \<Rightarrow> awsClient attempt" where
  "silent_attempt err =
     \<lparr>at_dial = None, at_reads = [], at_ctx = (\<lambda>i. None), at_others = (\<lambda>i s. s),
      at_cancelled = Some Canceled, at_closeErr = err, at_conErr = None, at_order = [],
      at_picks = (\<lambda>i. 0), at_done = False\<rparr>"

theorem cancelled_start_returns_iff_close_frame_sent_witness:
  "client_start demo_env (silent_attempt (Some ''broken pipe'')) demo_client = Blocked \<and>
   client_start demo_env (silent_attempt None) demo_client =
     Return (CtxErr Canceled, demo_client\<lparr>cl_conns := [True, False]\<rparr>)"
  using cancelled_start_returns_iff_close_frame_sent [of "silent_attempt (Some ''broken pipe'')" Canceled
      demo_env demo_client "demo_client\<lparr>cl_conns := [True, True]\<rparr>" "\<lambda>cs. demo_client\<lparr>cl_conns := cs\<rparr>"]
    cancelled_start_returns_iff_close_frame_sent [of "silent_attempt None" Canceled
      demo_env demo_client "demo_client\<lparr>cl_conns := [True, True]\<rparr>" "\<lambda>cs. demo_client\<lparr>cl_conns := cs\<rparr>"]
  by (simp add: silent_attempt_def demo_client_def demo_env_def client_stopAll_def mng_getAll_def
      List.map_filter_simps)

section \<open>When \<^verbatim>\<open>Run\<close> returns\<close>

lemma keepReadingMessages_CtxDone:
  "keepReadingMessages env ctx others i r s = Return (CtxDone e, s') \<Longrightarrow> \<exists>j. ctx j = Some e"
proof (induction env ctx others i r s rule: keepReadingMessages.induct)
  case (1 env ctx others i r s)
  show ?case
    using 1(2) 1(1) [OF _ prod.collapse]
    unfolding keepReadingMessages.simps [of env ctx others i]
    by (auto split: option.splits outcome.splits sum.splits prod.splits)
qed

lemma client_start_cases:
  assumes "client_start env at s = Return (err, s')"
  shows "case err of
      ConnectErr ce \<Rightarrow> at_dial at = Some ce \<and> s' = s
    | CtxErr e \<Rightarrow> at_dial at = None \<and> (at_cancelled at = Some e \<or> (\<exists>i. at_ctx at i = Some e))
    | ReadErr e \<Rightarrow> at_dial at = None \<and> at_cancelled at = None"
proof (cases "at_dial at")
  case (Some ce)
  then show ?thesis using assms by (auto simp: client_start_def client_connect_def)
next
  case None
  then obtain e s1 s2 where k: "keepReadingMessages env (at_ctx at) (at_others at) 0
      (ws_reader (reads_until_closed at s1)) s1 = Return (e, s2)"
    and err: "err = (case at_cancelled at of Some c \<Rightarrow> CtxErr c | None \<Rightarrow> read_error e)"
    using assms by (auto simp: client_start_def client_connect_def Let_def split: option.splits)
  show ?thesis
    using err None keepReadingMessages_CtxDone [of env "at_ctx at" "at_others at" 0 _ s1 _ s2] k
    by (cases e) (auto split: option.splits)
qed

text \<open>The rounds that do not end \<^verbatim>\<open>Run\<close>, and why the last one does.\<close>

definition goes_on :: "'a attempt \<Rightarrow> bool" where
  "goes_on at \<longleftrightarrow>
     \<not> at_done at \<and>
     (case at_dial at of
        Some ce \<Rightarrow> retryable ce \<and> \<not> tunnelClosed ce
      | None \<Rightarrow> at_cancelled at = None)"

definition ends_with :: "run_error option \<Rightarrow> 'a attempt \<Rightarrow> bool" where
  "ends_with res at \<longleftrightarrow>
     (case res of
        Some ErrTunnelClosed \<Rightarrow> \<exists>ce. at_dial at = Some ce \<and> tunnelClosed ce
      | Some (NotRetryable ce) \<Rightarrow> at_dial at = Some ce \<and> \<not> tunnelClosed ce \<and> \<not> retryable ce
      | None \<Rightarrow> at_done at \<or> at_cancelled at \<noteq> None \<or> (\<exists>i. at_ctx at i \<noteq> None))"

lemma client_Run_result:
  "client_Run env ats s = Return (res, s') \<Longrightarrow>
     (case res of
        None \<Rightarrow> \<forall>at \<in> set ats. goes_on at
      | Some r \<Rightarrow> \<exists>pre at post. ats = pre @ at # post \<and> (\<forall>at \<in> set pre. goes_on at) \<and> ends_with r at)"
proof (induction ats arbitrary: s)
  case Nil
  then show ?case by simp
next
  case (Cons at ats)
  from Cons.prems obtain err s1 where st: "client_start env at s = Return (err, s1)"
    by auto
  note c = client_start_cases [OF st]
  have here: "\<exists>pre a post. at # ats = pre @ a # post \<and> (\<forall>at \<in> set pre. goes_on at) \<and> ends_with r a"
    if "ends_with r at" for r
    using that by (intro exI [of _ "[]"]) auto
  have later: ?case if go: "goes_on at" and run: "client_Run env ats s1 = Return (res, s')"
  proof (cases res)
    case None
    then show ?thesis using Cons.IH [OF run] go by simp
  next
    case (Some r)
    then obtain pre a post where "ats = pre @ a # post" "\<forall>at \<in> set pre. goes_on at" "ends_with r a"
      using Cons.IH [OF run] by auto
    then have "at # ats = (at # pre) @ a # post \<and> (\<forall>at \<in> set (at # pre). goes_on at) \<and> ends_with r a"
      using go by simp
    then show ?thesis unfolding Some option.case by blast
  qed

have "(\<exists>r. res = Some r \<and> ends_with r at) \<or> goes_on at \<and> client_Run env ats s1 = Return (res, s')"
    using c Cons.prems st
    by (cases err) (auto simp: goes_on_def ends_with_def split: if_splits)
  then show ?case using here later by auto
qed

lemma client_Run_unreachable:
  "\<forall>at \<in> set pre. goes_on at \<and> at_dial at \<noteq> None \<Longrightarrow>
     client_Run env (pre @ ats) s = client_Run env ats s"
  by (induction pre) (auto simp: goes_on_def client_start_def client_connect_def)

text \<open>
  C14 (functional): \<^verbatim>\<open>Run\<close> returns for the documented reasons and no other.  While it still
  runs, every round so far ended in an error that may be retried.  When it returns, so did every
  round but the last; it reports that the tunnel is closed exactly for a refusal that says so,
  another refusal only when its status is 400 to 499, and no error only when its context is done.
\<close>

theorem Run_returns_as_documented:
  assumes "client_Run env ats s = Return (res, s')"
  shows "(case res of
      None \<Rightarrow> \<forall>at \<in> set ats. goes_on at
    | Some r \<Rightarrow> \<exists>pre at post. ats = pre @ at # post \<and> (\<forall>at \<in> set pre. goes_on at) \<and>
        (case r of
           Some ErrTunnelClosed \<Rightarrow> \<exists>ce. at_dial at = Some ce \<and> tunnelClosed ce
         | Some (NotRetryable ce) \<Rightarrow> at_dial at = Some ce \<and> \<not> tunnelClosed ce \<and>
             (\<exists>r. response ce = Some r \<and> 400 \<le> StatusCode r \<and> StatusCode r \<le> 499)
         | None \<Rightarrow> at_done at \<or> at_cancelled at \<noteq> None \<or> (\<exists>i. at_ctx at i \<noteq> None)))"
proof (cases res)
  case None
  then show ?thesis using client_Run_result [OF assms] by simp
next
  case (Some r)
  then obtain pre at post where a: "ats = pre @ at # post" "\<forall>at \<in> set pre. goes_on at" "ends_with r at"
    using client_Run_result [OF assms] by auto
  then have "case r of
           Some ErrTunnelClosed \<Rightarrow> \<exists>ce. at_dial at = Some ce \<and> tunnelClosed ce
         | Some (NotRetryable ce) \<Rightarrow> at_dial at = Some ce \<and> \<not> tunnelClosed ce \<and>
             (\<exists>r. response ce = Some r \<and> 400 \<le> StatusCode r \<and> StatusCode r \<le> 499)
         | None \<Rightarrow> at_done at \<or> at_cancelled at \<noteq> None \<or> (\<exists>i. at_ctx at i \<noteq> None)"
    by (auto simp: ends_with_def retryable_def split: option.splits run_error.splits)
  with a Some show ?thesis by auto
qed

definition refused :: "connectError \<Rightarrow> 'a attempt \<Rightarrow> 'a attempt" where
  "refused ce at = at\<lparr>at_dial := Some ce, at_done := False\<rparr>"

theorem Run_returns_as_documented_witness:
  "let busy = \<lparr>causeErr = ''bad handshake'', response = Some \<lparr>StatusCode = 500, Header = Map.empty\<rparr>\<rparr>;
       denied = \<lparr>causeErr = ''bad handshake'', response = Some \<lparr>StatusCode = 400, Header = Map.empty\<rparr>\<rparr>;
       ats = map (\<lambda>ce. refused ce (silent_attempt None)) [busy, denied]
   in client_Run demo_env ats demo_client = Return (Some (Some (NotRetryable denied)), demo_client) \<and>
      (\<exists>pre at post. ats = pre @ at # post \<and> (\<forall>at \<in> set pre. goes_on at) \<and> at_dial at = Some denied)"
proof -
  let ?busy = "\<lparr>causeErr = ''bad handshake'', response = Some \<lparr>StatusCode = 500, Header = Map.empty\<rparr>\<rparr>"
  let ?denied = "\<lparr>causeErr = ''bad handshake'', response = Some \<lparr>StatusCode = 400, Header = Map.empty\<rparr>\<rparr>"
  let ?ats = "map (\<lambda>ce. refused ce (silent_attempt None)) [?busy, ?denied]"
  have r: "client_Run demo_env ?ats demo_client = Return (Some (Some (NotRetryable ?denied)), demo_client)"
    by (simp add: client_start_def client_connect_def refused_def tunnelClosed_def retryable_def
        header_Get_def StatusReasonTunnelClosed_def)
  show ?thesis
    using r Run_returns_as_documented [OF r] by (auto simp: Let_def)
qed

end
