(* ===== verification/Client_Machine.thy ===== *)
theory Client_Machine
  imports Aws_Client
begin

text \<open>
  The goroutines of the client together: the reader handles messages, workers take and run
  closures, the goroutines of \<^verbatim>\<open>workerManager.stop\<close> run, connections come and go.  The contract
  between the client and its listeners is the locale \<open>client_listeners\<close>: handlers keep the
  invariant of the program and touch the workers only by asking for a stop; the client then
  keeps the invariant, and no goroutine of it panics.
\<close>

section \<open>The steps\<close>

definition set_worker :: "nat \<Rightarrow> 'f worker \<Rightarrow> 'f workerManager \<Rightarrow> 'f workerManager" where
  "set_worker i w m = m\<lparr>mg_workers := (mg_workers m)[i := w]\<rparr>"

text \<open>The goroutine of \<^verbatim>\<open>workerManager.stop\<close>, with the effects of the closures that still run.\<close>

definition client_stop_run ::
  "'a awsClient_scheme client_env \<Rightarrow> nat \<Rightarrow> int32 \<Rightarrow> 'a awsClient_scheme \<Rightarrow>
     'a awsClient_scheme outcome" where
  "client_stop_run env k streamID s =
     (let s1 = s\<lparr>workerMng := (workerMng s)\<lparr>mg_stopping := remove1 streamID (mg_stopping (workerMng s))\<rparr>\<rparr>
      in (case workerMap (workerMng s1) streamID of
            None \<Rightarrow> Return s1
          | Some i \<Rightarrow>
              bind_outcome (stop_worker env k i s1) (\<lambda>s2.
                Return (s2\<lparr>workerMng := (workerMng s2)
                          \<lparr>workerMap := (workerMap (workerMng s2))(streamID := None)\<rparr>\<rparr>))))"

definition worker_done :: "nat \<Rightarrow> task \<Rightarrow> 'a awsClient_scheme \<Rightarrow> 'a awsClient_scheme" where
  "worker_done i t s =
     (let w = mg_workers (workerMng s) ! i
      in s\<lparr>workerMng := set_worker i (w\<lparr>busy := None, executed := executed w @ [t]\<rparr>) (workerMng s)\<rparr>)"

inductive client_step ::
  "'a awsClient_scheme client_env \<Rightarrow> 'a awsClient_scheme \<Rightarrow> 'a awsClient_scheme \<Rightarrow> bool"
  for env :: "'a awsClient_scheme client_env" where
  handles: "handle_message env m s = Return s' \<Longrightarrow> client_step env s s'"
| takes_task: "i < length (mg_workers (workerMng s)) \<Longrightarrow>
    mg_workers (workerMng s) ! i = w \<Longrightarrow> w_phase w = Working \<Longrightarrow> busy w = None \<Longrightarrow>
    chExec w = t # ts \<Longrightarrow>
    client_step env s
      (s\<lparr>workerMng := set_worker i (w\<lparr>chExec := ts, busy := Some t\<rparr>) (workerMng s)\<rparr>)"
| finishes_task: "i < length (mg_workers (workerMng s)) \<Longrightarrow>
    mg_workers (workerMng s) ! i = w \<Longrightarrow> w_phase w = Working \<Longrightarrow> busy w = Some t \<Longrightarrow>
    run_task env t s = Return s' \<Longrightarrow> client_step env s (worker_done i t s')"
| stop_goroutine: "streamID \<in> set (mg_stopping (workerMng s)) \<Longrightarrow>
    client_stop_run env k streamID s = Return s' \<Longrightarrow> client_step env s s'"
| stops_all: "client_stopAll env ks order s = Return s' \<Longrightarrow> client_step env s s'"
| connects: "client_step env s (s\<lparr>cl_conns := cl_conns s @ [True]\<rparr>)"
| closes: "client_step env s (snd (client_close frame_err close_err s))"

inductive_cases client_stepE: "client_step env s s'"

section \<open>The streams of the workers\<close>

abbreviation stream_of :: "task \<Rightarrow> int32" where
  "stream_of t \<equiv> StreamId (task_message t)"

text \<open>
  \<open>acc\<close> lists what each worker accepted, in the order in which the workers were made.  A worker
  has the closures of one stream, the one the map gives it; the worker in the map is the last
  one with closures of its stream; and what was accepted for a stream is what its workers
  accepted, one after the other.
\<close>

definition streams_ok :: "(int32 \<rightharpoonup> nat) \<Rightarrow> task list list \<Rightarrow> task list \<Rightarrow> bool" where
  "streams_ok wm acc taken \<longleftrightarrow>
     (\<forall>ts \<in> set acc. \<exists>s. \<forall>t \<in> set ts. stream_of t = s) \<and>
     (\<forall>s i. wm s = Some i \<longrightarrow> i < length acc \<and> (\<forall>t \<in> set (acc ! i). stream_of t = s)) \<and>
     (\<forall>s i j. wm s = Some i \<longrightarrow> i < j \<longrightarrow> j < length acc \<longrightarrow> (\<forall>t \<in> set (acc ! j). stream_of t \<noteq> s)) \<and>
     (\<forall>s. filter (\<lambda>t. stream_of t = s) taken = filter (\<lambda>t. stream_of t = s) (concat acc))"

lemma streams_okD:
  assumes "streams_ok wm acc taken"
  shows "ts \<in> set acc \<Longrightarrow> \<exists>s. \<forall>t \<in> set ts. stream_of t = s"
    "wm s = Some i \<Longrightarrow> i < length acc"
    "wm s = Some i \<Longrightarrow> t \<in> set (acc ! i) \<Longrightarrow> stream_of t = s"
    "wm s = Some i \<Longrightarrow> i < j \<Longrightarrow> j < length acc \<Longrightarrow> t \<in> set (acc ! j) \<Longrightarrow> stream_of t \<noteq> s"
    "filter (\<lambda>t. stream_of t = s) taken = filter (\<lambda>t. stream_of t = s) (concat acc)"
  using assms unfolding streams_ok_def by blast+

lemma streams_ok_empty [simp]: "streams_ok Map.empty [] []"
  by (simp add: streams_ok_def)

lemma streams_ok_del: "streams_ok wm acc taken \<Longrightarrow> streams_ok (wm(s := None)) acc taken"
  unfolding streams_ok_def by simp

lemma streams_ok_start:
  "streams_ok wm acc taken \<Longrightarrow> streams_ok (wm(s \<mapsto> length acc)) (acc @ [[]]) taken"
  unfolding streams_ok_def
  by (auto simp: nth_append less_Suc_eq dest: less_trans split: if_splits)

lemma concat_list_update:
  "i < length xss \<Longrightarrow> concat (xss[i := ys]) = concat (take i xss) @ ys @ concat (drop (Suc i) xss)"
  by (simp add: upd_conv_take_nth_drop)

lemma filter_later_streams:
  assumes "streams_ok wm acc taken" and "wm s = Some i"
  shows "filter (\<lambda>t. stream_of t = s) (concat (drop (Suc i) acc)) = []"
proof -
  have "stream_of t \<noteq> s" if "ts \<in> set (drop (Suc i) acc)" and "t \<in> set ts" for t ts
  proof -
    from that(1) obtain j where "j < length (drop (Suc i) acc)" "drop (Suc i) acc ! j = ts"
      by (metis in_set_conv_nth)
    then have "i < Suc i + j" "Suc i + j < length acc" "acc ! (Suc i + j) = ts"
      by (simp_all add: less_diff_conv add.commute)
    then show ?thesis using streams_okD(4) [OF assms] that(2) by blast
  qed
  then show ?thesis by (auto simp: filter_empty_conv)
qed

lemma streams_ok_exec:
  assumes ok: "streams_ok wm acc taken" and wm: "wm (stream_of t) = Some i"
    and inj: "\<And>s. wm s = Some i \<Longrightarrow> s = stream_of t"
  shows "streams_ok wm (acc[i := acc ! i @ [t]]) (taken @ [t])"
proof -
  note D = streams_okD [OF ok]
  have i: "i < length acc" by (rule D(2) [OF wm])
  let ?acc = "acc[i := acc ! i @ [t]]"
  have at: "?acc ! j = (if j = i then acc ! i @ [t] else acc ! j)" if "j < length acc" for j
    using that i by simp
  have 1: "\<exists>s. \<forall>u \<in> set ts. stream_of u = s" if "ts \<in> set ?acc" for ts
  proof -
    from that obtain j where j: "j < length acc" "ts = ?acc ! j" by (metis in_set_conv_nth length_list_update)
    then show ?thesis
      using D(1) [of "acc ! j"] D(3) [OF wm] by (cases "j = i") (auto simp: at)
  qed
  have 2: "stream_of u = s" if "wm s = Some j" "u \<in> set (?acc ! j)" for s j u
    using that D(3) [OF that(1)] D(2) [OF that(1)] inj by (cases "j = i") (auto simp: at)
  have 3: "stream_of u \<noteq> s" if "wm s = Some j" "j < j'" "j' < length acc" "u \<in> set (?acc ! j')" for s j j' u
  proof (cases "j' = i")
    case False
    then show ?thesis using that D(4) [OF that(1-3)] by (auto simp: at)
  next
    case True
    have "s \<noteq> stream_of t" using that(1,2) wm True by auto
    moreover have "stream_of u = stream_of t"
      using that(3,4) D(3) [OF wm] True by (auto simp: at)
    ultimately show ?thesis by simp
  qed
  have 4: "filter (\<lambda>u. stream_of u = s) (taken @ [t]) = filter (\<lambda>u. stream_of u = s) (concat ?acc)" for s
  proof -
    have "concat acc = concat (take i acc) @ acc ! i @ concat (drop (Suc i) acc)"
      using concat_list_update [OF i, of "acc ! i"] by simp
    then show ?thesis
      using D(5) [of s] filter_later_streams [OF ok wm]
      by (cases "stream_of t = s") (simp_all add: concat_list_update [OF i])
  qed
  show ?thesis
    unfolding streams_ok_def using 1 2 3 4 D(2) by simp
qed

section \<open>The invariant of the client\<close>

definition cl_inv :: "'a awsClient_scheme \<Rightarrow> bool" where
  "cl_inv s \<longleftrightarrow>
     mng_inv channelBufSizePerStreamID (workerMng s) \<and>
     streams_ok (workerMap (workerMng s)) (map w_accepted (mg_workers (workerMng s))) (cl_taken s)"

lemma cl_invD:
  assumes "cl_inv s"
  shows "mng_inv channelBufSizePerStreamID (workerMng s)"
    "streams_ok (workerMap (workerMng s)) (map w_accepted (mg_workers (workerMng s))) (cl_taken s)"
  using assms by (simp_all add: cl_inv_def)

text \<open>The fields of the client that the invariant reads.\<close>

definition with_workers :: "task workerManager \<Rightarrow> task list \<Rightarrow> 'a awsClient_scheme \<Rightarrow> 'a awsClient_scheme" where
  "with_workers m ts s = s\<lparr>workerMng := m, cl_taken := ts\<rparr>"

lemma cl_inv_with_workers:
  "cl_inv (with_workers m ts s) \<longleftrightarrow>
     mng_inv channelBufSizePerStreamID m \<and> streams_ok (workerMap m) (map w_accepted (mg_workers m)) ts"
  by (simp add: cl_inv_def with_workers_def)

text \<open>What a handler of a listener may do to the client: ask for stops, and send.\<close>

definition same_workers :: "'a awsClient_scheme \<Rightarrow> 'a awsClient_scheme \<Rightarrow> bool" where
  "same_workers s s' \<longleftrightarrow>
     workerMap (workerMng s') = workerMap (workerMng s) \<and>
     mg_workers (workerMng s') = mg_workers (workerMng s) \<and>
     bufSize (workerMng s') = bufSize (workerMng s) \<and>
     cl_taken s' = cl_taken s \<and> cl_handled s' = cl_handled s \<and>
     length (cl_conns s') = length (cl_conns s)"

lemma same_workers_refl [simp]: "same_workers s s"
  by (simp add: same_workers_def)

lemma same_workers_trans: "same_workers s s' \<Longrightarrow> same_workers s' s'' \<Longrightarrow> same_workers s s''"
  by (simp add: same_workers_def)

lemma same_workers_cl_inv: "same_workers s s' \<Longrightarrow> cl_inv s' = cl_inv s"
  by (simp add: same_workers_def cl_inv_def mng_inv_def)

lemma same_workers_stop [simp]:
  "same_workers s (s\<lparr>workerMng := mng_stop sid (workerMng s)\<rparr>)"
  by (simp add: same_workers_def mng_stop_def)

lemma sendMessage_same_workers:
  "sendMessage io sid svc ty d s = Return (e, s') \<Longrightarrow> same_workers s s'"
  by (auto simp: sendMessage_def Let_def same_workers_def split: sum.splits option.splits if_splits)

lemma sendMessage_not_Panic: "cl_conns s \<noteq> [] \<Longrightarrow> sendMessage io sid svc ty d s \<noteq> Panic"
  by (auto simp: sendMessage_def Let_def split: sum.splits option.splits)

lemma sendMessage_not_Blocked: "sendMessage io sid svc ty d s \<noteq> Blocked"
  by (auto simp: sendMessage_def Let_def split: sum.splits option.splits)

lemma SendStreamReset_same_workers:
  "SendStreamReset io sid svc s = Return (e, s') \<Longrightarrow> same_workers s s'"
  unfolding SendStreamReset_def
  by (auto dest!: sendMessage_same_workers intro: same_workers_trans [OF same_workers_stop])

lemma SendData_same_workers: "SendData io sid svc d s = Return (e, s') \<Longrightarrow> same_workers s s'"
  unfolding SendData_def by (auto dest!: sendMessage_same_workers)

text \<open>Operations of the manager.\<close>

lemma cl_inv_start:
  assumes "cl_inv s" and "mng_start sid (workerMng s) = Return m"
  shows "cl_inv (s\<lparr>workerMng := m\<rparr>)"
  using cl_invD(2) [OF assms(1), THEN streams_ok_start, of sid] mng_start_inv [OF cl_invD(1) [OF assms(1)] assms(2)]
    assms(2)
  by (auto simp: cl_inv_def mng_start_Return NewWorker_def)

lemma mng_exec_cases:
  assumes "mng_exec sid f m = Return (b, m')"
  obtains "workerMap m sid = None" "b = False" "m' = m"
  | i where "workerMap m sid = Some i" "b = True"
      "m' = set_worker i ((mg_workers m ! i)\<lparr>chExec := chExec (mg_workers m ! i) @ [f],
              w_accepted := w_accepted (mg_workers m ! i) @ [f]\<rparr>) m"
  using assms
  by (auto simp: mng_exec_def set_worker_def Worker_Exec_def split: option.splits if_splits)

lemma exec_task_cl_inv:
  assumes "cl_inv s" and "exec_task t s = Return s'"
  shows "cl_inv s'"
proof -
  from assms(2) obtain b m where e: "mng_exec (stream_of t) t (workerMng s) = Return (b, m)"
    and s': "s' = s\<lparr>workerMng := m, cl_taken := (if b then cl_taken s @ [t] else cl_taken s)\<rparr>"
    by (auto simp: exec_task_def)
  have m: "mng_inv channelBufSizePerStreamID m"
    by (rule mng_exec_inv [OF cl_invD(1) [OF assms(1)] e])
  show ?thesis
  proof (rule mng_exec_cases [OF e])
    assume "workerMap (workerMng s) (stream_of t) = None" "b = False" "m = workerMng s"
    then show ?thesis using assms(1) s' by simp
  next
    fix i
    let ?w = "mg_workers (workerMng s) ! i"
    assume i: "workerMap (workerMng s) (stream_of t) = Some i" and b: "b = True"
      and m': "m = set_worker i (?w\<lparr>chExec := chExec ?w @ [t], w_accepted := w_accepted ?w @ [t]\<rparr>) (workerMng s)"
    have l: "i < length (mg_workers (workerMng s))"
      by (rule mng_invD(2) [OF cl_invD(1) [OF assms(1)] i])
    have "streams_ok (workerMap (workerMng s))
        ((map w_accepted (mg_workers (workerMng s)))[i := w_accepted ?w @ [t]]) (cl_taken s @ [t])"
      using streams_ok_exec [OF cl_invD(2) [OF assms(1)] i] mng_invD(4) [OF cl_invD(1) [OF assms(1)] i] l
      by simp
    then show ?thesis
      using m b m' s' l by (simp add: cl_inv_def set_worker_def map_update)
  qed
qed

lemma map_list_update_same:
  "i < length xs \<Longrightarrow> f x = f (xs ! i) \<Longrightarrow> map f (xs[i := x]) = map f xs"
  by (metis list_update_id map_update nth_map)

lemma cl_inv_set_worker:
  assumes "cl_inv s" and "i < length (mg_workers (workerMng s))"
    and "mng_worker_ok channelBufSizePerStreamID w"
    and "w_accepted w = w_accepted (mg_workers (workerMng s) ! i)"
  shows "cl_inv (s\<lparr>workerMng := set_worker i w (workerMng s)\<rparr>)"
  using assms mng_inv_worker [OF cl_invD(1) [OF assms(1)] assms(3), of i]
  by (simp add: cl_inv_def set_worker_def map_list_update_same)

lemma cl_inv_unmap:
  "cl_inv s \<Longrightarrow> cl_inv (s\<lparr>workerMng := (workerMng s)
     \<lparr>workerMap := (workerMap (workerMng s))(sid := None)\<rparr>\<rparr>)"
  by (auto simp: cl_inv_def streams_ok_del mng_inv_def wmap_ok_del)

lemma cl_inv_worker_step:
  assumes "cl_inv s" and "i < length (mg_workers (workerMng s))"
    and "worker_step (mg_workers (workerMng s) ! i) w"
  shows "cl_inv (s\<lparr>workerMng := set_worker i w (workerMng s)\<rparr>)"
proof (rule cl_inv_set_worker [OF assms(1,2)])
  show "mng_worker_ok channelBufSizePerStreamID w"
    using mng_worker_ok_step mng_invD(3) cl_invD(1) assms by blast
  show "w_accepted w = w_accepted (mg_workers (workerMng s) ! i)"
    using assms(3) by (auto elim: worker_stepE)
qed

lemma cl_inv_Stop:
  assumes "cl_inv s" and "i < length (mg_workers (workerMng s))"
    and "Worker_Stop k (mg_workers (workerMng s) ! i) = Return w"
  shows "cl_inv (s\<lparr>workerMng := set_worker i w (workerMng s)\<rparr>)"
proof (rule cl_inv_set_worker [OF assms(1,2)])
  show "mng_worker_ok channelBufSizePerStreamID w"
    using mng_worker_ok_Stop mng_invD(3) cl_invD(1) assms by blast
  show "w_accepted w = w_accepted (mg_workers (workerMng s) ! i)"
    using assms(3) by (auto simp: Worker_Stop_def cancel_ctx_def split: if_splits)
qed

lemma with_workers_simps:
  "s\<lparr>workerMng := m\<rparr> = with_workers m (cl_taken s) s"
  "s\<lparr>workerMng := m, cl_taken := ts\<rparr> = with_workers m ts s"
  by (simp_all add: with_workers_def)

text \<open>A closure in a worker was accepted.\<close>

lemma accepted_in_taken:
  assumes "cl_inv s" and "w \<in> set (mg_workers (workerMng s))" and "t \<in> set (w_accepted w)"
  shows "t \<in> set (cl_taken s)"
proof -
  have "t \<in> set (filter (\<lambda>u. stream_of u = stream_of t) (concat (map w_accepted (mg_workers (workerMng s)))))"
    using assms(2,3) by auto
  then show ?thesis
    using streams_okD(5) [OF cl_invD(2) [OF assms(1)], of "stream_of t"] by (metis filter_is_subset subsetD)
qed

lemma worker_tasks_taken:
  assumes "cl_inv s" and "i < length (mg_workers (workerMng s))"
  shows "set (in_hand (mg_workers (workerMng s) ! i) @ chExec (mg_workers (workerMng s) ! i)) \<subseteq>
    set (cl_taken s)"
proof -
  let ?w = "mg_workers (workerMng s) ! i"
  have "worker_inv ?w"
    using mng_invD(3) [OF cl_invD(1) [OF assms(1)] assms(2)] by (simp add: mng_worker_ok_def)
  then have "set (in_hand ?w @ chExec ?w) \<subseteq> set (w_accepted ?w)"
    by (auto simp: worker_inv_def in_hand_def)
  then show ?thesis using accepted_in_taken [OF assms(1) nth_mem [OF assms(2)]] by blast
qed

section \<open>The contract with the listeners\<close>

definition handler_ok ::
  "('a awsClient_scheme \<Rightarrow> bool) \<Rightarrow> ('a awsClient_scheme \<Rightarrow> 'a awsClient_scheme outcome) \<Rightarrow> bool" where
  "handler_ok Inv h \<longleftrightarrow>
     (\<forall>s. Inv s \<longrightarrow> h s \<noteq> Panic \<and> (\<forall>s'. h s = Return s' \<longrightarrow> Inv s' \<and> same_workers s s'))"

lemma handler_okI:
  "(\<And>s. Inv s \<Longrightarrow> h s \<noteq> Panic) \<Longrightarrow>
   (\<And>s s'. Inv s \<Longrightarrow> h s = Return s' \<Longrightarrow> Inv s' \<and> same_workers s s') \<Longrightarrow> handler_ok Inv h"
  by (simp add: handler_ok_def)

lemma handler_okD:
  assumes "handler_ok Inv h" and "Inv s"
  shows "h s \<noteq> Panic" "h s = Return s' \<Longrightarrow> Inv s'" "h s = Return s' \<Longrightarrow> same_workers s s'"
  using assms by (auto simp: handler_ok_def)

text \<open>A handler with an error result, seen without it.\<close>

definition effect :: "('s \<Rightarrow> ('e \<times> 's) outcome) \<Rightarrow> 's \<Rightarrow> 's outcome" where
  "effect h s = bind_outcome (h s) (\<lambda>(e, s'). Return s')"

lemma effect_simps [simp]:
  "effect h s = Panic \<longleftrightarrow> h s = Panic" "effect h s = Return s' \<longleftrightarrow> (\<exists>e. h s = Return (e, s'))"
  by (auto simp: effect_def)

text \<open>Every closure names a listener.\<close>

definition tasks_ok :: "'a awsClient_scheme client_env \<Rightarrow> 'a awsClient_scheme \<Rightarrow> bool" where
  "tasks_ok env s \<longleftrightarrow> (\<forall>t \<in> set (cl_taken s). task_listener t < length (messageListeners env))"

lemma same_workers_tasks_ok: "same_workers s s' \<Longrightarrow> tasks_ok env s' = tasks_ok env s"
  by (simp add: same_workers_def tasks_ok_def)

lemma exec_task_tasks_ok:
  "exec_task t s = Return s' \<Longrightarrow> tasks_ok env s \<Longrightarrow>
     task_listener t < length (messageListeners env) \<Longrightarrow> tasks_ok env s'"
  by (auto simp: exec_task_def tasks_ok_def split: if_splits)

lemma mng_start_not_Panic: "mng_start sid m \<noteq> Panic"
  by (simp add: mng_start_Return)

lemma mng_exec_not_Panic: "mng_exec sid f m \<noteq> Panic"
  by (auto simp: mng_exec_def Worker_Exec_def split: option.splits)

lemma exec_task_not_Panic: "exec_task t s \<noteq> Panic"
  by (auto simp: exec_task_def mng_exec_not_Panic)

lemma exec_task_with_workers:
  "exec_task t s = Return s' \<Longrightarrow> \<exists>m ts. s' = with_workers m ts s"
  by (auto simp: exec_task_def with_workers_def)

locale client_listeners =
  fixes env :: "'a awsClient_scheme client_env"
    and Inv :: "'a awsClient_scheme \<Rightarrow> bool"
  assumes inv_client: "Inv s \<Longrightarrow> cl_inv s"
    and inv_connected: "Inv s \<Longrightarrow> cl_conns s \<noteq> []"
    and inv_conns: "Inv s \<Longrightarrow> length (cl_conns s) \<le> length cs \<Longrightarrow> Inv (s\<lparr>cl_conns := cs\<rparr>)"
    and inv_handled: "Inv s \<Longrightarrow> Inv (s\<lparr>cl_handled := ms\<rparr>)"
    and inv_workers: "Inv s \<Longrightarrow> cl_inv (with_workers m ts s) \<Longrightarrow> Inv (with_workers m ts s)"
    and inv_reset_sent: "Inv s \<Longrightarrow>
      sendMessage (env_io env) sid svc Message_STREAM_RESET [] s = Return (e, s') \<Longrightarrow> Inv s'"
    and stream_start_ok: "L \<in> set (messageListeners env) \<Longrightarrow> handler_ok Inv (effect (OnStreamStart L msg))"
    and stream_reset_ok: "L \<in> set (messageListeners env) \<Longrightarrow> handler_ok Inv (OnStreamReset L msg)"
    and session_reset_ok: "L \<in> set (messageListeners env) \<Longrightarrow> handler_ok Inv (OnSessionReset L msg)"
    and data_ok: "L \<in> set (messageListeners env) \<Longrightarrow> handler_ok Inv (effect (OnData L msg))"
    and service_ids_ok: "L \<in> set (messageListeners env) \<Longrightarrow> handler_ok Inv (effect (OnServiceIDs L msg))"
begin

lemma inv_same_workers:
  assumes "Inv s" and "cl_inv (s\<lparr>workerMng := m\<rparr>)"
  shows "Inv (s\<lparr>workerMng := m\<rparr>)"
  using inv_workers [OF assms(1), of m "cl_taken s"] assms(2) by (simp add: with_workers_simps)

lemma inv_stop: "Inv s \<Longrightarrow> Inv (s\<lparr>workerMng := mng_stop sid (workerMng s)\<rparr>)"
  using same_workers_cl_inv [OF same_workers_stop] inv_same_workers inv_client by blast

lemma SendStreamReset_ok: "handler_ok Inv (effect (SendStreamReset (env_io env) sid svc))"
proof (rule handler_okI)
  fix s
  assume s: "Inv s"
  then show "effect (SendStreamReset (env_io env) sid svc) s \<noteq> Panic"
    using sendMessage_not_Panic [of "s\<lparr>workerMng := mng_stop sid (workerMng s)\<rparr>" "env_io env"] inv_connected [OF s]
    by (auto simp: SendStreamReset_def)
  fix s'
  assume r: "effect (SendStreamReset (env_io env) sid svc) s = Return s'"
  then have "Inv s'"
    using inv_reset_sent [OF inv_stop [OF s]] by (auto simp: SendStreamReset_def)
  moreover have "same_workers s s'" using r SendStreamReset_same_workers by auto
  ultimately show "Inv s' \<and> same_workers s s'" ..
qed

text \<open>A handler that is followed by a reset when it fails, as in \<^verbatim>\<open>invokeEvent\<close>.\<close>

lemma reset_on_error_ok:
  assumes "handler_ok Inv (effect h)"
  shows "handler_ok Inv (\<lambda>s. bind_outcome (h s) (\<lambda>(err, s).
      if err = None then Return s
      else bind_outcome (SendStreamReset (env_io env) sid svc s) (\<lambda>(_, s). Return s)))"
    (is "handler_ok Inv ?f")
proof (rule handler_okI)
  note R = handler_okD [OF SendStreamReset_ok]
  fix s
  assume s: "Inv s"
  note H = handler_okD [OF assms s]
  show "?f s \<noteq> Panic"
    using H R by (auto split: if_splits)
  fix s'
  assume "?f s = Return s'"
  then obtain e s1 where h: "h s = Return (e, s1)"
    and "s' = s1 \<or> (\<exists>e'. SendStreamReset (env_io env) sid svc s1 = Return (e', s'))"
    by (auto split: if_splits)
  then show "Inv s' \<and> same_workers s s'"
    using H(2,3) [of s1] R(2) [of s1 _ _ s'] SendStreamReset_same_workers [of "env_io env" sid svc s1 _ s']
      same_workers_trans [of s s1 s'] by auto
qed

lemma listener_at: "l < length (messageListeners env) \<Longrightarrow> messageListeners env ! l \<in> set (messageListeners env)"
  by simp

lemma run_task_ok: "task_listener t < length (messageListeners env) \<Longrightarrow> handler_ok Inv (run_task env t)"
proof (cases t)
  case (DataTask l m)
  assume "task_listener t < length (messageListeners env)"
  then have ok: "handler_ok Inv (effect (OnData (messageListeners env ! l) m))"
    using data_ok DataTask by simp
  have "run_task env t = (\<lambda>s. bind_outcome (OnData (messageListeners env ! l) m s) (\<lambda>(err, s).
      if err = None then Return s
      else bind_outcome (SendStreamReset (env_io env) (StreamId m) (ServiceId m) s) (\<lambda>(_, s). Return s)))"
    by (rule ext) (simp add: DataTask)
  then show ?thesis using reset_on_error_ok [OF ok, of "StreamId m" "ServiceId m"] by simp
next
  case (ResetTask l m)
  assume "task_listener t < length (messageListeners env)"
  then have ok: "handler_ok Inv (OnStreamReset (messageListeners env ! l) m)"
    using stream_reset_ok ResetTask by simp
  show ?thesis
  proof (rule handler_okI)
    fix s
    assume s: "Inv s"
    show "run_task env t s \<noteq> Panic"
      using handler_okD(1) [OF ok s] ResetTask by simp
    fix s'
    assume "run_task env t s = Return s'"
    then show "Inv s' \<and> same_workers s s'"
      using handler_okD(2,3) [OF ok s] ResetTask inv_stop same_workers_trans [OF _ same_workers_stop]
      by auto
  qed
qed

text \<open>The reader.\<close>

lemma handler_tasks_ok:
  "handler_ok Inv h \<Longrightarrow> Inv s \<Longrightarrow> h s = Return s' \<Longrightarrow> tasks_ok env s \<Longrightarrow> Inv s' \<and> tasks_ok env s'"
  using handler_okD same_workers_tasks_ok by blast

lemma exec_task_Inv:
  "Inv s \<Longrightarrow> tasks_ok env s \<Longrightarrow> task_listener t < length (messageListeners env) \<Longrightarrow>
     exec_task t s = Return s' \<Longrightarrow> Inv s' \<and> tasks_ok env s'"
  using exec_task_cl_inv exec_task_tasks_ok exec_task_with_workers inv_client inv_workers by metis

lemma start_task_Inv:
  assumes "Inv s" and "tasks_ok env s" and "mng_start sid (workerMng s) = Return m"
  shows "Inv (s\<lparr>workerMng := m\<rparr>) \<and> tasks_ok env (s\<lparr>workerMng := m\<rparr>)"
proof
  show "Inv (s\<lparr>workerMng := m\<rparr>)"
    by (rule inv_same_workers [OF assms(1) cl_inv_start [OF inv_client [OF assms(1)] assms(3)]])
  show "tasks_ok env (s\<lparr>workerMng := m\<rparr>)" using assms(2) by (simp add: tasks_ok_def)
qed

lemma invokeEvent_Inv:
  assumes "Inv s" and "tasks_ok env s" and "l < length (messageListeners env)"
  shows "invokeEvent env l message s \<noteq> Panic \<and>
    (\<forall>s'. invokeEvent env l message s = Return s' \<longrightarrow> Inv s' \<and> tasks_ok env s')"
proof -
  let ?L = "messageListeners env ! l"
  have L: "?L \<in> set (messageListeners env)" using assms(3) by simp
  consider (start) "Type message = Message_STREAM_START" | (data) "Type message = Message_DATA"
    | (sreset) "Type message = Message_STREAM_RESET" | (session) "Type message = Message_SESSION_RESET"
    | (ids) "Type message = Message_SERVICE_IDS"
    | (other) "Type message \<notin> {Message_STREAM_START, Message_DATA, Message_STREAM_RESET,
        Message_SESSION_RESET, Message_SERVICE_IDS}"
    by auto
  then show ?thesis
  proof cases
    case start
    let ?h = "\<lambda>s. bind_outcome (OnStreamStart ?L message s) (\<lambda>(err, s).
      if err = None then Return s
      else bind_outcome (SendStreamReset (env_io env) (StreamId message) (ServiceId message) s)
             (\<lambda>(_, s). Return s))"
    have ok: "handler_ok Inv ?h" by (rule reset_on_error_ok [OF stream_start_ok [OF L]])
    obtain m where m: "mng_start (StreamId message) (workerMng s) = Return m"
      by (simp add: mng_start_Return)
    have eq: "invokeEvent env l message s = ?h (s\<lparr>workerMng := m\<rparr>)"
      using start m by (simp add: invokeEvent_def Let_def)
    show ?thesis
      unfolding eq
      using handler_okD(1) [OF ok] handler_tasks_ok [OF ok] start_task_Inv [OF assms(1,2) m] by blast
  next
    case data
    then have "invokeEvent env l message s = exec_task (DataTask l message) s"
      by (simp add: invokeEvent_def Let_def message_type_defs)
    then show ?thesis
      using exec_task_Inv [OF assms(1,2), of "DataTask l message"] assms(3) exec_task_not_Panic by simp
  next
    case sreset
    then have "invokeEvent env l message s = exec_task (ResetTask l message) s"
      by (simp add: invokeEvent_def Let_def message_type_defs)
    then show ?thesis
      using exec_task_Inv [OF assms(1,2), of "ResetTask l message"] assms(3) exec_task_not_Panic by simp
  next
    case session
    then have "invokeEvent env l message s = OnSessionReset ?L message s"
      by (simp add: invokeEvent_def Let_def message_type_defs)
    then show ?thesis
      using handler_okD(1) [OF session_reset_ok [OF L] assms(1)]
        handler_tasks_ok [OF session_reset_ok [OF L] assms(1)] assms(2) by simp
  next
    case ids
    then have "invokeEvent env l message s = effect (OnServiceIDs ?L message) s"
      by (simp add: invokeEvent_def Let_def message_type_defs effect_def)
    then show ?thesis
      using handler_okD(1) [OF service_ids_ok [OF L] assms(1)]
        handler_tasks_ok [OF service_ids_ok [OF L] assms(1)] assms(2) by simp
  next
    case other
    then show ?thesis using assms by (simp add: invokeEvent_def Let_def)
  qed
qed

lemma invoke_listeners_Inv:
  "Inv s \<Longrightarrow> tasks_ok env s \<Longrightarrow> set ls \<subseteq> {..<length (messageListeners env)} \<Longrightarrow>
     invoke_listeners env ls message s \<noteq> Panic \<and>
     (\<forall>s'. invoke_listeners env ls message s = Return s' \<longrightarrow> Inv s' \<and> tasks_ok env s')"
proof (induction ls arbitrary: s)
  case (Cons l ls)
  note e = invokeEvent_Inv [OF Cons.prems(1,2), of l message]
  show ?case
    using e Cons.IH Cons.prems(3)
    by (cases "invokeEvent env l message s") auto
qed simp

lemma handle_message_Inv:
  assumes "Inv s" and "tasks_ok env s"
  shows "handle_message env message s \<noteq> Panic \<and>
     (\<forall>s'. handle_message env message s = Return s' \<longrightarrow> Inv s' \<and> tasks_ok env s')"
proof -
  let ?s = "s\<lparr>cl_handled := cl_handled s @ [message]\<rparr>"
  have s: "Inv ?s" "tasks_ok env ?s" using inv_handled [OF assms(1)] assms(2) by (simp_all add: tasks_ok_def)
  have "set [0 ..< length (messageListeners env)] \<subseteq> {..<length (messageListeners env)}" by auto
  from invoke_listeners_Inv [OF s this, of message] s show ?thesis
    by (simp add: handle_message_def Let_def)
qed

text \<open>The workers.\<close>

lemma run_tasks_ok:
  "\<forall>t \<in> set ts. task_listener t < length (messageListeners env) \<Longrightarrow> handler_ok Inv (run_tasks env ts)"
proof (induction ts)
  case Nil
  then show ?case by (simp add: handler_ok_def)
next
  case (Cons t ts)
  then have t: "handler_ok Inv (run_task env t)" and ts: "handler_ok Inv (run_tasks env ts)"
    using run_task_ok by simp_all
  show ?case
  proof (rule handler_okI)
    fix s
    assume s: "Inv s"
    show "run_tasks env (t # ts) s \<noteq> Panic"
      using handler_okD(1,2) [OF t s] handler_okD(1) [OF ts] by auto
    fix s'
    assume "run_tasks env (t # ts) s = Return s'"
    then obtain s1 where s1: "run_task env t s = Return s1" "run_tasks env ts s1 = Return s'" by auto
    have "Inv s1" by (rule handler_okD(2) [OF t s s1(1)])
    then show "Inv s' \<and> same_workers s s'"
      using handler_okD(3) [OF t s s1(1)] handler_okD(2,3) [OF ts _ s1(2)] same_workers_trans by blast
  qed
qed

lemma stop_worker_Inv:
  assumes "Inv s" and "tasks_ok env s" and "i < length (mg_workers (workerMng s))"
  shows "stop_worker env k i s \<noteq> Panic \<and>
    (\<forall>s'. stop_worker env k i s = Return s' \<longrightarrow> Inv s' \<and> tasks_ok env s' \<and>
       workerMap (workerMng s') = workerMap (workerMng s) \<and>
       length (mg_workers (workerMng s')) = length (mg_workers (workerMng s)))"
proof -
  let ?w = "mg_workers (workerMng s) ! i"
  let ?ts = "if chCancel ?w then in_hand ?w @ take k (chExec ?w) else []"
  have "set ?ts \<subseteq> set (in_hand ?w @ chExec ?w)" by (auto dest: in_set_takeD)
  then have "\<forall>t \<in> set ?ts. task_listener t < length (messageListeners env)"
    using worker_tasks_taken [OF inv_client [OF assms(1)] assms(3)] assms(2)
    unfolding tasks_ok_def by blast
  then have ok: "handler_ok Inv (run_tasks env ?ts)" by (rule run_tasks_ok)
  have ret: "stop_worker env k i s = Return s' \<longrightarrow> Inv s' \<and> tasks_ok env s' \<and>
       workerMap (workerMng s') = workerMap (workerMng s) \<and>
       length (mg_workers (workerMng s')) = length (mg_workers (workerMng s))" for s'
  proof
    assume "stop_worker env k i s = Return s'"
    then obtain s1 w where r: "run_tasks env ?ts s = Return s1"
      and w: "Worker_Stop k (mg_workers (workerMng s1) ! i) = Return w"
      and s': "s' = s1\<lparr>workerMng := set_worker i w (workerMng s1)\<rparr>"
      by (auto simp: stop_worker_def Let_def set_worker_def)
    have s1: "Inv s1" "same_workers s s1" using handler_okD(2,3) [OF ok assms(1) r] by simp_all
    then have m: "workerMap (workerMng s1) = workerMap (workerMng s)"
      "mg_workers (workerMng s1) = mg_workers (workerMng s)"
      by (simp_all add: same_workers_def)
    have "Inv s'"
      unfolding s' using inv_same_workers [OF s1(1)] cl_inv_Stop [OF inv_client [OF s1(1)] _ w] assms(3) m
      by simp
    moreover have "tasks_ok env s'"
      using same_workers_tasks_ok [OF s1(2)] assms(2) s' by (simp add: tasks_ok_def)
    ultimately show "Inv s' \<and> tasks_ok env s' \<and>
       workerMap (workerMng s') = workerMap (workerMng s) \<and>
       length (mg_workers (workerMng s')) = length (mg_workers (workerMng s))"
      using s' m by (simp add: set_worker_def)
  qed
  have "Worker_Stop k w \<noteq> Panic" for w :: "task worker" by (simp add: Worker_Stop_def)
  then have "stop_worker env k i s \<noteq> Panic"
    using handler_okD(1) [OF ok assms(1)] by (simp add: stop_worker_def Let_def)
  with ret show ?thesis by blast
qed

lemma stop_all_workers_Inv:
  "Inv s \<Longrightarrow> tasks_ok env s \<Longrightarrow> set is \<subseteq> {..<length (mg_workers (workerMng s))} \<Longrightarrow>
     stop_all_workers env k is s \<noteq> Panic \<and>
     (\<forall>s'. stop_all_workers env k is s = Return s' \<longrightarrow> Inv s' \<and> tasks_ok env s')"
proof (induction "is" arbitrary: s)
  case (Cons i "is")
  have "i < length (mg_workers (workerMng s))" using Cons.prems(3) by simp
  note w = stop_worker_Inv [OF Cons.prems(1,2) this, of "k i"]
  show ?case
  proof (cases "stop_worker env (k i) i s")
    case (Return s1)
    then have "Inv s1" "tasks_ok env s1" "set is \<subseteq> {..<length (mg_workers (workerMng s1))}"
      using w Cons.prems(3) by simp_all
    from Cons.IH [OF this] show ?thesis by (simp add: Return)
  qed (use w in simp_all)
qed simp

lemma client_stopAll_Inv:
  assumes "Inv s" and "tasks_ok env s"
  shows "client_stopAll env k order s \<noteq> Panic \<and>
     (\<forall>s'. client_stopAll env k order s = Return s' \<longrightarrow> Inv s' \<and> tasks_ok env s')"
  unfolding client_stopAll_def
  using stop_all_workers_Inv [OF assms] mng_getAll_range [OF cl_invD(1) [OF inv_client [OF assms(1)]]]
  by blast

lemma client_stop_run_Inv:
  assumes "Inv s" and "tasks_ok env s"
  shows "client_stop_run env k sid s \<noteq> Panic \<and>
     (\<forall>s'. client_stop_run env k sid s = Return s' \<longrightarrow> Inv s' \<and> tasks_ok env s')"
proof -
  let ?s1 = "s\<lparr>workerMng := (workerMng s)\<lparr>mg_stopping := remove1 sid (mg_stopping (workerMng s))\<rparr>\<rparr>"
  have "same_workers s ?s1" by (simp add: same_workers_def)
  then have s1: "Inv ?s1" "tasks_ok env ?s1"
    using inv_same_workers [OF assms(1)] same_workers_cl_inv inv_client [OF assms(1)] assms(2)
      same_workers_tasks_ok by blast+
  show ?thesis
  proof (cases "workerMap (workerMng s) sid")
    case None
    then show ?thesis using s1 by (simp add: client_stop_run_def Let_def)
  next
    case (Some i)
    then have i: "i < length (mg_workers (workerMng ?s1))"
      using mng_invD(2) [OF cl_invD(1) [OF inv_client [OF assms(1)]]] by simp
    note st = stop_worker_Inv [OF s1 i, of k]
    have eq: "client_stop_run env k sid s = bind_outcome (stop_worker env k i ?s1) (\<lambda>s2.
        Return (s2\<lparr>workerMng := (workerMng s2)\<lparr>workerMap := (workerMap (workerMng s2))(sid := None)\<rparr>\<rparr>))"
      using Some by (simp add: client_stop_run_def Let_def)
    show ?thesis
    proof (cases "stop_worker env k i ?s1")
      case (Return s2)
      then have "Inv s2" "tasks_ok env s2" using st by simp_all
      moreover from this have "Inv (s2\<lparr>workerMng := (workerMng s2)
          \<lparr>workerMap := (workerMap (workerMng s2))(sid := None)\<rparr>\<rparr>)"
        using inv_same_workers cl_inv_unmap inv_client by blast
      ultimately show ?thesis unfolding eq Return by (simp add: tasks_ok_def)
    qed (use st in \<open>simp_all add: eq\<close>)
  qed
qed

text \<open>Every step keeps the invariant.\<close>

lemma client_step_Inv:
  "client_step env s s' \<Longrightarrow> Inv s \<and> tasks_ok env s \<Longrightarrow> Inv s' \<and> tasks_ok env s'"
proof (induction rule: client_step.induct)
  case (handles m s s')
  then show ?case using handle_message_Inv by blast
next
  case (takes_task i s w t ts)
  have "worker_step (mg_workers (workerMng s) ! i) (w\<lparr>chExec := ts, busy := Some t\<rparr>)"
    using takes_task by (auto intro: worker_step.takes)
  then show ?case
    using cl_inv_worker_step [OF inv_client takes_task(1)] inv_same_workers takes_task
    by (auto simp: tasks_ok_def)
next
  case (finishes_task i s w t s')
  have "t \<in> set (cl_taken s)"
    using worker_tasks_taken [OF inv_client finishes_task(1)] finishes_task by (auto simp: in_hand_def)
  then have ok: "handler_ok Inv (run_task env t)"
    using run_task_ok finishes_task by (auto simp: tasks_ok_def)
  have s': "Inv s'" "same_workers s s'" "tasks_ok env s'"
    using handler_okD(2,3) [OF ok _ finishes_task(5)] finishes_task same_workers_tasks_ok by blast+
  then have m: "mg_workers (workerMng s') = mg_workers (workerMng s)" by (simp add: same_workers_def)
  have "worker_step (mg_workers (workerMng s') ! i) (w\<lparr>busy := None, executed := executed w @ [t]\<rparr>)"
    using finishes_task m by (auto intro: worker_step.finishes)
  then have "cl_inv (worker_done i t s')"
    using cl_inv_worker_step [OF inv_client [OF s'(1)], of i] finishes_task(1,2) m
    by (simp add: worker_done_def Let_def)
  then show ?case
    using inv_same_workers [OF s'(1)] s'(3) by (simp add: worker_done_def Let_def tasks_ok_def)
next
  case (stop_goroutine streamID s k s')
  then show ?case using client_stop_run_Inv by blast
next
  case (stops_all ks order s s')
  then show ?case using client_stopAll_Inv by blast
next
  case (connects s)
  then show ?case using inv_conns [of s "cl_conns s @ [True]"] by (simp add: tasks_ok_def)
next
  case (closes s frame_err close_err)
  then show ?case
    using inv_conns [of s] by (auto simp: client_close_def tasks_ok_def split: option.splits)
qed

end

end
