(* ===== verification/Local_Socket.thy ===== *)
theory Local_Socket
  imports Client_Machine
begin

text \<open>
  Local connections: \<^verbatim>\<open>proxy/socket.go\<close> and \<^verbatim>\<open>proxy/socket_manager.go\<close>.

  A socket has a goroutine that reads the local connection and hands what it reads to the
  \<^verbatim>\<open>SocketReader\<close>; the manager keeps the sockets by stream.  Connections and sockets live in
  heaps (lists), so a socket that is no longer in the map still exists.  The state extends that
  of the client, because the reader's handlers reach it.  Errors are texts: they are logged.
\<close>

section \<open>State\<close>

record conn =
  con_open :: bool
  con_written :: bytes     \<comment> \<open>history: what the local program was sent\<close>

text \<open>
  The goroutine of a socket waits in \<^verbatim>\<open>Read\<close> (\<open>Sucking\<close>), has data that it is about to hand
  over, or has ended: then \<^verbatim>\<open>chTerminate\<close> is closed.
\<close>

datatype socket_phase = Created | Sucking | Forwarding bytes | Ended

record localSocket =
  ls_streamID :: int32
  ls_serviceID :: string
  ls_con :: nat
  ls_phase :: socket_phase
  ls_read :: bytes         \<comment> \<open>history: what was read from the local program\<close>
  ls_forwarded :: bytes    \<comment> \<open>history: what \<^verbatim>\<open>OnReadData\<close> took\<close>

record localSockets = awsClient +
  lp_cons :: "conn list"
  lp_sockets :: "localSocket list"
  socketMap :: "int32 \<rightharpoonup> nat"
  lp_writes :: nat         \<comment> \<open>calls of \<^verbatim>\<open>con.Write\<close>\<close>
  lp_received :: "(int32 \<times> bytes) list"
    \<comment> \<open>history: the streams and the data that the manager's \<^verbatim>\<open>Write\<close> was called with\<close>

record 's SocketReader =
  OnReadData :: "int32 \<Rightarrow> string \<Rightarrow> bytes \<Rightarrow> 's \<Rightarrow> (string option \<times> 's) outcome"
  OnReadError :: "int32 \<Rightarrow> string \<Rightarrow> string \<Rightarrow> 's \<Rightarrow> 's outcome"

definition readBufSize :: nat where
  "readBufSize = 32 * 1024"

section \<open>A socket\<close>

text \<open>The texts that wrap the errors of the connection.\<close>

definition read_failed :: "string \<Rightarrow> string" where
  "read_failed err = ''failed to read data from local socket: '' @ err"

definition write_failed :: "string \<Rightarrow> string" where
  "write_failed err = ''failed to write data to local socket: '' @ err"

definition newLocalSocket :: "int32 \<Rightarrow> string \<Rightarrow> nat \<Rightarrow> localSocket" where
  "newLocalSocket streamID serviceID con =
     \<lparr>ls_streamID = streamID, ls_serviceID = serviceID, ls_con = con, ls_phase = Created,
      ls_read = [], ls_forwarded = []\<rparr>"

definition socket_Start :: "localSocket \<Rightarrow> localSocket" where
  "socket_Start socket = socket\<lparr>ls_phase := Sucking\<rparr>"

definition set_socket :: "nat \<Rightarrow> localSocket \<Rightarrow> 'a localSockets_scheme \<Rightarrow> 'a localSockets_scheme" where
  "set_socket i k s = s\<lparr>lp_sockets := (lp_sockets s)[i := k]\<rparr>"

definition close_conn :: "nat \<Rightarrow> 'a localSockets_scheme \<Rightarrow> 'a localSockets_scheme" where
  "close_conn c s = s\<lparr>lp_cons := (lp_cons s)[c := (lp_cons s ! c)\<lparr>con_open := False\<rparr>]\<rparr>"

text \<open>\<^verbatim>\<open>close\<close>: closing a closed connection is an error, which the callers log.\<close>

definition socket_close :: "nat \<Rightarrow> 'a localSockets_scheme \<Rightarrow> string option \<times> 'a localSockets_scheme" where
  "socket_close i s =
     (let c = ls_con (lp_sockets s ! i)
      in (if con_open (lp_cons s ! c) then None else Some ''failed to close local connection'',
          close_conn c s))"

text \<open>The end of the goroutine: \<^verbatim>\<open>suck\<close> has returned, the connection is closed.\<close>

definition socket_end :: "nat \<Rightarrow> 'a localSockets_scheme \<Rightarrow> 'a localSockets_scheme" where
  "socket_end i s =
     (let s = snd (socket_close i s)
      in set_socket i ((lp_sockets s ! i)\<lparr>ls_phase := Ended\<rparr>) s)"

text \<open>
  One round of \<^verbatim>\<open>suck\<close>, in the two places where the goroutine can be: \<^verbatim>\<open>Read\<close> gave the result
  \<open>r\<close>, and the handler is called with the data.
\<close>

definition suck_read ::
  "'a localSockets_scheme SocketReader \<Rightarrow> nat \<Rightarrow> string + bytes \<Rightarrow> 'a localSockets_scheme \<Rightarrow>
     'a localSockets_scheme outcome" where
  "suck_read reader i r s =
     (let socket = lp_sockets s ! i
      in (case r of
            Inl err \<Rightarrow>
              bind_outcome (OnReadError reader (ls_streamID socket) (ls_serviceID socket)
                 (read_failed err) s) (\<lambda>s. Return (socket_end i s))
          | Inr b \<Rightarrow>
              Return (set_socket i (socket\<lparr>ls_phase := Forwarding b, ls_read := ls_read socket @ b\<rparr>) s)))"

definition suck_forward ::
  "'a localSockets_scheme SocketReader \<Rightarrow> nat \<Rightarrow> bytes \<Rightarrow> 'a localSockets_scheme \<Rightarrow>
     'a localSockets_scheme outcome" where
  "suck_forward reader i b s =
     (let socket = lp_sockets s ! i
      in bind_outcome (OnReadData reader (ls_streamID socket) (ls_serviceID socket) b s) (\<lambda>(err, s).
           Return (case err of
             None \<Rightarrow>
               set_socket i ((lp_sockets s ! i)\<lparr>ls_phase := Sucking,
                 ls_forwarded := ls_forwarded (lp_sockets s ! i) @ b\<rparr>) s
           | Some e \<Rightarrow> socket_end i s)))"

text \<open>
  \<^verbatim>\<open>Stop\<close>: the connection is closed, so that the \<^verbatim>\<open>Read\<close> of the goroutine fails; then the
  end of the goroutine is awaited.
\<close>

definition use_of_closed :: string where
  "use_of_closed = ''use of closed network connection''"

definition socket_wait ::
  "'a localSockets_scheme SocketReader \<Rightarrow> nat \<Rightarrow> 'a localSockets_scheme \<Rightarrow>
     'a localSockets_scheme outcome" where
  "socket_wait reader i s =
     (case ls_phase (lp_sockets s ! i) of
        Created \<Rightarrow> Blocked
      | Ended \<Rightarrow> Return s
      | Sucking \<Rightarrow> suck_read reader i (Inl use_of_closed) s
      | Forwarding b \<Rightarrow>
          bind_outcome (suck_forward reader i b s) (\<lambda>s.
            if ls_phase (lp_sockets s ! i) = Ended then Return s
            else suck_read reader i (Inl use_of_closed) s))"

definition socket_Stop ::
  "'a localSockets_scheme SocketReader \<Rightarrow> nat \<Rightarrow> 'a localSockets_scheme \<Rightarrow>
     'a localSockets_scheme outcome" where
  "socket_Stop reader i s = socket_wait reader i (snd (socket_close i s))"

text \<open>
  \<^verbatim>\<open>Write\<close>: \<open>con_write n\<close> says how the \<open>n\<close>-th write on an open connection fails, if it does:
  after how many bytes, and with which error.
\<close>

definition socket_Write ::
  "(nat \<Rightarrow> (nat \<times> string) option) \<Rightarrow> nat \<Rightarrow> bytes \<Rightarrow> 'a localSockets_scheme \<Rightarrow>
     (nat \<times> string option) \<times> 'a localSockets_scheme" where
  "socket_Write con_write i p s =
     (let c = ls_con (lp_sockets s ! i);
          con = lp_cons s ! c
      in if \<not> con_open con then
           ((0, Some (write_failed use_of_closed)), s)
         else
           let (n, err) = (case con_write (lp_writes s) of
                             None \<Rightarrow> (length p, None)
                           | Some (k, e) \<Rightarrow> (min k (length p), Some (write_failed e)))
           in ((n, err),
               s\<lparr>lp_writes := Suc (lp_writes s),
                 lp_cons := (lp_cons s)[c := con\<lparr>con_written := con_written con @ take n p\<rparr>]\<rparr>))"

section \<open>The manager\<close>

text \<open>Each operation but \<^verbatim>\<open>Write\<close> holds the lock of the manager for its whole body.\<close>

definition NewLocalSocketManager :: "int32 \<rightharpoonup> nat" where
  "NewLocalSocketManager = Map.empty"

definition StartSocket ::
  "int32 \<Rightarrow> string \<Rightarrow> nat \<Rightarrow> 'a localSockets_scheme \<Rightarrow> string option \<times> 'a localSockets_scheme" where
  "StartSocket streamID serviceID con s =
     (let socket = newLocalSocket streamID serviceID con
      in if socketMap s streamID \<noteq> None then (Some ''specified streamID already exists'', s)
         else (None, s\<lparr>lp_sockets := lp_sockets s @ [socket_Start socket],
                       socketMap := (socketMap s)(streamID \<mapsto> length (lp_sockets s))\<rparr>))"

definition manager_Write ::
  "(nat \<Rightarrow> (nat \<times> string) option) \<Rightarrow> int32 \<Rightarrow> string \<Rightarrow> bytes \<Rightarrow> 'a localSockets_scheme \<Rightarrow>
     string option \<times> 'a localSockets_scheme" where
  "manager_Write con_write streamID serviceID p s =
     (let s = s\<lparr>lp_received := lp_received s @ [(streamID, p)]\<rparr>
      in (case socketMap s streamID of
            None \<Rightarrow> (Some ''unknown streamID'', s)
          | Some i \<Rightarrow>
              let ((n, err), s) = socket_Write con_write i p s in (err, s)))"

definition StopSocket ::
  "'a localSockets_scheme SocketReader \<Rightarrow> int32 \<Rightarrow> 'a localSockets_scheme \<Rightarrow>
     'a localSockets_scheme outcome" where
  "StopSocket reader streamID s =
     (case socketMap s streamID of
        None \<Rightarrow> Return s
      | Some i \<Rightarrow>
          bind_outcome (socket_Stop reader i s) (\<lambda>s.
            Return (s\<lparr>socketMap := (socketMap s)(streamID := None)\<rparr>)))"

text \<open>\<^verbatim>\<open>StopAll\<close>, in the order in which Go iterates the map.\<close>

fun stop_sockets ::
  "'a localSockets_scheme SocketReader \<Rightarrow> int32 list \<Rightarrow> 'a localSockets_scheme \<Rightarrow>
     'a localSockets_scheme outcome" where
  "stop_sockets reader [] s = Return s"
| "stop_sockets reader (streamID # ids) s =
     bind_outcome (StopSocket reader streamID s) (stop_sockets reader ids)"

definition StopAll ::
  "'a localSockets_scheme SocketReader \<Rightarrow> ((int32 \<rightharpoonup> nat) \<Rightarrow> int32 list) \<Rightarrow>
     'a localSockets_scheme \<Rightarrow> 'a localSockets_scheme outcome" where
  "StopAll reader map_order s = stop_sockets reader (map_order (socketMap s)) s"

text \<open>What Go promises of a \<^verbatim>\<open>range\<close> over a map.\<close>

definition iterates :: "((int32 \<rightharpoonup> nat) \<Rightarrow> int32 list) \<Rightarrow> bool" where
  "iterates map_order \<longleftrightarrow> (\<forall>m. finite (dom m) \<longrightarrow> set (map_order m) = dom m \<and> distinct (map_order m))"

section \<open>The invariant of the sockets\<close>

text \<open>
  A socket whose goroutine runs is in the map; when the goroutine has ended, the connection is
  closed.  What was handed over is what was read, up to the data in hand or, after the end, up to
  data the reader denied.
\<close>

definition socket_ok :: "(int32 \<rightharpoonup> nat) \<Rightarrow> conn list \<Rightarrow> nat \<Rightarrow> localSocket \<Rightarrow> bool" where
  "socket_ok sm cs i k \<longleftrightarrow>
     ls_con k < length cs \<and>
     (case ls_phase k of
        Created \<Rightarrow> False
      | Sucking \<Rightarrow> sm (ls_streamID k) = Some i \<and> ls_read k = ls_forwarded k
      | Forwarding b \<Rightarrow> sm (ls_streamID k) = Some i \<and> ls_read k = ls_forwarded k @ b \<and>
          length b \<le> readBufSize
      | Ended \<Rightarrow> \<not> con_open (cs ! ls_con k) \<and> prefix (ls_forwarded k) (ls_read k))"

definition sockets_ok :: "(int32 \<rightharpoonup> nat) \<Rightarrow> localSocket list \<Rightarrow> conn list \<Rightarrow> bool" where
  "sockets_ok sm ks cs \<longleftrightarrow>
     finite (dom sm) \<and>
     (\<forall>sid i. sm sid = Some i \<longrightarrow> i < length ks \<and> ls_streamID (ks ! i) = sid \<and>
        (\<forall>j. i < j \<longrightarrow> j < length ks \<longrightarrow> ls_streamID (ks ! j) \<noteq> sid)) \<and>
     (\<forall>i < length ks. socket_ok sm cs i (ks ! i))"

abbreviation sock_inv :: "'a localSockets_scheme \<Rightarrow> bool" where
  "sock_inv s \<equiv> sockets_ok (socketMap s) (lp_sockets s) (lp_cons s)"

lemma sockets_okD:
  assumes "sockets_ok sm ks cs"
  shows "finite (dom sm)" "sm sid = Some i \<Longrightarrow> i < length ks"
    "sm sid = Some i \<Longrightarrow> ls_streamID (ks ! i) = sid"
    "sm sid = Some i \<Longrightarrow> i < j \<Longrightarrow> j < length ks \<Longrightarrow> ls_streamID (ks ! j) \<noteq> sid"
    "i < length ks \<Longrightarrow> socket_ok sm cs i (ks ! i)"
  using assms unfolding sockets_ok_def by blast+

lemma socket_ok_live:
  assumes "socket_ok sm cs i k" and "ls_phase k \<noteq> Ended"
  shows "sm (ls_streamID k) = Some i"
  using assms by (auto simp: socket_ok_def split: socket_phase.splits)

lemma socket_ok_Ended: "socket_ok sm cs i k \<Longrightarrow> ls_phase k = Ended \<Longrightarrow> \<not> con_open (cs ! ls_con k)"
  by (simp add: socket_ok_def)

text \<open>A socket changes.\<close>

lemma sockets_ok_socket:
  assumes "sockets_ok sm ks cs" and "i < length ks" and "ls_streamID k = ls_streamID (ks ! i)"
    and "socket_ok sm cs i k"
  shows "sockets_ok sm (ks[i := k]) cs"
  using assms unfolding sockets_ok_def by (auto simp: nth_list_update)

text \<open>Connections change: none reopens.\<close>

lemma socket_ok_cons:
  assumes "socket_ok sm cs i k" and "length cs \<le> length cs'"
    and "\<And>c. c < length cs \<Longrightarrow> con_open (cs' ! c) \<Longrightarrow> con_open (cs ! c)"
  shows "socket_ok sm cs' i k"
  using assms unfolding socket_ok_def by (auto split: socket_phase.splits)

lemma sockets_ok_cons:
  assumes "sockets_ok sm ks cs" and "length cs \<le> length cs'"
    and "\<And>c. c < length cs \<Longrightarrow> con_open (cs' ! c) \<Longrightarrow> con_open (cs ! c)"
  shows "sockets_ok sm ks cs'"
  using assms(1) socket_ok_cons [OF _ assms(2,3)] unfolding sockets_ok_def by blast

lemma sockets_ok_con:
  assumes "sockets_ok sm ks cs" and "con_open con \<Longrightarrow> con_open (cs ! c)"
  shows "sockets_ok sm ks (cs[c := con])"
proof (rule sockets_ok_cons [OF assms(1)])
  fix d
  assume "d < length cs" "con_open (cs[c := con] ! d)"
  then show "con_open (cs ! d)" using assms(2) by (cases "c = d") auto
qed simp

lemma sockets_ok_close_conn: "sock_inv s \<Longrightarrow> sock_inv (close_conn c s)"
  using sockets_ok_con [of _ _ _ "(lp_cons s ! c)\<lparr>con_open := False\<rparr>" c] by (simp add: close_conn_def)

text \<open>A new socket, and the removal of an ended one.\<close>

lemma socket_ok_map:
  "socket_ok sm cs i k \<Longrightarrow> sm' (ls_streamID k) = sm (ls_streamID k) \<or> ls_phase k = Ended \<Longrightarrow>
     socket_ok sm' cs i k"
  by (auto simp: socket_ok_def split: socket_phase.splits)

lemma sockets_ok_new:
  assumes "sockets_ok sm ks cs" and "sm sid = None" and "con < length cs"
  shows "sockets_ok (sm(sid \<mapsto> length ks)) (ks @ [socket_Start (newLocalSocket sid svc con)]) cs"
    (is "sockets_ok ?sm (ks @ [?k]) cs")
proof -
  note D = sockets_okD [OF assms(1)]
  have "finite (dom ?sm)" using D(1) by simp
  moreover have "i < length (ks @ [?k]) \<and> ls_streamID ((ks @ [?k]) ! i) = s \<and>
      (\<forall>j. i < j \<longrightarrow> j < length (ks @ [?k]) \<longrightarrow> ls_streamID ((ks @ [?k]) ! j) \<noteq> s)"
    if "?sm s = Some i" for s i
  proof (cases "s = sid")
    case True
    with that have "i = length ks" by simp
    then show ?thesis using True by (simp add: socket_Start_def newLocalSocket_def)
  next
    case False
    with that have s: "sm s = Some i" by simp
    have "ls_streamID ((ks @ [?k]) ! j) \<noteq> s" if "i < j" "j < length (ks @ [?k])" for j
    proof (cases "j < length ks")
      case True
      then show ?thesis using D(4) [OF s that(1)] by (simp add: nth_append)
    next
      case False
      then have "j = length ks" using that(2) by simp
      then show ?thesis using \<open>s \<noteq> sid\<close> by (simp add: socket_Start_def newLocalSocket_def)
    qed
    then show ?thesis using D(2,3) [OF s] by (simp add: nth_append)
  qed
  moreover have "socket_ok ?sm cs i ((ks @ [?k]) ! i)" if "i < length (ks @ [?k])" for i
  proof (cases "i < length ks")
    case True
    note ok = D(5) [OF True]
    have "ls_streamID (ks ! i) \<noteq> sid \<or> ls_phase (ks ! i) = Ended"
      using socket_ok_live [OF ok] assms(2) by (metis option.distinct(1))
    then show ?thesis using socket_ok_map [OF ok, of ?sm] True by (auto simp: nth_append)
  next
    case False
    then have "i = length ks" using that by simp
    then show ?thesis
      using assms(3) by (simp add: socket_ok_def socket_Start_def newLocalSocket_def)
  qed
  ultimately show ?thesis unfolding sockets_ok_def by blast
qed

lemma sockets_ok_remove:
  assumes "sockets_ok sm ks cs"
    and "\<And>i. sm sid = Some i \<Longrightarrow> ls_phase (ks ! i) = Ended"
  shows "sockets_ok (sm(sid := None)) ks cs"
proof -
  note D = sockets_okD [OF assms(1)]
  have "socket_ok (sm(sid := None)) cs i (ks ! i)" if "i < length ks" for i
  proof -
    have "ls_streamID (ks ! i) \<noteq> sid \<or> ls_phase (ks ! i) = Ended"
      using socket_ok_live [OF D(5) [OF that]] assms(2) by blast
    then show ?thesis using socket_ok_map [OF D(5) [OF that], of "sm(sid := None)"] by auto
  qed
  moreover have "finite (dom (sm(sid := None)))" using D(1) by simp
  ultimately show ?thesis
    unfolding sockets_ok_def using D(2-4) by (auto split: if_splits)
qed

lemma StartSocket_inv:
  "sock_inv s \<Longrightarrow> con < length (lp_cons s) \<Longrightarrow> StartSocket sid svc con s = (e, s') \<Longrightarrow> sock_inv s'"
  using sockets_ok_new by (auto simp: StartSocket_def Let_def split: if_splits)

lemma socket_Write_inv:
  "sock_inv s \<Longrightarrow> socket_Write cw i p s = (r, s') \<Longrightarrow> sock_inv s'"
  by (auto simp: socket_Write_def Let_def sockets_ok_con split: if_splits prod.splits)

lemma manager_Write_inv:
  assumes "sock_inv s" and "manager_Write cw sid svc p s = (e, s')"
  shows "sock_inv s'"
proof -
  let ?s = "s\<lparr>lp_received := lp_received s @ [(sid, p)]\<rparr>"
  have ok: "sock_inv ?s" using assms(1) by simp
  show ?thesis
  proof (cases "socketMap s sid")
    case None
    then show ?thesis using ok assms(2) by (auto simp: manager_Write_def)
  next
    case (Some i)
    obtain r s1 where w: "socket_Write cw i p ?s = (r, s1)" by fastforce
    then have "s' = s1" using Some assms(2) by (simp add: manager_Write_def split: prod.splits)
    then show ?thesis using socket_Write_inv [OF ok w] by simp
  qed
qed

section \<open>The contract with the reader\<close>

text \<open>What the handlers of a \<^verbatim>\<open>SocketReader\<close> leave alone.\<close>

definition same_sockets :: "'a localSockets_scheme \<Rightarrow> 'a localSockets_scheme \<Rightarrow> bool" where
  "same_sockets s s' \<longleftrightarrow>
     lp_cons s' = lp_cons s \<and> lp_sockets s' = lp_sockets s \<and> socketMap s' = socketMap s \<and>
     lp_received s' = lp_received s"

lemma same_sockets_refl [simp]: "same_sockets s s"
  by (simp add: same_sockets_def)

text \<open>
  What was passed on for a stream is what the sockets of the stream handed over, one after the
  other.
\<close>

definition forwarded :: "('a localSockets_scheme \<Rightarrow> int32 \<Rightarrow> bytes) \<Rightarrow> 'a localSockets_scheme \<Rightarrow> bool" where
  "forwarded sent s \<longleftrightarrow>
     (\<forall>sid. sent s sid =
        concat (map ls_forwarded (filter (\<lambda>k. ls_streamID k = sid) (lp_sockets s))))"

text \<open>
  What a socket that has ended read and did not hand over was denied by the reader, in one piece.
\<close>

definition refusal :: "(int32 \<Rightarrow> string \<Rightarrow> bytes \<Rightarrow> bool) \<Rightarrow> localSocket \<Rightarrow> bool" where
  "refusal denied k \<longleftrightarrow>
     (\<exists>b. ls_read k = ls_forwarded k @ b \<and> (b = [] \<or> denied (ls_streamID k) (ls_serviceID k) b))"

definition refusals :: "(int32 \<Rightarrow> string \<Rightarrow> bytes \<Rightarrow> bool) \<Rightarrow> localSocket list \<Rightarrow> bool" where
  "refusals denied ks \<longleftrightarrow> (\<forall>k \<in> set ks. ls_phase k = Ended \<longrightarrow> refusal denied k)"

lemma refusals_mono: "denied \<le> denied' \<Longrightarrow> refusals denied ks \<Longrightarrow> refusals denied' ks"
  unfolding refusals_def refusal_def le_fun_def le_bool_def by blast

lemma refusals_update:
  "refusals denied ks \<Longrightarrow> ls_phase k = Ended \<Longrightarrow> refusal denied k \<Longrightarrow> refusals denied (ks[i := k])"
  "refusals denied ks \<Longrightarrow> ls_phase k \<noteq> Ended \<Longrightarrow> refusals denied (ks[i := k])"
  unfolding refusals_def by (auto dest: set_update_subset_insert [THEN subsetD])

lemma refusals_new: "refusals denied ks \<Longrightarrow> ls_phase k \<noteq> Ended \<Longrightarrow> refusals denied (ks @ [k])"
  by (simp add: refusals_def)

text \<open>
  Nothing is written to a local connection, none reopens, and no socket gets into the map; the
  sockets keep their streams and connections.
\<close>

definition only_closes :: "'a localSockets_scheme \<Rightarrow> 'a localSockets_scheme \<Rightarrow> bool" where
  "only_closes s s' \<longleftrightarrow>
     map con_written (lp_cons s') = map con_written (lp_cons s) \<and>
     (\<forall>c < length (lp_cons s). con_open (lp_cons s' ! c) \<longrightarrow> con_open (lp_cons s ! c)) \<and>
     map ls_streamID (lp_sockets s') = map ls_streamID (lp_sockets s) \<and>
     map ls_con (lp_sockets s') = map ls_con (lp_sockets s) \<and>
     (\<forall>sid i. socketMap s' sid = Some i \<longrightarrow> socketMap s sid = Some i) \<and>
     lp_received s' = lp_received s"

lemma only_closes_refl [simp]: "only_closes s s"
  by (simp add: only_closes_def)

lemma only_closes_trans: "only_closes s s' \<Longrightarrow> only_closes s' s'' \<Longrightarrow> only_closes s s''"
  unfolding only_closes_def by (metis length_map)

text \<open>A step of socket \<open>i\<close> leaves the other sockets alone.\<close>

definition only_socket :: "nat \<Rightarrow> 'a localSockets_scheme \<Rightarrow> 'a localSockets_scheme \<Rightarrow> bool" where
  "only_socket i s s' \<longleftrightarrow>
     length (lp_sockets s') = length (lp_sockets s) \<and>
     (\<forall>j. j \<noteq> i \<longrightarrow> lp_sockets s' ! j = lp_sockets s ! j) \<and>
     socketMap s' = socketMap s \<and> length (lp_cons s') = length (lp_cons s) \<and> only_closes s s'"

lemma only_socket_trans: "only_socket i s s' \<Longrightarrow> only_socket i s' s'' \<Longrightarrow> only_socket i s s''"
  using only_closes_trans [of s s' s''] by (simp add: only_socket_def)

lemma socket_end_fields:
  "lp_sockets (socket_end i s) = (lp_sockets s)[i := (lp_sockets s ! i)\<lparr>ls_phase := Ended\<rparr>]"
  "lp_cons (socket_end i s) = lp_cons (close_conn (ls_con (lp_sockets s ! i)) s)"
  "socketMap (socket_end i s) = socketMap s"
  by (simp_all add: socket_end_def socket_close_def set_socket_def close_conn_def Let_def)

lemma set_socket_fields [simp]:
  "lp_sockets (set_socket i k s) = (lp_sockets s)[i := k]" "lp_cons (set_socket i k s) = lp_cons s"
  "socketMap (set_socket i k s) = socketMap s"
  by (simp_all add: set_socket_def)

lemma close_conn_fields [simp]:
  "lp_sockets (close_conn c s) = lp_sockets s" "socketMap (close_conn c s) = socketMap s"
  "length (lp_cons (close_conn c s)) = length (lp_cons s)"
  "c < length (lp_cons s) \<Longrightarrow> \<not> con_open (lp_cons (close_conn c s) ! c)"
  by (simp_all add: close_conn_def)

lemma list_update_map_same: "f x = f (xs ! i) \<Longrightarrow> map f (xs[i := x]) = map f xs"
  by (induction xs arbitrary: i) (auto split: nat.splits)

lemma only_closes_close_conn [simp]: "only_closes s (close_conn c s)"
proof -
  have "con_open ((lp_cons s)[c := (lp_cons s ! c)\<lparr>con_open := False\<rparr>] ! d) \<longrightarrow> con_open (lp_cons s ! d)"
    if "d < length (lp_cons s)" for d
    using that by (cases "c = d") simp_all
  then show ?thesis by (simp add: only_closes_def close_conn_def list_update_map_same)
qed

lemma only_closes_set_socket:
  "ls_streamID k = ls_streamID (lp_sockets s ! i) \<Longrightarrow> ls_con k = ls_con (lp_sockets s ! i) \<Longrightarrow>
     only_closes s (set_socket i k s)"
  by (simp add: only_closes_def set_socket_def list_update_map_same)

lemma only_closes_same: "same_sockets s s' \<Longrightarrow> only_closes s s'"
  by (simp add: only_closes_def same_sockets_def)

lemma only_closes_socket_end [simp]: "only_closes s (socket_end i s)"
proof -
  have "only_closes (close_conn (ls_con (lp_sockets s ! i)) s) (socket_end i s)"
    unfolding socket_end_def socket_close_def Let_def snd_conv
    by (rule only_closes_set_socket) simp_all
  then show ?thesis using only_closes_trans [OF only_closes_close_conn] by blast
qed

lemma socket_end_inv:
  assumes "sock_inv s" and "i < length (lp_sockets s)"
    and "prefix (ls_forwarded (lp_sockets s ! i)) (ls_read (lp_sockets s ! i))"
  shows "sock_inv (socket_end i s)"
proof -
  let ?c = "ls_con (lp_sockets s ! i)"
  have ok: "sock_inv (close_conn ?c s)" by (rule sockets_ok_close_conn [OF assms(1)])
  have "?c < length (lp_cons s)"
    using sockets_okD(5) [OF assms(1,2)] by (simp add: socket_ok_def)
  then have "socket_ok (socketMap s) (lp_cons (close_conn ?c s)) i
      ((lp_sockets s ! i)\<lparr>ls_phase := Ended\<rparr>)"
    using assms(3) by (simp add: socket_ok_def)
  then show ?thesis
    using sockets_ok_socket [OF ok, of i] assms(2) by (simp add: socket_end_fields)
qed

lemma map_filter_update_same:
  "P x = P (xs ! i) \<Longrightarrow> f x = f (xs ! i) \<Longrightarrow> map f (filter P (xs[i := x])) = map f (filter P xs)"
  by (induction xs arbitrary: i) (auto split: nat.splits)

lemma forwarded_same:
  assumes "forwarded sent s" and "lp_sockets s' = (lp_sockets s)[i := k]" and "sent s' = sent s"
    and "ls_streamID k = ls_streamID (lp_sockets s ! i)"
    and "ls_forwarded k = ls_forwarded (lp_sockets s ! i)"
  shows "forwarded sent s'"
  using assms(1) map_filter_update_same [of _ k "lp_sockets s" i ls_forwarded] assms(2-5)
  by (simp add: forwarded_def)

lemma filter_update_other: "\<not> P x \<Longrightarrow> \<not> P (xs ! i) \<Longrightarrow> filter P (xs[i := x]) = filter P xs"
  by (induction xs arbitrary: i) (auto split: nat.splits)

lemma concat_filter_update_last:
  assumes "i < length xs" and "P x" and "P (xs ! i)" and "f x = f (xs ! i) @ b"
    and "\<And>j. i < j \<Longrightarrow> j < length xs \<Longrightarrow> \<not> P (xs ! j)"
  shows "concat (map f (filter P (xs[i := x]))) = concat (map f (filter P xs)) @ b"
proof -
  have "\<not> P y" if "y \<in> set (drop (Suc i) xs)" for y
  proof -
    from that obtain j where "j < length (drop (Suc i) xs)" "drop (Suc i) xs ! j = y"
      by (metis in_set_conv_nth)
    then show ?thesis using assms(5) [of "Suc i + j"] by (simp add: less_diff_conv add.commute)
  qed
  then have later: "filter P (drop (Suc i) xs) = []" by (simp add: filter_empty_conv)
  have "filter P xs = filter P (take i xs @ xs ! i # drop (Suc i) xs)"
    using id_take_nth_drop [OF assms(1)] by (rule arg_cong)
  also have "\<dots> = filter P (take i xs) @ [xs ! i]" using later assms(3) by simp
  finally have "filter P xs = filter P (take i xs) @ [xs ! i]" .
  moreover have "filter P (xs[i := x]) = filter P (take i xs) @ [x]"
    using later assms(1,2) by (simp add: upd_conv_take_nth_drop)
  ultimately show ?thesis using assms(4) by simp
qed

lemma forwarded_append:
  assumes f: "forwarded sent s" and ok: "sock_inv s" and sm: "socketMap s sid = Some i"
    and ks: "lp_sockets s' = (lp_sockets s)[i := k]"
    and k: "ls_streamID k = sid" "ls_forwarded k = ls_forwarded (lp_sockets s ! i) @ b"
    and sent: "\<And>j. sent s' j = (if j = sid then sent s j @ b else sent s j)"
  shows "forwarded sent s'"
  unfolding forwarded_def
proof
  fix j
  note D = sockets_okD [OF ok]
  have id: "ls_streamID (lp_sockets s ! i) = sid" by (rule D(3) [OF sm])
  have old: "sent s j = concat (map ls_forwarded (filter (\<lambda>k. ls_streamID k = j) (lp_sockets s)))"
    using f by (simp add: forwarded_def)
  show "sent s' j = concat (map ls_forwarded (filter (\<lambda>k. ls_streamID k = j) (lp_sockets s')))"
  proof (cases "j = sid")
    case True
    have "concat (map ls_forwarded (filter (\<lambda>k. ls_streamID k = sid) ((lp_sockets s)[i := k]))) =
        concat (map ls_forwarded (filter (\<lambda>k. ls_streamID k = sid) (lp_sockets s))) @ b"
      by (rule concat_filter_update_last [OF D(2) [OF sm]]) (simp_all add: k id D(4) [OF sm])
    then show ?thesis using old True sent ks by simp
  next
    case False
    have "filter (\<lambda>k. ls_streamID k = j) ((lp_sockets s)[i := k]) = filter (\<lambda>k. ls_streamID k = j) (lp_sockets s)"
      by (rule filter_update_other) (use False k(1) id in simp_all)
    then show ?thesis using old False sent ks by simp
  qed
qed

text \<open>
  \<open>sent s sid\<close> is what the reader has passed on for a stream, \<open>denied s sid svc b\<close> says that it
  had a reason not to pass \<open>b\<close> on.  Its handlers return, keep the invariant \<open>I\<close> and the sockets,
  and \<^verbatim>\<open>OnReadData\<close> passes its data on when it reports no error and nothing otherwise, and it
  reports an error only with a reason.  None of the three looks at the sockets.
\<close>

locale socket_reader =
  fixes reader :: "'a localSockets_scheme SocketReader"
    and I :: "'a localSockets_scheme \<Rightarrow> bool"
    and sent :: "'a localSockets_scheme \<Rightarrow> int32 \<Rightarrow> bytes"
    and denied :: "'a localSockets_scheme \<Rightarrow> int32 \<Rightarrow> string \<Rightarrow> bytes \<Rightarrow> bool"
  assumes data_law: "I s \<Longrightarrow> length b \<le> readBufSize \<Longrightarrow> \<exists>e s'. OnReadData reader sid svc b s = Return (e, s') \<and> I s' \<and>
      same_sockets s s' \<and>
      (\<forall>i. sent s' i = (if i = sid \<and> e = None then sent s i @ b else sent s i)) \<and>
      (e \<noteq> None \<longrightarrow> denied s' sid svc b) \<and> denied s \<le> denied s'"
    and error_law: "I s \<Longrightarrow> \<exists>s'. OnReadError reader sid svc err s = Return s' \<and> I s' \<and>
      same_sockets s s' \<and> sent s' = sent s \<and> denied s \<le> denied s'"
    and I_sockets: "I (s\<lparr>lp_sockets := ks\<rparr>) = I s" "I (s\<lparr>lp_cons := cs\<rparr>) = I s"
      "I (s\<lparr>socketMap := sm\<rparr>) = I s"
    and sent_sockets: "sent (s\<lparr>lp_sockets := ks\<rparr>) = sent s" "sent (s\<lparr>lp_cons := cs\<rparr>) = sent s"
      "sent (s\<lparr>socketMap := sm\<rparr>) = sent s"
    and denied_sockets: "denied (s\<lparr>lp_sockets := ks\<rparr>) = denied s" "denied (s\<lparr>lp_cons := cs\<rparr>) = denied s"
      "denied (s\<lparr>socketMap := sm\<rparr>) = denied s"
begin

lemma I_socket_end: "I (socket_end i s) = I s" "sent (socket_end i s) = sent s"
  "denied (socket_end i s) = denied s"
  by (simp_all add: socket_end_def socket_close_def set_socket_def close_conn_def Let_def
      I_sockets sent_sockets denied_sockets)

lemma I_set_socket: "I (set_socket i k s) = I s" "sent (set_socket i k s) = sent s"
  "denied (set_socket i k s) = denied s"
  by (simp_all add: set_socket_def I_sockets sent_sockets denied_sockets)

text \<open>The whole invariant, and its preservation by each piece of the goroutine.\<close>

definition J :: "'a localSockets_scheme \<Rightarrow> bool" where
  "J s \<longleftrightarrow> I s \<and> sock_inv s \<and> forwarded sent s \<and> refusals (denied s) (lp_sockets s)"

lemma socket_end_J:
  assumes "J s" and "i < length (lp_sockets s)"
    and "prefix (ls_forwarded (lp_sockets s ! i)) (ls_read (lp_sockets s ! i))"
    and "refusal (denied s) (lp_sockets s ! i)"
  shows "J (socket_end i s)" "only_socket i s (socket_end i s)"
    "ls_phase (lp_sockets (socket_end i s) ! i) = Ended"
proof -
  have "forwarded sent (socket_end i s)"
    using assms(1,2)
    by (intro forwarded_same [of sent s "socket_end i s" i "(lp_sockets s ! i)\<lparr>ls_phase := Ended\<rparr>"])
      (simp_all add: J_def I_socket_end socket_end_fields)
  moreover have "sock_inv (socket_end i s)"
    using socket_end_inv [OF _ assms(2,3)] assms(1) unfolding J_def by blast
  moreover have "refusals (denied s) (lp_sockets (socket_end i s))"
    unfolding socket_end_fields
    by (rule refusals_update) (use assms(1,4) in \<open>simp_all add: J_def refusal_def\<close>)
  ultimately show "J (socket_end i s)"
    using assms(1) by (simp add: J_def I_socket_end)
  show "only_socket i s (socket_end i s)" "ls_phase (lp_sockets (socket_end i s) ! i) = Ended"
    using assms(2) by (simp_all add: only_socket_def socket_end_fields)
qed

lemma J_same_sockets:
  "J s \<Longrightarrow> I s' \<Longrightarrow> same_sockets s s' \<Longrightarrow> sent s' = sent s \<Longrightarrow> denied s \<le> denied s' \<Longrightarrow> J s'"
  using refusals_mono by (simp add: J_def same_sockets_def forwarded_def)

lemma only_socket_same [simp]: "same_sockets s s' \<Longrightarrow> only_socket i s s'"
  using only_closes_same [of s s'] by (simp add: same_sockets_def only_socket_def)

lemma suck_read_error:
  assumes "J s" and "i < length (lp_sockets s)" and "ls_phase (lp_sockets s ! i) = Sucking"
  shows "\<exists>s'. suck_read reader i (Inl err) s = Return s' \<and> J s' \<and> only_socket i s s' \<and>
    ls_phase (lp_sockets s' ! i) = Ended"
proof -
  let ?k = "lp_sockets s ! i"
  obtain s1 where s1: "OnReadError reader (ls_streamID ?k) (ls_serviceID ?k)
      (read_failed err) s = Return s1" "I s1" "same_sockets s s1"
      "sent s1 = sent s" "denied s \<le> denied s1"
    using error_law assms(1) unfolding J_def by blast
  have J1: "J s1" by (rule J_same_sockets [OF assms(1) s1(2-5)])
  have k: "lp_sockets s1 = lp_sockets s" using s1(3) by (simp add: same_sockets_def)
  have "socket_ok (socketMap s) (lp_cons s) i ?k"
    using sockets_okD(5) assms(1,2) by (auto simp: J_def)
  then have "prefix (ls_forwarded ?k) (ls_read ?k)" "refusal (denied s1) ?k"
    using assms(3) by (simp_all add: socket_ok_def refusal_def)
  then have "J (socket_end i s1)" "only_socket i s1 (socket_end i s1)"
    "ls_phase (lp_sockets (socket_end i s1) ! i) = Ended"
    using socket_end_J [OF J1, of i] assms(2) k by simp_all
  moreover from this have "only_socket i s (socket_end i s1)"
    using only_socket_trans only_socket_same [OF s1(3)] by blast
  ultimately show ?thesis by (simp add: suck_read_def Let_def s1(1))
qed

lemma suck_read_data:
  assumes "J s" and "i < length (lp_sockets s)" and "ls_phase (lp_sockets s ! i) = Sucking"
    and "length b \<le> readBufSize"
  shows "\<exists>s'. suck_read reader i (Inr b) s = Return s' \<and> J s' \<and> only_socket i s s' \<and>
    ls_phase (lp_sockets s' ! i) = Forwarding b"
proof -
  let ?k = "lp_sockets s ! i"
  let ?k' = "?k\<lparr>ls_phase := Forwarding b, ls_read := ls_read ?k @ b\<rparr>"
  have ok: "sock_inv s" using assms(1) by (simp add: J_def)
  have "socket_ok (socketMap s) (lp_cons s) i ?k'"
    using sockets_okD(5) [OF ok assms(2)] assms(3,4) by (simp add: socket_ok_def)
  then have "sock_inv (set_socket i ?k' s)"
    using sockets_ok_socket [OF ok assms(2)] by simp
  moreover have "forwarded sent (set_socket i ?k' s)"
    using assms(1,2)
    by (intro forwarded_same [of sent s "set_socket i ?k' s" i ?k']) (simp_all add: J_def I_set_socket)
  moreover have "refusals (denied s) ((lp_sockets s)[i := ?k'])"
    by (rule refusals_update) (use assms(1) in \<open>simp_all add: J_def\<close>)
  ultimately have "J (set_socket i ?k' s)"
    using assms(1) by (simp add: J_def I_set_socket)
  then show ?thesis
    using assms(2) only_closes_set_socket [of ?k' s i] by (simp add: suck_read_def Let_def only_socket_def)
qed

lemma suck_forward_J:
  assumes "J s" and "i < length (lp_sockets s)" and "ls_phase (lp_sockets s ! i) = Forwarding b"
  shows "\<exists>s'. suck_forward reader i b s = Return s' \<and> J s' \<and> only_socket i s s' \<and>
    ls_phase (lp_sockets s' ! i) \<in> {Sucking, Ended}"
proof -
  let ?k = "lp_sockets s ! i"
  have ok: "sock_inv s" using assms(1) by (simp add: J_def)
  note sok = sockets_okD(5) [OF ok assms(2)]
  then have bound: "length b \<le> readBufSize" using assms(3) by (simp add: socket_ok_def)
  obtain e s1 where s1: "OnReadData reader (ls_streamID ?k) (ls_serviceID ?k) b s = Return (e, s1)"
      "I s1" "same_sockets s s1"
      "\<forall>j. sent s1 j = (if j = ls_streamID ?k \<and> e = None then sent s j @ b else sent s j)"
      "e \<noteq> None \<longrightarrow> denied s1 (ls_streamID ?k) (ls_serviceID ?k) b" "denied s \<le> denied s1"
    using data_law [of s b] assms(1) bound unfolding J_def by blast
  have k: "lp_sockets s1 = lp_sockets s" "lp_cons s1 = lp_cons s" "socketMap s1 = socketMap s"
    using s1(3) by (simp_all add: same_sockets_def)
  show ?thesis
  proof (cases e)
    case None
    let ?k' = "?k\<lparr>ls_phase := Sucking, ls_forwarded := ls_forwarded ?k @ b\<rparr>"
    have "socket_ok (socketMap s1) (lp_cons s1) i ?k'"
      using sok assms(3) k by (simp add: socket_ok_def)
    then have "sock_inv (set_socket i ?k' s1)"
      using sockets_ok_socket [of "socketMap s1" "lp_sockets s1" "lp_cons s1" i ?k'] ok assms(2) k by simp
    moreover have "forwarded sent (set_socket i ?k' s1)"
    proof (rule forwarded_append [of sent s "ls_streamID ?k" i _ ?k' b])
      show "forwarded sent s" "sock_inv s" using assms(1) by (simp_all add: J_def)
      show "socketMap s (ls_streamID ?k) = Some i" using sok assms(3) by (simp add: socket_ok_def)
    qed (use s1(4) None k in \<open>simp_all add: I_set_socket\<close>)
    moreover have "refusals (denied s1) ((lp_sockets s)[i := ?k'])"
      by (rule refusals_update) (use assms(1) refusals_mono [OF s1(6)] in \<open>simp_all add: J_def\<close>)
    ultimately have "J (set_socket i ?k' s1)" using s1(2) k by (simp add: J_def I_set_socket)
    then show ?thesis
      using assms(2) k only_closes_trans [OF only_closes_same [OF s1(3)] only_closes_set_socket [of ?k' s1 i]]
      by (simp add: suck_forward_def Let_def s1(1) None only_socket_def)
  next
    case (Some err)
    have J1: "J s1" using J_same_sockets [OF assms(1) s1(2,3) _ s1(6)] s1(4) Some by auto
    have "prefix (ls_forwarded ?k) (ls_read ?k)" "refusal (denied s1) ?k"
      using sok assms(3) s1(5) Some by (simp_all add: socket_ok_def refusal_def)
    then have "J (socket_end i s1)" "only_socket i s1 (socket_end i s1)"
      "ls_phase (lp_sockets (socket_end i s1) ! i) = Ended"
      using socket_end_J [OF J1, of i] assms(2) k by simp_all
    moreover from this have "only_socket i s (socket_end i s1)"
      using only_socket_trans only_socket_same [OF s1(3)] by blast
    ultimately show ?thesis by (simp add: suck_forward_def Let_def s1(1) Some)
  qed
qed

text \<open>\<^verbatim>\<open>Stop\<close> returns, and the goroutine has ended.\<close>

lemma close_J:
  assumes "J s"
  shows "J (snd (socket_close i s))" "only_socket j s (snd (socket_close i s))"
    "lp_sockets (snd (socket_close i s)) = lp_sockets s"
proof -
  have eq: "snd (socket_close i s) = close_conn (ls_con (lp_sockets s ! i)) s"
    by (simp add: socket_close_def Let_def)
  have "sock_inv (snd (socket_close i s))"
    unfolding eq using sockets_ok_close_conn assms J_def by blast
  moreover have "I (snd (socket_close i s)) = I s" "sent (snd (socket_close i s)) = sent s"
    "denied (snd (socket_close i s)) = denied s"
    by (simp_all add: eq close_conn_def I_sockets sent_sockets denied_sockets)
  ultimately show "J (snd (socket_close i s))"
    using assms by (simp add: J_def forwarded_def eq)
  show "only_socket j s (snd (socket_close i s))" "lp_sockets (snd (socket_close i s)) = lp_sockets s"
    by (simp_all add: eq only_socket_def)
qed

lemma socket_wait_J:
  assumes "J s" and i: "i < length (lp_sockets s)"
  shows "\<exists>s'. socket_wait reader i s = Return s' \<and> J s' \<and> only_socket i s s' \<and>
    ls_phase (lp_sockets s' ! i) = Ended"
proof (cases "ls_phase (lp_sockets s ! i)")
  case Created
  moreover have "socket_ok (socketMap s) (lp_cons s) i (lp_sockets s ! i)"
    using sockets_okD(5) [OF _ i] assms(1) unfolding J_def by blast
  ultimately show ?thesis by (simp add: socket_ok_def)
next
  case Sucking
  then show ?thesis
    using suck_read_error [OF assms, of use_of_closed] by (simp add: socket_wait_def)
next
  case (Forwarding b)
  then obtain s1 where s1: "suck_forward reader i b s = Return s1" "J s1" "only_socket i s s1"
    "ls_phase (lp_sockets s1 ! i) \<in> {Sucking, Ended}"
    using suck_forward_J [OF assms] by blast
  show ?thesis
  proof (cases "ls_phase (lp_sockets s1 ! i) = Ended")
    case True
    then show ?thesis using Forwarding s1 by (simp add: socket_wait_def)
  next
    case False
    then have "ls_phase (lp_sockets s1 ! i) = Sucking" "i < length (lp_sockets s1)"
      using s1(3,4) i by (simp_all add: only_socket_def)
    then obtain s2 where "suck_read reader i (Inl use_of_closed) s1 = Return s2" "J s2"
      "only_socket i s1 s2" "ls_phase (lp_sockets s2 ! i) = Ended"
      using suck_read_error [OF s1(2)] by blast
    then show ?thesis
      using Forwarding s1 False only_socket_trans [OF s1(3)] by (simp add: socket_wait_def)
  qed
next
  case Ended
  then show ?thesis using assms by (simp add: socket_wait_def only_socket_def)
qed

lemma socket_Stop_J:
  assumes "J s" and "i < length (lp_sockets s)"
  shows "\<exists>s'. socket_Stop reader i s = Return s' \<and> J s' \<and> only_socket i s s' \<and>
    ls_phase (lp_sockets s' ! i) = Ended"
proof -
  note c = close_J [OF assms(1)]
  obtain s' where s': "socket_wait reader i (snd (socket_close i s)) = Return s'" "J s'"
    "only_socket i (snd (socket_close i s)) s'" "ls_phase (lp_sockets s' ! i) = Ended"
    using socket_wait_J [OF c(1), of i i] assms(2) c(3) by auto
  then show ?thesis
    using only_socket_trans [OF c(2) s'(3)] by (simp add: socket_Stop_def)
qed

lemma StopSocket_J:
  assumes "J s"
  shows "\<exists>s'. StopSocket reader sid s = Return s' \<and> J s' \<and>
    socketMap s' = (socketMap s)(sid := None) \<and> only_closes s s' \<and>
    length (lp_sockets s') = length (lp_sockets s) \<and> length (lp_cons s') = length (lp_cons s) \<and>
    (\<forall>i < length (lp_sockets s). if socketMap s sid = Some i then ls_phase (lp_sockets s' ! i) = Ended
       else lp_sockets s' ! i = lp_sockets s ! i)"
proof (cases "socketMap s sid")
  case None
  then have "(socketMap s)(sid := None) = socketMap s" by (simp add: fun_upd_idem)
  with None show ?thesis using assms by (simp add: StopSocket_def)
next
  case (Some i)
  have "sock_inv s" using assms by (simp add: J_def)
  then have i: "i < length (lp_sockets s)" using Some by (rule sockets_okD(2))
  obtain s1 where s1: "socket_Stop reader i s = Return s1" "J s1" "only_socket i s s1"
    "ls_phase (lp_sockets s1 ! i) = Ended"
    using socket_Stop_J [OF assms i] by blast
  let ?s' = "s1\<lparr>socketMap := (socketMap s1)(sid := None)\<rparr>"
  have m: "socketMap s1 = socketMap s" using s1(3) by (simp add: only_socket_def)
  have "sockets_ok ((socketMap s1)(sid := None)) (lp_sockets s1) (lp_cons s1)"
  proof (rule sockets_ok_remove)
    show "sock_inv s1" using s1(2) by (simp add: J_def)
    show "ls_phase (lp_sockets s1 ! j) = Ended" if "socketMap s1 sid = Some j" for j
      using that m Some s1(4) by simp
  qed
  then have "J ?s'" using s1(2) by (simp add: J_def I_sockets sent_sockets denied_sockets forwarded_def)
  moreover have "only_closes s1 ?s'" by (auto simp: only_closes_def)
  then have "only_closes s ?s'"
    using only_closes_trans s1(3) unfolding only_socket_def by blast
  ultimately show ?thesis
    using Some s1 m by (auto simp: StopSocket_def only_socket_def)
qed

lemma stop_sockets_J:
  "J s \<Longrightarrow> \<exists>s'. stop_sockets reader ids s = Return s' \<and> J s' \<and> only_closes s s' \<and>
     (\<forall>sid. socketMap s' sid = (if sid \<in> set ids then None else socketMap s sid)) \<and>
     length (lp_sockets s') = length (lp_sockets s) \<and> length (lp_cons s') = length (lp_cons s)"
proof (induction ids arbitrary: s)
  case (Cons sid ids)
  obtain s1 where s1: "StopSocket reader sid s = Return s1" "J s1"
    "socketMap s1 = (socketMap s)(sid := None)" "length (lp_sockets s1) = length (lp_sockets s)"
    "length (lp_cons s1) = length (lp_cons s)" "only_closes s s1"
    using StopSocket_J [OF Cons.prems] by blast
  obtain s' where "stop_sockets reader ids s1 = Return s'" "J s'" "only_closes s1 s'"
    "\<forall>j. socketMap s' j = (if j \<in> set ids then None else socketMap s1 j)"
    "length (lp_sockets s') = length (lp_sockets s1)" "length (lp_cons s') = length (lp_cons s1)"
    using Cons.IH [OF s1(2)] by blast
  then show ?case using s1 only_closes_trans [OF s1(6)] by auto
qed simp

text \<open>\<^verbatim>\<open>StopAll\<close> returns with no socket left: every goroutine has ended.\<close>

lemma StopAll_J:
  assumes "J s" and "iterates map_order"
  shows "\<exists>s'. StopAll reader map_order s = Return s' \<and> J s' \<and> socketMap s' = Map.empty \<and>
    length (lp_sockets s') = length (lp_sockets s) \<and>
    (\<forall>k \<in> set (lp_sockets s'). ls_phase k = Ended \<and> \<not> con_open (lp_cons s' ! ls_con k))"
proof -
  obtain s' where s': "StopAll reader map_order s = Return s'" "J s'"
    "\<forall>j. socketMap s' j = (if j \<in> set (map_order (socketMap s)) then None else socketMap s j)"
    "length (lp_sockets s') = length (lp_sockets s)"
    using stop_sockets_J [OF assms(1)] unfolding StopAll_def by blast
  have "finite (dom (socketMap s))" using assms(1) sockets_okD(1) J_def by blast
  then have empty: "socketMap s' j = None" for j
    using s'(3) assms(2) by (auto simp: iterates_def)
  have ok: "sock_inv s'" using s'(2) by (simp add: J_def)
  have "ls_phase (lp_sockets s' ! i) = Ended" if "i < length (lp_sockets s')" for i
    using socket_ok_live [OF sockets_okD(5) [OF ok that]] empty by force
  moreover have "\<not> con_open (lp_cons s' ! ls_con (lp_sockets s' ! i))"
    if "i < length (lp_sockets s')" for i
    using calculation [OF that] socket_ok_Ended [OF sockets_okD(5) [OF ok that]] by blast
  ultimately show ?thesis
    using s' empty by (auto simp: in_set_conv_nth)
qed

end

end
