(* ===== verification/Tcp_Server.thy ===== *)
theory Tcp_Server
  imports Prelude
begin

text \<open>
  The local server of source mode, \<^verbatim>\<open>proxy/localserver.go\<close>.  The wait group \<^verbatim>\<open>acceptWG\<close> is its
  counter.  What the accepted connections go through is the business of \<^verbatim>\<open>Local_Proxy\<close>: here a
  handler starts and later ends.
\<close>

section \<open>Model\<close>

record TCPServer =
  ts_name :: string
  ts_network :: string
  ts_address :: string
  ts_listening :: bool     \<comment> \<open>the listener is open\<close>
  acceptWG :: nat
  chStop :: bool           \<comment> \<open>the channel is closed\<close>
  started :: bool
  ts_accepting :: bool     \<comment> \<open>the goroutine that accepts is running\<close>

text \<open>
  The file system and the network: whether a path exists, the errors of \<^verbatim>\<open>os.Remove\<close> and
  \<^verbatim>\<open>net.Listen\<close>.  \<^verbatim>\<open>net.ResolveUnixAddr\<close> accepts the names of the Unix networks.
\<close>

record host =
  host_exists :: "string \<Rightarrow> bool"
  host_remove :: "string \<Rightarrow> string option"
  host_listen :: "string \<Rightarrow> string \<Rightarrow> string option"

definition is_unix_network :: "string \<Rightarrow> bool" where
  "is_unix_network network \<longleftrightarrow> network \<in> {''unix'', ''unixgram'', ''unixpacket''}"

text \<open>The result, and the file that was removed.\<close>

definition NewTCPServer ::
  "host \<Rightarrow> string \<Rightarrow> string \<Rightarrow> string \<Rightarrow> (string + TCPServer) \<times> string option" where
  "NewTCPServer h name network address =
     (let stale = is_unix_network network \<and> host_exists h address
      in (case (if stale then host_remove h address else None) of
            Some removeErr \<Rightarrow> (Inl (''failed to delete domain socket file. Path='' @ address @ '': '' @ removeErr), None)
          | None \<Rightarrow>
              ((case host_listen h network address of
                  Some err \<Rightarrow> Inl (''failed to start tcp server listening. Network='' @ network @
                                '' Address='' @ address @ '': '' @ err)
                | None \<Rightarrow> Inr \<lparr>ts_name = name, ts_network = network, ts_address = address,
                                ts_listening = True, acceptWG = 0, chStop = False, started = False,
                                ts_accepting = False\<rparr>),
               if stale then Some address else None)))"

definition server_Start :: "TCPServer \<Rightarrow> TCPServer" where
  "server_Start server =
     (if started server then server
      else server\<lparr>started := True, acceptWG := Suc (acceptWG server), ts_accepting := True\<rparr>)"

text \<open>
  The goroutine that accepts, and the goroutines of the handlers.  An error of \<^verbatim>\<open>Accept\<close> is
  logged and the loop goes round at once: the state does not change.
\<close>

inductive accept_step :: "TCPServer \<Rightarrow> TCPServer \<Rightarrow> bool" where
  sees_stop: "ts_accepting s \<Longrightarrow> chStop s \<Longrightarrow>
    accept_step s (s\<lparr>ts_accepting := False, acceptWG := acceptWG s - 1\<rparr>)"
| accepts: "ts_accepting s \<Longrightarrow> ts_listening s \<Longrightarrow> accept_step s (s\<lparr>acceptWG := Suc (acceptWG s)\<rparr>)"
| accept_error: "ts_accepting s \<Longrightarrow> \<not> chStop s \<Longrightarrow> accept_step s s"
| handler_done: "(if ts_accepting s then 1 else 0) < acceptWG s \<Longrightarrow>
    accept_step s (s\<lparr>acceptWG := acceptWG s - 1\<rparr>)"

text \<open>
  \<^verbatim>\<open>Stop\<close> before the wait: closing a closed channel panics.  The wait is over when the counter
  is zero.
\<close>

definition server_Stop :: "TCPServer \<Rightarrow> TCPServer outcome" where
  "server_Stop server =
     (if chStop server then Panic else Return (server\<lparr>chStop := True, ts_listening := False\<rparr>))"

definition stop_done :: "TCPServer \<Rightarrow> bool" where
  "stop_done server \<longleftrightarrow> acceptWG server = 0"

section \<open>Properties\<close>

definition tcp_inv :: "TCPServer \<Rightarrow> bool" where
  "tcp_inv s \<longleftrightarrow>
     (ts_accepting s \<longrightarrow> started s \<and> 0 < acceptWG s) \<and> (chStop s \<longrightarrow> \<not> ts_listening s)"

lemma NewTCPServer_inv: "NewTCPServer h n w a = (Inr s, f) \<Longrightarrow> tcp_inv s"
  by (auto simp: NewTCPServer_def tcp_inv_def Let_def split: option.splits if_splits)

lemma server_Start_inv [go_inv]: "tcp_inv s \<Longrightarrow> tcp_inv (server_Start s)"
  by (simp add: server_Start_def tcp_inv_def)

lemma server_Stop_inv [go_inv]: "tcp_inv s \<Longrightarrow> server_Stop s = Return s' \<Longrightarrow> tcp_inv s'"
  by (auto simp: server_Stop_def tcp_inv_def split: if_splits)

lemma accept_step_inv [go_inv]: "accept_step s s' \<Longrightarrow> tcp_inv s \<Longrightarrow> tcp_inv s'"
  by (induction rule: accept_step.induct) (auto simp: tcp_inv_def split: if_splits)

lemma server_Start_idempotent [simp]: "server_Start (server_Start s) = server_Start s"
  by (simp add: server_Start_def)

text \<open>After \<^verbatim>\<open>Stop\<close> every step but those of the handlers is the end of the accepting goroutine.\<close>

lemma accept_step_stopped:
  "accept_step s s' \<Longrightarrow> tcp_inv s \<Longrightarrow> chStop s \<Longrightarrow>
     chStop s' \<and> acceptWG s' < acceptWG s"
  by (induction rule: accept_step.induct) (auto simp: tcp_inv_def split: if_splits)

lemma accept_steps_stopped:
  "(accept_step ^^ n) s s' \<Longrightarrow> tcp_inv s \<Longrightarrow> chStop s \<Longrightarrow>
     tcp_inv s' \<and> chStop s' \<and> n + acceptWG s' \<le> acceptWG s"
proof (induction n arbitrary: s')
  case (Suc n)
  then obtain v where "(accept_step ^^ n) s v" "accept_step v s'" by (auto elim: relpowp_Suc_E)
  with Suc accept_step_stopped [of v s'] accept_step_inv [of v s'] show ?case by fastforce
qed simp

text \<open>
  \<^verbatim>\<open>Stop\<close> of a server returns once its handlers have.  From any state after
  \<^verbatim>\<open>Stop\<close> closed the listener, the goroutines make at most as many steps as the wait group
  counts, none is stuck while the group is not empty, and no connection is accepted any more; a
  second \<^verbatim>\<open>Stop\<close> panics.
\<close>

theorem server_Stop_returns:
  assumes "tcp_inv s" and "server_Stop s = Return s1"
  shows "(\<forall>n s'. (accept_step ^^ n) s1 s' \<longrightarrow>
      n + acceptWG s' \<le> acceptWG s \<and>
      (if stop_done s' then \<not> (\<exists>s''. accept_step s' s'') else \<exists>s''. accept_step s' s'') \<and>
      server_Stop s' = Panic)"
proof -
  have s1: "tcp_inv s1" "chStop s1" "acceptWG s1 = acceptWG s"
    using assms server_Stop_inv by (auto simp: server_Stop_def split: if_splits)
  have "n + acceptWG s' \<le> acceptWG s \<and>
      (if stop_done s' then \<not> (\<exists>s''. accept_step s' s'') else \<exists>s''. accept_step s' s'') \<and>
      server_Stop s' = Panic" if "(accept_step ^^ n) s1 s'" for n s'
  proof -
    have s': "tcp_inv s'" "chStop s'" "n + acceptWG s' \<le> acceptWG s"
      using accept_steps_stopped [OF that s1(1,2)] s1(3) by simp_all
    have "\<exists>s''. accept_step s' s''" if "0 < acceptWG s'"
      using that s'(2) sees_stop [of s'] handler_done [of s'] by (cases "ts_accepting s'") auto
    moreover have "\<not> accept_step s' s''" if "acceptWG s' = 0" for s''
      using that accept_step_stopped [of s' s''] s'(1,2) by auto
    ultimately show ?thesis
      using s' by (simp add: stop_done_def server_Stop_def)
  qed
  then show ?thesis by blast
qed

theorem server_Stop_returns_witness:
  "let s = server_Start \<lparr>ts_name = ''ssh'', ts_network = ''tcp'', ts_address = '':22'',
             ts_listening = True, acceptWG = 0, chStop = False, started = False, ts_accepting = False\<rparr>
   in \<exists>s1. server_Stop s = Return s1 \<and> (\<forall>n s'. (accept_step ^^ n) s1 s' \<longrightarrow> n + acceptWG s' \<le> 1)"
proof -
  let ?s = "server_Start \<lparr>ts_name = ''ssh'', ts_network = ''tcp'', ts_address = '':22'',
             ts_listening = True, acceptWG = 0, chStop = False, started = False, ts_accepting = False\<rparr>"
  have i: "tcp_inv ?s" "acceptWG ?s = 1" by (simp_all add: tcp_inv_def server_Start_def)
  obtain s1 where s1: "server_Stop ?s = Return s1" by (simp add: server_Stop_def server_Start_def)
  from server_Stop_returns [OF i(1) s1] i(2) s1 show ?thesis by (auto simp: Let_def)
qed

end
