(* ===== verification/Local_Proxy.thy ===== *)
theory Local_Proxy
  imports Local_Socket Tcp_Server Service_Config Stream_Id
begin

text \<open>
  The local proxy, \<^verbatim>\<open>proxy/localproxy.go\<close>: the options and their check, the listener that
  connects the client, the local sockets and the local servers, and the goroutines of the whole
  program as one step relation.
\<close>

section \<open>Options\<close>

record LocalProxyOptions =
  po_Mode :: mode
  po_ServiceConfigs :: "ServiceConfig list"
  po_Endpoint :: "url option"
  po_Token :: string
  po_TLSConfig :: "tls_config option"
  EndpointDialTimeout :: duration
  LocalDialTimeout :: duration
  EndpointReconnectInterval :: duration
  po_PingInterval :: duration

datatype options_error =
    InvalidMode mode | EndpointNil | InvalidEndpointScheme | NoServiceConfigs | TokenEmpty

definition LocalProxyOptions_Validate :: "LocalProxyOptions \<Rightarrow> options_error option" where
  "LocalProxyOptions_Validate options =
     (if po_Mode options \<noteq> ModeDestination \<and> po_Mode options \<noteq> ModeSource then
        Some (InvalidMode (po_Mode options))
      else (case po_Endpoint options of
          None \<Rightarrow> Some EndpointNil
        | Some ep \<Rightarrow>
            if Scheme ep \<noteq> ''ws'' \<and> Scheme ep \<noteq> ''wss'' then Some InvalidEndpointScheme
            else if po_ServiceConfigs options = [] then Some NoServiceConfigs
            else if po_Token options = '''' then Some TokenEmpty
            else None))"

section \<open>State\<close>

text \<open>
  A connection that the local server accepted, and how far its handler has come: the stream id
  is there once the StreamStart message was sent.
\<close>

record accepted =
  ac_serviceID :: string
  ac_con :: nat
  ac_streamID :: "int32 option"

record localProxy = localSockets +
  serverMap :: "string \<rightharpoonup> TCPServer"
  lp_idGen :: streamIDGen
  lp_dials :: nat                 \<comment> \<open>calls of \<^verbatim>\<open>net.DialTimeout\<close>\<close>
  lp_handlers :: "accepted list"  \<comment> \<open>the goroutines that run \<^verbatim>\<open>onConnectedHandler\<close>\<close>

text \<open>
  What does not change: the mode, the services, and the environment.  \<open>pc_dial n\<close> is the error of
  the \<open>n\<close>-th dial to a local service.
\<close>

record proxy_conf =
  pc_mode :: mode
  pc_localDialTimeout :: duration
  serviceMap :: "string \<rightharpoonup> ServiceConfig"
  pc_io :: client_io
  pc_dial :: "nat \<Rightarrow> string option"
  pc_con_write :: "nat \<Rightarrow> (nat \<times> string) option"
  pc_map_order :: "(int32 \<rightharpoonup> nat) \<Rightarrow> int32 list"

section \<open>The reader of the local sockets\<close>

definition client_error_text :: "client_error \<Rightarrow> string" where
  "client_error_text err = ''failed to send message''"

definition listener_OnReadData ::
  "proxy_conf \<Rightarrow> int32 \<Rightarrow> string \<Rightarrow> bytes \<Rightarrow> 'a localProxy_scheme \<Rightarrow>
     (string option \<times> 'a localProxy_scheme) outcome" where
  "listener_OnReadData pc streamID serviceID b s =
     bind_outcome (SendData (pc_io pc) streamID serviceID b s) (\<lambda>(err, s).
       Return (map_option client_error_text err, s))"

definition listener_OnReadError ::
  "proxy_conf \<Rightarrow> int32 \<Rightarrow> string \<Rightarrow> string \<Rightarrow> 'a localProxy_scheme \<Rightarrow>
     'a localProxy_scheme outcome" where
  "listener_OnReadError pc streamID serviceID err s =
     bind_outcome (SendStreamReset (pc_io pc) streamID serviceID s) (\<lambda>(resetErr, s). Return s)"

definition socket_reader_of :: "proxy_conf \<Rightarrow> 'a localProxy_scheme SocketReader" where
  "socket_reader_of pc =
     \<lparr>OnReadData = listener_OnReadData pc, OnReadError = listener_OnReadError pc\<rparr>"

section \<open>The listener of the client\<close>

definition proxy_StopAll :: "proxy_conf \<Rightarrow> 'a localProxy_scheme \<Rightarrow> 'a localProxy_scheme outcome" where
  "proxy_StopAll pc s = StopAll (socket_reader_of pc) (pc_map_order pc) s"

definition listener_OnConnected :: "proxy_conf \<Rightarrow> 'a localProxy_scheme \<Rightarrow> 'a localProxy_scheme outcome" where
  "listener_OnConnected pc s = proxy_StopAll pc s"

text \<open>\<^verbatim>\<open>StartSocket\<close> may refuse the connection; it is then not closed.\<close>

definition listener_OnStreamStart ::
  "proxy_conf \<Rightarrow> message \<Rightarrow> 'a localProxy_scheme \<Rightarrow> (string option \<times> 'a localProxy_scheme) outcome" where
  "listener_OnStreamStart pc message s =
     (case serviceMap pc (ServiceId message) of
        None \<Rightarrow> Return (Some (''unknown serviceID. serviceID='' @ ServiceId message), s)
      | Some svcConfig \<Rightarrow>
          let s1 = s\<lparr>lp_dials := Suc (lp_dials s)\<rparr>
          in (case pc_dial pc (lp_dials s) of
                Some err \<Rightarrow> Return (Some (''failed to connect to local service: '' @ err), s1)
              | None \<Rightarrow>
                  let con = length (lp_cons s1);
                      s2 = s1\<lparr>lp_cons := lp_cons s1 @ [\<lparr>con_open = True, con_written = []\<rparr>]\<rparr>
                  in Return (StartSocket (StreamId message) (ServiceId message) con s2)))"

definition listener_OnStreamReset ::
  "proxy_conf \<Rightarrow> message \<Rightarrow> 'a localProxy_scheme \<Rightarrow> 'a localProxy_scheme outcome" where
  "listener_OnStreamReset pc message s = StopSocket (socket_reader_of pc) (StreamId message) s"

definition listener_OnSessionReset ::
  "proxy_conf \<Rightarrow> message \<Rightarrow> 'a localProxy_scheme \<Rightarrow> 'a localProxy_scheme outcome" where
  "listener_OnSessionReset pc message s = proxy_StopAll pc s"

definition listener_OnData ::
  "proxy_conf \<Rightarrow> message \<Rightarrow> 'a localProxy_scheme \<Rightarrow> (string option \<times> 'a localProxy_scheme) outcome" where
  "listener_OnData pc message s =
     Return (manager_Write (pc_con_write pc) (StreamId message) (ServiceId message) (Payload message) s)"

text \<open>An empty list of service ids stands for the one service without a name.\<close>

definition available_services :: "message \<Rightarrow> string list" where
  "available_services message =
     (if AvailableServiceIds message = [] then [''''] else AvailableServiceIds message)"

definition listener_OnServiceIDs ::
  "proxy_conf \<Rightarrow> message \<Rightarrow> 'a localProxy_scheme \<Rightarrow> (string option \<times> 'a localProxy_scheme) outcome" where
  "listener_OnServiceIDs pc message s =
     Return (None,
       if pc_mode pc = ModeSource then
         s\<lparr>serverMap := (\<lambda>serviceID. map_option
             (\<lambda>server. if ts_name server \<in> set (available_services message)
                        then server_Start server else server) (serverMap s serviceID))\<rparr>
       else s)"

definition event_listener :: "proxy_conf \<Rightarrow> 'a localProxy_scheme AWSMessageListener" where
  "event_listener pc =
     \<lparr>OnStreamStart = listener_OnStreamStart pc, OnStreamReset = listener_OnStreamReset pc,
      OnSessionReset = listener_OnSessionReset pc, OnData = listener_OnData pc,
      OnServiceIDs = listener_OnServiceIDs pc\<rparr>"

section \<open>The handler of accepted connections\<close>

text \<open>
  \<^verbatim>\<open>onConnectedHandler\<close> in two steps, because the service may answer in between: the StreamStart
  message, then the socket.  \<open>now\<close> is the clock that \<^verbatim>\<open>generate\<close> reads.
\<close>

definition handler_begin ::
  "proxy_conf \<Rightarrow> clock \<Rightarrow> accepted \<Rightarrow> 'a localProxy_scheme \<Rightarrow>
     (accepted option \<times> 'a localProxy_scheme) outcome" where
  "handler_begin pc now h s =
     (let (streamID, g) = generate (lp_idGen s) now
      in bind_outcome (SendStreamStart (pc_io pc) streamID (ac_serviceID h) (s\<lparr>lp_idGen := g\<rparr>)) (\<lambda>(err, s).
           Return (case err of
               Some e \<Rightarrow> (None, close_conn (ac_con h) s)
             | None \<Rightarrow> (Some (h\<lparr>ac_streamID := Some streamID\<rparr>), s))))"

definition handler_end ::
  "accepted \<Rightarrow> 'a localProxy_scheme \<Rightarrow> 'a localProxy_scheme" where
  "handler_end h s =
     (case StartSocket (the (ac_streamID h)) (ac_serviceID h) (ac_con h) s of
        (Some err, s) \<Rightarrow> close_conn (ac_con h) s
      | (None, s) \<Rightarrow> s)"

section \<open>Building and running the proxy\<close>

text \<open>
  The loop over the services: the last of several configurations with one service id wins.  The
  list holds every server whose listener was opened.
\<close>

fun build_services ::
  "host \<Rightarrow> mode \<Rightarrow> ServiceConfig list \<Rightarrow> (string \<rightharpoonup> ServiceConfig) \<Rightarrow> (string \<rightharpoonup> TCPServer) \<Rightarrow>
     TCPServer list \<Rightarrow>
     (string + (string \<rightharpoonup> ServiceConfig) \<times> (string \<rightharpoonup> TCPServer)) \<times> TCPServer list" where
  "build_services h md [] svcs srvs opened = (Inr (svcs, srvs), opened)"
| "build_services h md (config # configs) svcs srvs opened =
     (let svcs = svcs(ServiceID config \<mapsto> config)
      in if md = ModeSource then
           (case fst (NewTCPServer h (ServiceID config) (Network config) (Address config)) of
              Inl err \<Rightarrow> (Inl err, opened)
            | Inr server \<Rightarrow>
                build_services h md configs svcs (srvs(ServiceID config \<mapsto> server)) (opened @ [server]))
         else build_services h md configs svcs srvs opened)"

definition proxy_env ::
  "string + string \<Rightarrow> (string \<Rightarrow> bytes) \<Rightarrow> proxy_conf \<Rightarrow> LocalProxyOptions \<Rightarrow>
     'a localProxy_scheme client_env \<times> awsClient" where
  "proxy_env Hostname Sum256 pc options =
     NewAWSClient Hostname Sum256 (pc_io pc)
       \<lparr>co_Mode = po_Mode options, co_Endpoint = the (po_Endpoint options),
        co_Token = po_Token options, co_TLSConfig = po_TLSConfig options,
        co_DialTimeout = EndpointDialTimeout options,
        co_ReconnectInterval = EndpointReconnectInterval options,
        co_PingInterval = po_PingInterval options,
        co_MessageListeners = [event_listener pc], co_ConnectHandlers = [listener_OnConnected pc]\<rparr>"

text \<open>
  \<^verbatim>\<open>NewLocalProxy\<close>.  The second result lists the servers whose listeners were opened, also when
  the call fails.
\<close>

datatype proxy_error = InvalidOptions options_error | ServerFailed string

definition NewLocalProxy ::
  "host \<Rightarrow> string + string \<Rightarrow> (string \<Rightarrow> bytes) \<Rightarrow> client_io \<Rightarrow> (nat \<Rightarrow> string option) \<Rightarrow>
     (nat \<Rightarrow> (nat \<times> string) option) \<Rightarrow> ((int32 \<rightharpoonup> nat) \<Rightarrow> int32 list) \<Rightarrow> LocalProxyOptions \<Rightarrow>
     (proxy_error + proxy_conf \<times> localProxy client_env \<times> localProxy) \<times> TCPServer list" where
  "NewLocalProxy h Hostname Sum256 io dial con_write map_order options =
     (case LocalProxyOptions_Validate options of
        Some err \<Rightarrow> (Inl (InvalidOptions err), [])
      | None \<Rightarrow>
          (case build_services h (po_Mode options) (po_ServiceConfigs options) Map.empty Map.empty [] of
             (Inl err, opened) \<Rightarrow> (Inl (ServerFailed err), opened)
           | (Inr (svcs, srvs), opened) \<Rightarrow>
               let pc = \<lparr>pc_mode = po_Mode options, pc_localDialTimeout = LocalDialTimeout options,
                         serviceMap = svcs, pc_io = io, pc_dial = dial,
                         pc_con_write = con_write, pc_map_order = map_order\<rparr>;
                   (env, cl) = proxy_env Hostname Sum256 pc options
               in (Inr (pc, env,
                    \<lparr>workerMng = workerMng cl, cl_conns = cl_conns cl, cl_tried = cl_tried cl,
                     cl_sent = cl_sent cl, cl_wire = cl_wire cl, cl_taken = cl_taken cl, cl_handled = cl_handled cl,
                     lp_cons = [], lp_sockets = [], socketMap = NewLocalSocketManager, lp_writes = 0,
                     lp_received = [],
                     serverMap = srvs, lp_idGen = newStreamIDGen, lp_dials = 0, lp_handlers = []\<rparr>),
                   opened)))"

text \<open>\<^verbatim>\<open>Run\<close>, over the rounds of the client so far.\<close>

definition proxy_Run ::
  "proxy_conf \<Rightarrow> 'a localProxy_scheme client_env \<Rightarrow> 'a localProxy_scheme attempt list \<Rightarrow>
     'a localProxy_scheme \<Rightarrow> (run_error option option \<times> 'a localProxy_scheme) outcome" where
  "proxy_Run pc env ats s =
     bind_outcome (client_Run env ats s) (\<lambda>(res, s).
       case res of
         None \<Rightarrow> Return (None, s)
       | Some r \<Rightarrow> bind_outcome (proxy_StopAll pc s) (\<lambda>s. Return (Some r, s)))"

end
