(* ===== verification/Proxy_Machine.thy ===== *)
theory Proxy_Machine
  imports Local_Proxy
begin

text \<open>
  The goroutines of the local proxy as one step relation: those of the client, the readers of the
  local connections and the handlers of accepted connections.  The listener meets the contract of
  the client (\<open>client_listeners\<close>) and the reader that of the sockets (\<open>socket_reader\<close>); the
  properties rest on these two.
\<close>

section \<open>The goroutines\<close>

text \<open>The wait group of the server, when a handler returns.\<close>

definition handler_done_wg :: "string \<Rightarrow> 'a localProxy_scheme \<Rightarrow> 'a localProxy_scheme" where
  "handler_done_wg serviceID s =
     s\<lparr>serverMap := (serverMap s)(serviceID :=
         map_option (\<lambda>server. server\<lparr>acceptWG := acceptWG server - 1\<rparr>) (serverMap s serviceID))\<rparr>"

text \<open>
  A read on a local connection gives at most the buffer; on a closed connection it fails.
\<close>

definition read_result_ok :: "nat \<Rightarrow> string + bytes \<Rightarrow> 'a localSockets_scheme \<Rightarrow> bool" where
  "read_result_ok i r s \<longleftrightarrow>
     (case r of
        Inl err \<Rightarrow> True
      | Inr b \<Rightarrow> con_open (lp_cons s ! ls_con (lp_sockets s ! i)) \<and> length b \<le> readBufSize)"

inductive proxy_step ::
  "proxy_conf \<Rightarrow> 'a localProxy_scheme client_env \<Rightarrow> 'a localProxy_scheme \<Rightarrow> 'a localProxy_scheme \<Rightarrow> bool"
  for pc :: proxy_conf and env :: "'a localProxy_scheme client_env" where
  client: "client_step env s s' \<Longrightarrow> proxy_step pc env s s'"
| reconnected: "listener_OnConnected pc s = Return s' \<Longrightarrow> proxy_step pc env s s'"
| local_read: "i < length (lp_sockets s) \<Longrightarrow> ls_phase (lp_sockets s ! i) = Sucking \<Longrightarrow>
    read_result_ok i r s \<Longrightarrow> suck_read (socket_reader_of pc) i r s = Return s' \<Longrightarrow>
    proxy_step pc env s s'"
| local_forward: "i < length (lp_sockets s) \<Longrightarrow> ls_phase (lp_sockets s ! i) = Forwarding b \<Longrightarrow>
    suck_forward (socket_reader_of pc) i b s = Return s' \<Longrightarrow> proxy_step pc env s s'"
| local_accept: "serverMap s serviceID = Some server \<Longrightarrow> ts_accepting server \<Longrightarrow> ts_listening server \<Longrightarrow>
    proxy_step pc env s
      (s\<lparr>lp_cons := lp_cons s @ [\<lparr>con_open = True, con_written = []\<rparr>],
         serverMap := (serverMap s)(serviceID \<mapsto> server\<lparr>acceptWG := Suc (acceptWG server)\<rparr>),
         lp_handlers := lp_handlers s @
           [\<lparr>ac_serviceID = ts_name server, ac_con = length (lp_cons s), ac_streamID = None\<rparr>]\<rparr>)"
| local_begin: "lp_handlers s = hs @ h # hs' \<Longrightarrow> ac_streamID h = None \<Longrightarrow>
    handler_begin pc now h s = Return (next, s') \<Longrightarrow>
    proxy_step pc env s
      (case next of
         None \<Rightarrow> handler_done_wg (ac_serviceID h) (s'\<lparr>lp_handlers := hs @ hs'\<rparr>)
       | Some h' \<Rightarrow> s'\<lparr>lp_handlers := hs @ h' # hs'\<rparr>)"
| local_end: "lp_handlers s = hs @ h # hs' \<Longrightarrow> ac_streamID h = Some sid \<Longrightarrow>
    proxy_step pc env s (handler_done_wg (ac_serviceID h) ((handler_end h s)\<lparr>lp_handlers := hs @ hs'\<rparr>))"

inductive_cases proxy_stepE: "proxy_step pc env s s'"

section \<open>The reader meets the contract of the sockets\<close>

text \<open>
  What was written is what was sent, serialized, and no payload is larger than the read buffer.
\<close>

definition wire_ok :: "client_io \<Rightarrow> 'a awsClient_scheme \<Rightarrow> bool" where
  "wire_ok io s \<longleftrightarrow>
     map (SerializeMessage (env_marshal io)) (cl_sent s) = map Inr (cl_wire s) \<and>
     (\<forall>m \<in> set (cl_sent s). length (Payload m) \<le> readBufSize \<and> AvailableServiceIds m = [] \<and>
        \<not> Ignorable m)"

definition client_ok :: "proxy_conf \<Rightarrow> 'a awsClient_scheme \<Rightarrow> bool" where
  "client_ok pc s \<longleftrightarrow> cl_inv s \<and> cl_conns s \<noteq> [] \<and> wire_ok (pc_io pc) s"

text \<open>The payloads that were sent for a stream.\<close>

definition sent_data :: "'a awsClient_scheme \<Rightarrow> int32 \<Rightarrow> bytes" where
  "sent_data s sid =
     concat (map Payload (filter (\<lambda>m. Type m = Message_DATA \<and> StreamId m = sid) (cl_sent s)))"

lemma sendMessage_effect:
  "sendMessage io sid svc ty b s = Return (e, s') \<Longrightarrow>
     cl_sent s' = cl_sent s @ (if e = None
       then [zero_message\<lparr>StreamId := sid, ServiceId := svc, Type := ty, Payload := b\<rparr>] else [])"
  unfolding sendMessage_def Let_def
  by (auto split: sum.splits option.splits if_splits)

lemma sendMessage_returns:
  assumes "cl_conns s \<noteq> []"
  obtains e s' where "sendMessage io sid svc ty b s = Return (e, s')"
proof (cases "sendMessage io sid svc ty b s")
  case (Return r)
  then show ?thesis using that by (cases r) blast
qed (use assms sendMessage_not_Panic [of s io sid svc ty b] sendMessage_not_Blocked [of io sid svc ty b s]
     in simp_all)

text \<open>Sending touches the client alone.\<close>

lemma sendMessage_same_sockets:
  "sendMessage io sid svc ty b s = Return (e, s') \<Longrightarrow> same_sockets s s'"
  by (auto simp: sendMessage_def Let_def same_sockets_def split: sum.splits option.splits if_splits)

lemma same_workers_conns: "same_workers s s' \<Longrightarrow> cl_conns s' \<noteq> [] \<longleftrightarrow> cl_conns s \<noteq> []"
  unfolding same_workers_def by (metis length_0_conv)

lemma sendMessage_wire_ok:
  "sendMessage io sid svc ty b s = Return (e, s') \<Longrightarrow> length b \<le> readBufSize \<Longrightarrow> wire_ok io s \<Longrightarrow>
     wire_ok io s'"
  unfolding sendMessage_def Let_def wire_ok_def zero_message_def
  by (auto split: sum.splits option.splits if_splits)

lemma sendMessage_client_ok:
  assumes "client_ok pc s" and "sendMessage (pc_io pc) sid svc ty b s = Return (e, s')"
    and "length b \<le> readBufSize"
  shows "client_ok pc s'"
  using assms(1) sendMessage_wire_ok [OF assms(2,3)] sendMessage_same_workers [OF assms(2)]
    same_workers_cl_inv [of s s'] same_workers_conns [of s s']
  by (simp add: client_ok_def)

lemma client_ok_stop: "client_ok pc s \<Longrightarrow> client_ok pc (s\<lparr>workerMng := mng_stop sid (workerMng s)\<rparr>)"
  using same_workers_cl_inv [OF same_workers_stop [of s sid]] by (simp add: client_ok_def wire_ok_def)

lemma sent_data_snoc:
  "cl_sent s' = cl_sent s @ ms \<Longrightarrow> sent_data s' sid = sent_data s sid @
     concat (map Payload (filter (\<lambda>m. Type m = Message_DATA \<and> StreamId m = sid) ms))"
  by (simp add: sent_data_def)

text \<open>
  The reason for not sending data: its message cannot be serialized, or a write of it failed.
\<close>

definition data_frame :: "int32 \<Rightarrow> string \<Rightarrow> bytes \<Rightarrow> message" where
  "data_frame sid svc b = zero_message\<lparr>StreamId := sid, ServiceId := svc, Type := Message_DATA, Payload := b\<rparr>"

definition refused_data :: "client_io \<Rightarrow> 'a awsClient_scheme \<Rightarrow> int32 \<Rightarrow> string \<Rightarrow> bytes \<Rightarrow> bool" where
  "refused_data io s = (\<lambda>sid svc b.
     (\<exists>e. SerializeMessage (env_marshal io) (data_frame sid svc b) = Inl e) \<or>
     (\<exists>n < length (cl_tried s). cl_tried s ! n = data_frame sid svc b \<and> env_write io n \<noteq> None))"

lemma refused_data_mono: "prefix (cl_tried s) (cl_tried s') \<Longrightarrow> refused_data io s \<le> refused_data io s'"
  by (auto simp: le_fun_def refused_data_def prefix_def nth_append)

lemma sendMessage_tried: "sendMessage io sid svc ty b s = Return (e, s') \<Longrightarrow> prefix (cl_tried s) (cl_tried s')"
  by (auto simp: sendMessage_def Let_def split: sum.splits option.splits if_splits)

lemma sendMessage_refused:
  "sendMessage io sid svc Message_DATA b s = Return (e, s') \<Longrightarrow> e \<noteq> None \<Longrightarrow> refused_data io s' sid svc b"
  by (auto simp: sendMessage_def Let_def refused_data_def data_frame_def nth_append
      split: sum.splits option.splits if_splits)

text \<open>What the handlers leave alone.\<close>

definition same_proxy :: "'a localProxy_scheme \<Rightarrow> 'a localProxy_scheme \<Rightarrow> bool" where
  "same_proxy s s' \<longleftrightarrow>
     same_workers s s' \<and> lp_handlers s' = lp_handlers s \<and> serverMap s' = serverMap s \<and>
     lp_idGen s' = lp_idGen s"

lemma same_proxy_refl [simp]: "same_proxy s s"
  by (simp add: same_proxy_def)

lemma same_proxy_trans: "same_proxy s s' \<Longrightarrow> same_proxy s' s'' \<Longrightarrow> same_proxy s s''"
  using same_workers_trans by (auto simp: same_proxy_def)

lemma same_proxy_stop [simp]: "same_proxy s (s\<lparr>workerMng := mng_stop sid (workerMng s)\<rparr>)"
  by (simp add: same_proxy_def)

lemma sendMessage_same_proxy:
  "sendMessage io sid svc ty b s = Return (e, s') \<Longrightarrow> same_proxy s s'"
  using sendMessage_same_workers
  by (fastforce simp: same_proxy_def sendMessage_def Let_def split: sum.splits option.splits if_splits)

lemma OnReadData_law:
  assumes "client_ok pc s" and "length b \<le> readBufSize"
  shows "\<exists>e s'. listener_OnReadData pc sid svc b s = Return (e, s') \<and> client_ok pc s' \<and>
    same_proxy s s' \<and> same_sockets s s' \<and>
    (\<forall>i. sent_data s' i = (if i = sid \<and> e = None then sent_data s i @ b else sent_data s i)) \<and>
    (e \<noteq> None \<longrightarrow> refused_data (pc_io pc) s' sid svc b) \<and>
    refused_data (pc_io pc) s \<le> refused_data (pc_io pc) s'"
proof -
  have "cl_conns s \<noteq> []" using assms by (simp add: client_ok_def)
  then obtain e s' where s': "sendMessage (pc_io pc) sid svc Message_DATA b s = Return (e, s')"
    by (rule sendMessage_returns)
  note w = sendMessage_same_proxy [OF s']
  have "sent_data s' i = (if i = sid \<and> e = None then sent_data s i @ b else sent_data s i)" for i
    using sent_data_snoc [OF sendMessage_effect [OF s'], of i] by (cases e; cases "i = sid") simp_all
  moreover have "listener_OnReadData pc sid svc b s =
      Return (map_option client_error_text (map_option FailedToSendData e), s')"
    by (simp add: listener_OnReadData_def SendData_def s')
  ultimately show ?thesis
    using w sendMessage_client_ok [OF assms(1) s' assms(2)] sendMessage_same_sockets [OF s']
      sendMessage_refused [OF s'] refused_data_mono [OF sendMessage_tried [OF s']] by auto
qed

lemma OnReadError_law:
  assumes "client_ok pc s"
  shows "\<exists>s'. listener_OnReadError pc sid svc err s = Return s' \<and> client_ok pc s' \<and>
    same_proxy s s' \<and> same_sockets s s' \<and> sent_data s' = sent_data s \<and>
    refused_data (pc_io pc) s \<le> refused_data (pc_io pc) s'"
proof -
  let ?s = "s\<lparr>workerMng := mng_stop sid (workerMng s)\<rparr>"
  have "cl_conns ?s \<noteq> []" using assms by (simp add: client_ok_def)
  then obtain e s' where s': "sendMessage (pc_io pc) sid svc Message_STREAM_RESET [] ?s = Return (e, s')"
    by (rule sendMessage_returns)
  have w: "same_proxy s s'"
    using same_proxy_trans [OF same_proxy_stop sendMessage_same_proxy [OF s']] .
  have "sent_data s' i = sent_data s i" for i
    using sent_data_snoc [OF sendMessage_effect [OF s'], of i]
    by (simp add: sent_data_def message_type_defs)
  then have "sent_data s' = sent_data s" by (rule ext)
  moreover have "listener_OnReadError pc sid svc err s = Return s'"
    by (simp add: listener_OnReadError_def SendStreamReset_def s')
  moreover have "same_sockets s s'"
    using sendMessage_same_sockets [OF s'] by (simp add: same_sockets_def)
  ultimately show ?thesis
    using w sendMessage_client_ok [OF client_ok_stop [OF assms] s']
      refused_data_mono [of s s'] sendMessage_tried [OF s'] by auto
qed

lemma cl_inv_sockets [simp]:
  "cl_inv (s\<lparr>lp_sockets := ks\<rparr>) = cl_inv s" "cl_inv (s\<lparr>lp_cons := cs\<rparr>) = cl_inv s"
  "cl_inv (s\<lparr>socketMap := sm\<rparr>) = cl_inv s" "cl_inv (s\<lparr>cl_conns := conns\<rparr>) = cl_inv s"
  by (simp_all add: cl_inv_def)

text \<open>\<open>s0\<close> is the state before a handler, which may not touch the workers.\<close>

interpretation proxy_reader: socket_reader "socket_reader_of pc"
    "\<lambda>s. client_ok pc s \<and> same_proxy s0 s" sent_data "refused_data (pc_io pc)"
  for pc and s0 :: "'a localProxy_scheme"
proof
  fix s :: "'a localProxy_scheme" and sid svc b err
  assume s: "client_ok pc s \<and> same_proxy s0 s"
  show "length b \<le> readBufSize \<Longrightarrow> \<exists>e s'. OnReadData (socket_reader_of pc) sid svc b s = Return (e, s') \<and>
      (client_ok pc s' \<and> same_proxy s0 s') \<and> same_sockets s s' \<and>
      (\<forall>i. sent_data s' i = (if i = sid \<and> e = None then sent_data s i @ b else sent_data s i)) \<and>
      (e \<noteq> None \<longrightarrow> refused_data (pc_io pc) s' sid svc b) \<and>
      refused_data (pc_io pc) s \<le> refused_data (pc_io pc) s'"
    using OnReadData_law [of pc s b sid svc] s same_proxy_trans
    by (fastforce simp: socket_reader_of_def)
  show "\<exists>s'. OnReadError (socket_reader_of pc) sid svc err s = Return s' \<and>
      (client_ok pc s' \<and> same_proxy s0 s') \<and> same_sockets s s' \<and> sent_data s' = sent_data s \<and>
      refused_data (pc_io pc) s \<le> refused_data (pc_io pc) s'"
    using OnReadError_law [of pc s sid svc err] s same_proxy_trans
    by (fastforce simp: socket_reader_of_def)
qed (auto simp: client_ok_def wire_ok_def same_proxy_def same_workers_def sent_data_def refused_data_def fun_eq_iff)

section \<open>The listener meets the contract of the client\<close>

definition handlers_ok :: "'a localProxy_scheme \<Rightarrow> bool" where
  "handlers_ok s \<longleftrightarrow> (\<forall>h \<in> set (lp_handlers s). ac_con h < length (lp_cons s))"

definition proxy_inv :: "proxy_conf \<Rightarrow> 'a localProxy_scheme \<Rightarrow> bool" where
  "proxy_inv pc s \<longleftrightarrow> client_ok pc s \<and> sock_inv s \<and> forwarded sent_data s \<and> handlers_ok s \<and>
     refusals (refused_data (pc_io pc) s) (lp_sockets s)"

lemma proxy_inv_J: "proxy_inv pc s \<longleftrightarrow> proxy_reader.J pc s s \<and> handlers_ok s"
  by (auto simp: proxy_inv_def proxy_reader.J_def)

lemma J_proxy_inv:
  assumes "proxy_reader.J pc s0 s" and "handlers_ok s0" and "length (lp_cons s0) \<le> length (lp_cons s)"
  shows "proxy_inv pc s" "same_proxy s0 s"
proof -
  show "same_proxy s0 s" using assms(1) by (simp add: proxy_reader.J_def)
  then have "handlers_ok s"
    using assms(2,3) by (auto simp: handlers_ok_def same_proxy_def)
  then show "proxy_inv pc s" using assms(1) by (simp add: proxy_inv_def proxy_reader.J_def)
qed

lemma same_proxy_workers: "same_proxy s s' \<Longrightarrow> same_workers s s'"
  by (simp add: same_proxy_def)

abbreviation penv ::
  "string + string \<Rightarrow> (string \<Rightarrow> bytes) \<Rightarrow> proxy_conf \<Rightarrow> LocalProxyOptions \<Rightarrow>
     'a localProxy_scheme client_env" where
  "penv Hostname Sum256 pc opts \<equiv> fst (proxy_env Hostname Sum256 pc opts)"

lemma penv_simps [simp]:
  "messageListeners (penv H S pc opts) = [event_listener pc]" "env_io (penv H S pc opts) = pc_io pc"
  "connectHandlers (penv H S pc opts) = [listener_OnConnected pc]"
  by (simp_all add: proxy_env_def NewAWSClient_def Let_def)

text \<open>Each handler.\<close>

lemma StopAll_handler_ok:
  fixes s :: "'a localProxy_scheme"
  assumes "proxy_inv pc s"
  shows "\<exists>s'. proxy_StopAll pc s = Return s' \<and> proxy_inv pc s' \<and> same_proxy s s' \<and> only_closes s s'"
proof -
  have j: "proxy_reader.J pc s s" "handlers_ok s" using assms by (simp_all add: proxy_inv_J)
  obtain s' where "stop_sockets (socket_reader_of pc) (pc_map_order pc (socketMap s)) s = Return s'"
    "proxy_reader.J pc s s'" "length (lp_cons s') = length (lp_cons s)" "only_closes s s'"
    using proxy_reader.stop_sockets_J [OF j(1)] by blast
  then show ?thesis
    using J_proxy_inv [OF _ j(2)] by (auto simp: proxy_StopAll_def StopAll_def)
qed

lemma StopSocket_handler_ok:
  fixes s :: "'a localProxy_scheme"
  assumes "proxy_inv pc s"
  shows "\<exists>s'. listener_OnStreamReset pc m s = Return s' \<and> proxy_inv pc s' \<and> same_proxy s s' \<and>
    only_closes s s'"
proof -
  have j: "proxy_reader.J pc s s" "handlers_ok s" using assms by (simp_all add: proxy_inv_J)
  obtain s' where "StopSocket (socket_reader_of pc) (StreamId m) s = Return s'"
    "proxy_reader.J pc s s'" "length (lp_cons s') = length (lp_cons s)" "only_closes s s'"
    using proxy_reader.StopSocket_J [OF j(1)] by blast
  then show ?thesis
    using J_proxy_inv [OF _ j(2)] by (auto simp: listener_OnStreamReset_def)
qed

text \<open>Changes of the sockets alone.\<close>

lemma proxy_inv_sockets:
  assumes "proxy_inv pc s" and "sockets_ok sm ks cs" and "length (lp_cons s) \<le> length cs"
    and "\<And>sid. concat (map ls_forwarded (filter (\<lambda>k. ls_streamID k = sid) ks)) =
       concat (map ls_forwarded (filter (\<lambda>k. ls_streamID k = sid) (lp_sockets s)))"
    and "refusals (refused_data (pc_io pc) s) ks"
  shows "proxy_inv pc (s\<lparr>lp_cons := cs, lp_sockets := ks, socketMap := sm\<rparr>)"
  using assms
  by (auto simp: proxy_inv_def client_ok_def wire_ok_def cl_inv_def forwarded_def sent_data_def refused_data_def handlers_ok_def)

lemma StartSocket_cases:
  assumes "StartSocket sid svc con s = (e, s')"
  obtains "socketMap s sid \<noteq> None" "e = Some ''specified streamID already exists''" "s' = s"
  | "socketMap s sid = None" "e = None"
    "s' = s\<lparr>lp_sockets := lp_sockets s @ [socket_Start (newLocalSocket sid svc con)],
            socketMap := (socketMap s)(sid \<mapsto> length (lp_sockets s))\<rparr>"
  using assms by (auto simp: StartSocket_def Let_def split: if_splits)

lemma sockets_ok_more_cons: "sockets_ok sm ks cs \<Longrightarrow> sockets_ok sm ks (cs @ ds)"
  by (rule sockets_ok_cons) (auto simp: nth_append)

lemma StartSocket_proxy_inv:
  assumes inv: "proxy_inv pc s" and con: "con < length (lp_cons s)"
    and st: "StartSocket sid svc con s = (e, s')"
  shows "proxy_inv pc s' \<and> same_proxy s s'"
  using st
proof (cases rule: StartSocket_cases)
  case 1
  then show ?thesis using inv by simp
next
  case 2
  have ok: "sock_inv s" using inv by (simp add: proxy_inv_def)
  let ?k = "socket_Start (newLocalSocket sid svc con)"
  have "proxy_inv pc (s\<lparr>lp_cons := lp_cons s, lp_sockets := lp_sockets s @ [?k],
      socketMap := (socketMap s)(sid \<mapsto> length (lp_sockets s))\<rparr>)"
    by (rule proxy_inv_sockets [OF inv sockets_ok_new [OF ok 2(1) con]])
      (use inv in \<open>simp_all add: socket_Start_def newLocalSocket_def proxy_inv_def refusals_new\<close>)
  then show ?thesis using 2 by (simp add: same_proxy_def same_workers_def)
qed

lemma proxy_inv_new_con:
  assumes "proxy_inv pc s"
  shows "proxy_inv pc (s\<lparr>lp_cons := lp_cons s @ [c]\<rparr>)"
proof -
  have "sock_inv s" "refusals (refused_data (pc_io pc) s) (lp_sockets s)"
    using assms by (simp_all add: proxy_inv_def)
  then have "proxy_inv pc (s\<lparr>lp_cons := lp_cons s @ [c], lp_sockets := lp_sockets s, socketMap := socketMap s\<rparr>)"
    by (intro proxy_inv_sockets [OF assms] sockets_ok_more_cons) simp_all
  then show ?thesis by simp
qed

lemma OnStreamStart_handler_ok:
  assumes "proxy_inv pc s" and "listener_OnStreamStart pc m s = Return (e, s')"
  shows "proxy_inv pc s' \<and> same_proxy s s'"
proof (cases "serviceMap pc (ServiceId m)")
  case None
  then show ?thesis using assms by (simp add: listener_OnStreamStart_def)
next
  case (Some c)
  let ?s1 = "s\<lparr>lp_dials := Suc (lp_dials s)\<rparr>"
  have s1: "proxy_inv pc ?s1" "same_proxy s ?s1"
    using assms(1) by (simp_all add: proxy_inv_def client_ok_def wire_ok_def cl_inv_def forwarded_def sent_data_def refused_data_def
        handlers_ok_def same_proxy_def same_workers_def)
  show ?thesis
  proof (cases "pc_dial pc (lp_dials s)")
    case None
    let ?s2 = "?s1\<lparr>lp_cons := lp_cons ?s1 @ [\<lparr>con_open = True, con_written = []\<rparr>]\<rparr>"
    have s2: "proxy_inv pc ?s2" "same_proxy s ?s2"
      using proxy_inv_new_con [OF s1(1)] s1(2) by (simp_all add: same_proxy_def same_workers_def)
    have "StartSocket (StreamId m) (ServiceId m) (length (lp_cons ?s1)) ?s2 = (e, s')"
      using assms(2) Some None by (simp add: listener_OnStreamStart_def Let_def)
    with StartSocket_proxy_inv [OF s2(1) _ this] s2(2) same_proxy_trans show ?thesis by fastforce
  next
    case (Some err)
    then show ?thesis
      using assms(2) s1 \<open>serviceMap pc (ServiceId m) = Some c\<close>
      by (simp add: listener_OnStreamStart_def Let_def)
  qed
qed

lemma manager_Write_same:
  assumes "manager_Write cw sid svc p s = (e, s')"
  shows "lp_sockets s' = lp_sockets s" "socketMap s' = socketMap s" "cl_sent s' = cl_sent s"
    "cl_wire s' = cl_wire s" "cl_tried s' = cl_tried s" "length (lp_cons s') = length (lp_cons s)" "cl_conns s' = cl_conns s" "cl_inv s' = cl_inv s"
    "same_workers s s'"
  using assms
  by (auto simp: manager_Write_def socket_Write_def Let_def same_workers_def cl_inv_def
      split: option.splits prod.splits if_splits)

lemma OnData_handler_ok:
  fixes s :: "'a localProxy_scheme"
  assumes "proxy_inv pc s" and "listener_OnData pc m s = Return (e, s')"
  shows "proxy_inv pc s' \<and> same_workers s s'"
proof -
  have w: "manager_Write (pc_con_write pc) (StreamId m) (ServiceId m) (Payload m) s = (e, s')"
    using assms(2) by (simp add: listener_OnData_def)
  have h: "lp_handlers s' = lp_handlers s"
    using w by (auto simp: manager_Write_def socket_Write_def Let_def
        split: option.splits prod.splits if_splits)
  have "sock_inv s'" using manager_Write_inv [OF _ w] assms(1) by (simp add: proxy_inv_def)
  then show ?thesis
    using manager_Write_same [OF w] h assms(1)
    by (simp add: proxy_inv_def client_ok_def wire_ok_def forwarded_def sent_data_def refused_data_def handlers_ok_def)
qed

text \<open>Changes of the servers alone.\<close>

lemma proxy_inv_servers: "proxy_inv pc (s\<lparr>serverMap := srvs\<rparr>) = proxy_inv pc s"
  by (simp add: proxy_inv_def client_ok_def wire_ok_def cl_inv_def forwarded_def sent_data_def refused_data_def handlers_ok_def)

lemma OnServiceIDs_handler_ok:
  assumes "proxy_inv pc s" and "listener_OnServiceIDs pc m s = Return (e, s')"
  shows "proxy_inv pc s' \<and> same_workers s s'"
  using assms by (auto simp: listener_OnServiceIDs_def proxy_inv_servers same_workers_def)

lemma sendMessage_proxy_inv:
  assumes "proxy_inv pc s" and "sendMessage (pc_io pc) sid svc ty [] s = Return (e, s')"
    and "ty \<noteq> Message_DATA"
  shows "proxy_inv pc s'"
proof -
  have "sent_data s' i = sent_data s i" for i
    using sent_data_snoc [OF sendMessage_effect [OF assms(2)], of i] assms(3)
    by (cases e) (simp_all add: sent_data_def)
  then show ?thesis
    using assms(1) sendMessage_same_sockets [OF assms(2)] sendMessage_same_proxy [OF assms(2)]
      refusals_mono [OF refused_data_mono [OF sendMessage_tried [OF assms(2)]], of "pc_io pc" "lp_sockets s"]
      sendMessage_client_ok [OF _ assms(2)]
    by (simp add: proxy_inv_def forwarded_def same_sockets_def handlers_ok_def same_proxy_def)
qed

interpretation proxy_client: client_listeners "penv Hostname Sum256 pc opts"
    "proxy_inv pc :: 'a localProxy_scheme \<Rightarrow> bool"
  for Hostname Sum256 pc opts
proof
  fix s s' :: "'a localProxy_scheme" and cs m ts sid svc e
  show "cl_inv s" "cl_conns s \<noteq> []" if "proxy_inv pc s"
    using that by (simp_all add: proxy_inv_def client_ok_def)
  show "proxy_inv pc (s\<lparr>cl_conns := cs\<rparr>)" if "proxy_inv pc s" "length (cl_conns s) \<le> length cs"
  proof -
    have "cs \<noteq> []" using that by (auto simp: proxy_inv_def client_ok_def)
    then show ?thesis
      using that(1) by (simp add: proxy_inv_def client_ok_def wire_ok_def forwarded_def sent_data_def refused_data_def handlers_ok_def)
  qed
  show "proxy_inv pc (s\<lparr>cl_handled := ms\<rparr>)" if "proxy_inv pc s" for ms
    using that by (simp add: proxy_inv_def client_ok_def wire_ok_def cl_inv_def forwarded_def sent_data_def refused_data_def
        handlers_ok_def)
  show "proxy_inv pc (with_workers m ts s)" if "proxy_inv pc s" "cl_inv (with_workers m ts s)"
    using that by (simp add: proxy_inv_def client_ok_def wire_ok_def forwarded_def sent_data_def refused_data_def handlers_ok_def
        with_workers_def)
  show "proxy_inv pc s'" if "proxy_inv pc s"
    "sendMessage (env_io (penv Hostname Sum256 pc opts)) sid svc Message_STREAM_RESET [] s = Return (e, s')"
    using that(2) sendMessage_proxy_inv [OF that(1), of sid svc Message_STREAM_RESET e s']
    by (simp add: message_type_defs)
next
  fix L :: "'a localProxy_scheme AWSMessageListener" and msg
  assume "L \<in> set (messageListeners (penv Hostname Sum256 pc opts))"
  then have L: "L = event_listener pc" by simp
  show "handler_ok (proxy_inv pc) (effect (OnStreamStart L msg))"
  proof (rule handler_okI)
    fix s :: "'a localProxy_scheme"
    assume "proxy_inv pc s"
    show "effect (OnStreamStart L msg) s \<noteq> Panic"
      by (simp add: L event_listener_def listener_OnStreamStart_def Let_def split: option.splits)
    show "effect (OnStreamStart L msg) s = Return s' \<Longrightarrow> proxy_inv pc s' \<and> same_workers s s'" for s'
      using OnStreamStart_handler_ok [OF \<open>proxy_inv pc s\<close>] same_proxy_workers
      by (fastforce simp: L event_listener_def)
  qed
  show "handler_ok (proxy_inv pc) (OnStreamReset L msg)"
  proof (rule handler_okI)
    fix s :: "'a localProxy_scheme"
    assume s: "proxy_inv pc s"
    show "OnStreamReset L msg s \<noteq> Panic"
      using StopSocket_handler_ok [OF s, of msg] by (auto simp: L event_listener_def)
    show "OnStreamReset L msg s = Return s' \<Longrightarrow> proxy_inv pc s' \<and> same_workers s s'" for s'
      using StopSocket_handler_ok [OF s, of msg] same_proxy_workers
      by (auto simp: L event_listener_def)
  qed
  show "handler_ok (proxy_inv pc) (OnSessionReset L msg)"
  proof (rule handler_okI)
    fix s :: "'a localProxy_scheme"
    assume s: "proxy_inv pc s"
    show "OnSessionReset L msg s \<noteq> Panic"
      using StopAll_handler_ok [OF s] by (auto simp: L event_listener_def listener_OnSessionReset_def)
    show "OnSessionReset L msg s = Return s' \<Longrightarrow> proxy_inv pc s' \<and> same_workers s s'" for s'
      using StopAll_handler_ok [OF s] same_proxy_workers
      by (auto simp: L event_listener_def listener_OnSessionReset_def)
  qed
  show "handler_ok (proxy_inv pc) (effect (OnData L msg))"
  proof (rule handler_okI)
    fix s :: "'a localProxy_scheme"
    assume s: "proxy_inv pc s"
    show "effect (OnData L msg) s \<noteq> Panic" by (simp add: L event_listener_def listener_OnData_def)
    show "effect (OnData L msg) s = Return s' \<Longrightarrow> proxy_inv pc s' \<and> same_workers s s'" for s'
      using OnData_handler_ok [OF s] by (auto simp: L event_listener_def)
  qed
  show "handler_ok (proxy_inv pc) (effect (OnServiceIDs L msg))"
  proof (rule handler_okI)
    fix s :: "'a localProxy_scheme"
    assume s: "proxy_inv pc s"
    show "effect (OnServiceIDs L msg) s \<noteq> Panic"
      by (simp add: L event_listener_def listener_OnServiceIDs_def)
    show "effect (OnServiceIDs L msg) s = Return s' \<Longrightarrow> proxy_inv pc s' \<and> same_workers s s'" for s'
      using OnServiceIDs_handler_ok [OF s] by (auto simp: L event_listener_def)
  qed
qed

section \<open>Every step keeps the invariant\<close>

lemma close_conn_proxy_inv: "proxy_inv pc s \<Longrightarrow> proxy_inv pc (close_conn c s)"
proof -
  assume inv: "proxy_inv pc s"
  have "sock_inv (close_conn c s)"
    using sockets_ok_close_conn inv unfolding proxy_inv_def by blast
  then have "sockets_ok (socketMap s) (lp_sockets s) (lp_cons (close_conn c s))" by simp
  then have "proxy_inv pc (s\<lparr>lp_cons := lp_cons (close_conn c s), lp_sockets := lp_sockets s,
      socketMap := socketMap s\<rparr>)"
    by (intro proxy_inv_sockets [OF inv]) (use inv in \<open>simp_all add: proxy_inv_def\<close>)
  then show ?thesis by (simp add: close_conn_def)
qed

lemma handler_list_proxy_inv:
  "proxy_inv pc s \<Longrightarrow> \<forall>h \<in> set hs. ac_con h < length (lp_cons s) \<Longrightarrow> proxy_inv pc (s\<lparr>lp_handlers := hs\<rparr>)"
  by (simp add: proxy_inv_def client_ok_def wire_ok_def cl_inv_def forwarded_def sent_data_def refused_data_def handlers_ok_def)

lemma proxy_inv_idGen: "proxy_inv pc (s\<lparr>lp_idGen := g\<rparr>) = proxy_inv pc s"
  by (simp add: proxy_inv_def client_ok_def wire_ok_def cl_inv_def forwarded_def sent_data_def refused_data_def handlers_ok_def)

lemma proxy_inv_handlers: "proxy_inv pc s \<Longrightarrow> h \<in> set (lp_handlers s) \<Longrightarrow> ac_con h < length (lp_cons s)"
  by (simp add: proxy_inv_def handlers_ok_def)

lemma proxy_inv_workers:
  assumes "proxy_inv pc s" and "cl_inv (s\<lparr>workerMng := m\<rparr>)"
  shows "proxy_inv pc (s\<lparr>workerMng := m\<rparr>)"
  using assms by (simp add: proxy_inv_def client_ok_def wire_ok_def forwarded_def sent_data_def refused_data_def handlers_ok_def)

lemma sendMessage_frame:
  "sendMessage io sid svc ty b s = Return (e, s') \<Longrightarrow>
     cl_taken s' = cl_taken s \<and> lp_cons s' = lp_cons s \<and> lp_handlers s' = lp_handlers s"
  using sendMessage_same_sockets [of io sid svc ty b s e s'] sendMessage_same_proxy [of io sid svc ty b s e s']
  by (simp add: same_sockets_def same_proxy_def same_workers_def)

lemma SendStreamStart_proxy_inv:
  assumes "proxy_inv pc s" and "SendStreamStart (pc_io pc) sid svc s = Return (e, s')"
  shows "proxy_inv pc s' \<and> cl_taken s' = cl_taken s \<and> lp_cons s' = lp_cons s \<and> lp_handlers s' = lp_handlers s"
proof -
  obtain m err s1 where m: "mng_start sid (workerMng s) = Return m"
    and s1: "sendMessage (pc_io pc) sid svc Message_STREAM_START [] (s\<lparr>workerMng := m\<rparr>) = Return (err, s1)"
    and s': "s' = (case err of Some e \<Rightarrow> s1\<lparr>workerMng := mng_stop sid (workerMng s1)\<rparr> | None \<Rightarrow> s1)"
    using assms(2) by (auto simp: SendStreamStart_def split: option.splits)
  have "cl_inv s" using assms(1) by (simp add: proxy_inv_def client_ok_def)
  then have "proxy_inv pc (s\<lparr>workerMng := m\<rparr>)"
    using proxy_inv_workers [OF assms(1) cl_inv_start [OF _ m]] by blast
  then have inv1: "proxy_inv pc s1"
    using sendMessage_proxy_inv [OF _ s1] by (simp add: message_type_defs)
  have "proxy_inv pc (s1\<lparr>workerMng := mng_stop sid (workerMng s1)\<rparr>)"
    using proxy_inv_workers [OF inv1] same_workers_cl_inv [OF same_workers_stop [of s1 sid]] inv1
    by (simp add: proxy_inv_def client_ok_def)
  then show ?thesis
    using inv1 s' sendMessage_frame [OF s1] by (simp split: option.splits)
qed

lemma suck_J_proxy_inv:
  assumes "proxy_inv pc s" and "proxy_reader.J pc s s'" and "only_socket i s s'"
  shows "proxy_inv pc s' \<and> cl_taken s' = cl_taken s"
  using J_proxy_inv [OF assms(2)] assms(1,3)
  by (auto simp: proxy_inv_def only_socket_def same_proxy_def same_workers_def)

text \<open>The two places of a socket's goroutine.\<close>

lemma local_read_J:
  assumes inv: "proxy_inv pc s" and i: "i < length (lp_sockets s)" "ls_phase (lp_sockets s ! i) = Sucking"
    and r: "read_result_ok i r s" "suck_read (socket_reader_of pc) i r s = Return s'"
  shows "proxy_reader.J pc s s'" "only_socket i s s'"
proof -
  note j = inv [unfolded proxy_inv_J, THEN conjunct1]
  have "proxy_reader.J pc s s' \<and> only_socket i s s'"
  proof (cases r)
    case (Inl err)
    then show ?thesis using proxy_reader.suck_read_error [OF j i, of err] r(2) by auto
  next
    case (Inr b)
    then show ?thesis using proxy_reader.suck_read_data [OF j i, of b] r by (auto simp: read_result_ok_def)
  qed
  then show "proxy_reader.J pc s s'" "only_socket i s s'" by simp_all
qed

lemma local_forward_J:
  assumes inv: "proxy_inv pc s" and i: "i < length (lp_sockets s)" "ls_phase (lp_sockets s ! i) = Forwarding b"
    and r: "suck_forward (socket_reader_of pc) i b s = Return s'"
  shows "proxy_reader.J pc s s'" "only_socket i s s'"
  using proxy_reader.suck_forward_J [OF inv [unfolded proxy_inv_J, THEN conjunct1] i] r by auto

lemma handler_begin_proxy_inv:
  assumes "proxy_inv pc s" and "handler_begin pc now h s = Return (nxt, s')"
  shows "proxy_inv pc s' \<and> cl_taken s' = cl_taken s \<and> length (lp_cons s') = length (lp_cons s) \<and>
    lp_handlers s' = lp_handlers s \<and> (\<forall>h'. nxt = Some h' \<longrightarrow> ac_con h' = ac_con h)"
proof -
  obtain sid g where g: "generate (lp_idGen s) now = (sid, g)" by fastforce
  obtain e s1 where s1: "SendStreamStart (pc_io pc) sid (ac_serviceID h) (s\<lparr>lp_idGen := g\<rparr>) = Return (e, s1)"
    and r: "(nxt, s') = (case e of Some e \<Rightarrow> (None, close_conn (ac_con h) s1)
             | None \<Rightarrow> (Some (h\<lparr>ac_streamID := Some sid\<rparr>), s1))"
    using assms(2) by (auto simp: handler_begin_def g)
  have 1: "proxy_inv pc s1 \<and> cl_taken s1 = cl_taken s \<and> lp_cons s1 = lp_cons s \<and> lp_handlers s1 = lp_handlers s"
    using SendStreamStart_proxy_inv [OF _ s1] assms(1) by (simp add: proxy_inv_idGen)
  then have "proxy_inv pc (close_conn (ac_con h) s1)" using close_conn_proxy_inv by blast
  moreover have "cl_taken (close_conn (ac_con h) s1) = cl_taken s1"
    "lp_handlers (close_conn (ac_con h) s1) = lp_handlers s1"
    by (simp_all add: close_conn_def)
  ultimately show ?thesis
    using 1 r by (auto split: option.splits)
qed

lemma handler_end_proxy_inv:
  assumes "proxy_inv pc s" and "ac_con h < length (lp_cons s)"
  shows "proxy_inv pc (handler_end h s) \<and> cl_taken (handler_end h s) = cl_taken s \<and>
    length (lp_cons (handler_end h s)) = length (lp_cons s) \<and>
    lp_handlers (handler_end h s) = lp_handlers s"
proof -
  obtain e s1 where s1: "StartSocket (the (ac_streamID h)) (ac_serviceID h) (ac_con h) s = (e, s1)"
    by fastforce
  have inv: "proxy_inv pc s1" "same_proxy s s1"
    using StartSocket_proxy_inv [OF assms s1] by simp_all
  moreover have "lp_cons s1 = lp_cons s" using s1 by (auto simp: StartSocket_def Let_def split: if_splits)
  ultimately show ?thesis
    using close_conn_proxy_inv [OF inv(1)]
    by (auto simp: handler_end_def s1 same_proxy_def same_workers_def close_conn_def split: option.splits)
qed

lemma handler_done_wg_proxy_inv [simp]:
  "proxy_inv pc (handler_done_wg svc s) = proxy_inv pc s" "cl_taken (handler_done_wg svc s) = cl_taken s"
  by (simp_all add: handler_done_wg_def proxy_inv_servers)

lemma proxy_step_inv:
  fixes s :: "'a localProxy_scheme"
  assumes "proxy_step pc (penv H S pc opts) s s'"
    and inv: "proxy_inv pc s" and tasks: "tasks_ok (penv H S pc opts) s"
  shows "proxy_inv pc s' \<and> tasks_ok (penv H S pc opts) s'"
proof -
  have taken: "tasks_ok (penv H S pc opts) s'" if "cl_taken s' = cl_taken s"
    using tasks that by (simp add: tasks_ok_def)
  from assms(1) show ?thesis
  proof (cases rule: proxy_step.cases)
    case client
    then show ?thesis using proxy_client.client_step_Inv inv tasks by blast
  next
    case reconnected
    then show ?thesis
      using StopAll_handler_ok [OF inv] taken
      by (auto simp: listener_OnConnected_def same_proxy_def same_workers_def)
  next
    case (local_read i r)
    then show ?thesis using suck_J_proxy_inv [OF inv] local_read_J [OF inv] taken by blast
  next
    case (local_forward i b)
    then show ?thesis using suck_J_proxy_inv [OF inv] local_forward_J [OF inv] taken by blast
  next
    case (local_accept serviceID server)
    let ?s1 = "s\<lparr>lp_cons := lp_cons s @ [\<lparr>con_open = True, con_written = []\<rparr>]\<rparr>"
    let ?h = "\<lparr>ac_serviceID = ts_name server, ac_con = length (lp_cons s), ac_streamID = None\<rparr>"
    let ?s2 = "?s1\<lparr>serverMap := (serverMap s)(serviceID \<mapsto> server\<lparr>acceptWG := Suc (acceptWG server)\<rparr>)\<rparr>"
    have "proxy_inv pc ?s2"
      unfolding proxy_inv_servers by (rule proxy_inv_new_con [OF inv])
    then have "proxy_inv pc (?s2\<lparr>lp_handlers := lp_handlers s @ [?h]\<rparr>)"
      using proxy_inv_handlers [OF inv]
      by (intro handler_list_proxy_inv) (auto intro: less_SucI)
    then show ?thesis using taken local_accept(1) by simp
  next
    case (local_begin hs h hs' now nxt s1)
    note b = handler_begin_proxy_inv [OF inv local_begin(4)]
    have len: "ac_con x < length (lp_cons s1)" if "x \<in> set (hs @ h # hs')" for x
      using proxy_inv_handlers [OF inv] local_begin(2) b that by simp
    then show ?thesis
      using b local_begin(1) taken handler_list_proxy_inv [of pc s1]
      by (auto split: option.splits)
  next
    case (local_end hs h hs' sid)
    have len: "ac_con x < length (lp_cons s)" if "x \<in> set (hs @ h # hs')" for x
      using proxy_inv_handlers [OF inv] local_end(2) that by simp
    then have e: "proxy_inv pc (handler_end h s) \<and> cl_taken (handler_end h s) = cl_taken s \<and>
        length (lp_cons (handler_end h s)) = length (lp_cons s)"
      using handler_end_proxy_inv [OF inv, of h] by simp
    then show ?thesis
      using local_end(1) taken handler_list_proxy_inv [of pc "handler_end h s" "hs @ hs'"] len by simp
  qed
qed

end
