(* ===== verification/Proxy_Properties.thy ===== *)
theory Proxy_Properties
  imports Proxy_Machine
begin

text \<open>
  What the local proxy guarantees, in every reachable state of its goroutines: the data of each
  local connection reaches the tunnel in order, each stream's messages are handled in order, and
  no local connection survives \<^verbatim>\<open>StopAll\<close>; and the cases where it falls short of its intention.
\<close>

section \<open>Reachable states\<close>

text \<open>The state of a new proxy after its first connection to the service.\<close>

definition initial_proxy :: "(string \<rightharpoonup> TCPServer) \<Rightarrow> localProxy" where
  "initial_proxy srvs =
     \<lparr>workerMng = new_manager channelBufSizePerStreamID, cl_conns = [True], cl_tried = [],
      cl_sent = [], cl_wire = [], cl_taken = [], cl_handled = [], lp_cons = [], lp_sockets = [],
      socketMap = Map.empty, lp_writes = 0, lp_received = [], serverMap = srvs, lp_idGen = newStreamIDGen,
      lp_dials = 0, lp_handlers = []\<rparr>"

lemma initial_proxy_inv: "proxy_inv pc (initial_proxy srvs) \<and> tasks_ok env (initial_proxy srvs)"
  using new_manager_inv [of channelBufSizePerStreamID]
  by (simp add: initial_proxy_def proxy_inv_def client_ok_def wire_ok_def cl_inv_def forwarded_def
      refusals_def sent_data_def handlers_ok_def tasks_ok_def sockets_ok_def new_manager_def)

interpretation proxy_machine: invariant_system "\<lambda>s. \<exists>srvs. s = initial_proxy srvs"
    "proxy_step pc (penv Hostname Sum256 pc opts)"
    "\<lambda>s. proxy_inv pc s \<and> tasks_ok (penv Hostname Sum256 pc opts) s"
  for pc Hostname Sum256 opts
  by unfold_locales (use initial_proxy_inv proxy_step_inv in blast)+

lemma NewLocalProxy_Inr:
  assumes "NewLocalProxy h H S io dial cw mo options = (Inr (pc, env, s0), opened)"
  shows "env = penv H S pc options"
    "s0\<lparr>cl_conns := [True]\<rparr> = initial_proxy (serverMap s0)"
    "pc_mode pc = po_Mode options" "pc_io pc = io" "pc_map_order pc = mo"
    "LocalProxyOptions_Validate options = None"
    "build_services h (po_Mode options) (po_ServiceConfigs options) Map.empty Map.empty [] =
       (Inr (serviceMap pc, serverMap s0), opened)"
  using assms
  by (auto simp: NewLocalProxy_def proxy_env_def NewAWSClient_def initial_proxy_def
      NewLocalSocketManager_def Let_def split: option.splits sum.splits prod.splits)

abbreviation proxy_reaches ::
  "proxy_conf \<Rightarrow> localProxy client_env \<Rightarrow> localProxy \<Rightarrow> localProxy \<Rightarrow> bool" where
  "proxy_reaches pc env s0 \<equiv> reachable (\<lambda>s. s = s0\<lparr>cl_conns := [True]\<rparr>) (proxy_step pc env)"

lemma proxy_reaches_inv:
  assumes "NewLocalProxy h H S io dial cw mo options = (Inr (pc, env, s0), opened)"
    and "proxy_reaches pc env s0 s"
  shows "proxy_inv pc s" "tasks_ok env s" "env = penv H S pc options"
proof -
  note n = NewLocalProxy_Inr [OF assms(1)]
  show env: "env = penv H S pc options" by (rule n(1))
  have "reachable (\<lambda>s. \<exists>srvs. s = initial_proxy srvs) (proxy_step pc env) s"
    using assms(2)
    by (induction rule: reachable.induct) (auto simp: n(2) intro: reachable.intros)
  from proxy_machine.reachable_inv [OF this [unfolded env]] show "proxy_inv pc s" "tasks_ok env s"
    by (simp_all add: env)
qed

section \<open>A run, for the witnesses\<close>

text \<open>
  A proxy in destination mode with one service: a stream is started, the service writes two
  bytes, they are sent, and a Data message arrives.
\<close>

fun demo_unmarshal :: "bytes \<Rightarrow> string + message" where
  "demo_unmarshal (t # f # p) =
     Inr (zero_message\<lparr>Type := ucast t, StreamId := (if f = 0 then 7 else 1000000),
                       ServiceId := ''ssh'', Payload := p\<rparr>)"
| "demo_unmarshal _ = Inl ''too short''"

definition demo_marshal :: "message \<Rightarrow> string + bytes" where
  "demo_marshal m =
     (let b = ucast (Type m) # (if StreamId m = 7 then 0 else 1) # Payload m
      in if demo_unmarshal b = Inr m then Inr b else Inl ''unsupported'')"

definition demo_io :: client_io where
  "demo_io = \<lparr>env_marshal = demo_marshal, env_unmarshal = demo_unmarshal, env_write = (\<lambda>n. None)\<rparr>"

lemma demo_codec: "codec_roundtrip demo_marshal demo_unmarshal"
  by (simp add: codec_roundtrip_def demo_marshal_def Let_def split: if_splits)

definition demo_host :: host where
  "demo_host = \<lparr>host_exists = (\<lambda>p. False), host_remove = (\<lambda>p. None), host_listen = (\<lambda>n a. None)\<rparr>"

definition demo_options :: "mode \<Rightarrow> LocalProxyOptions" where
  "demo_options md =
     \<lparr>po_Mode = md, po_ServiceConfigs = [\<lparr>ServiceID = ''ssh'', Network = ''tcp'', Address = ''localhost:22''\<rparr>],
      po_Endpoint = Some \<lparr>Scheme = ''wss'', Host = ''h'', Path = ''/tunnel'', Query = Map.empty\<rparr>,
      po_Token = ''t'', po_TLSConfig = None, EndpointDialTimeout = 10000000000,
      LocalDialTimeout = 5000000000, EndpointReconnectInterval = 5000000000,
      po_PingInterval = 30000000000\<rparr>"

definition demo_proxy :: "mode \<Rightarrow> proxy_conf \<times> localProxy client_env \<times> localProxy" where
  "demo_proxy md = projr (fst (NewLocalProxy demo_host (Inr ''host'') (\<lambda>s. []) demo_io (\<lambda>n. None)
     (\<lambda>n. None) (\<lambda>m. []) (demo_options md)))"

definition demo_servers :: "mode \<Rightarrow> TCPServer list" where
  "demo_servers md = snd (NewLocalProxy demo_host (Inr ''host'') (\<lambda>s. []) demo_io (\<lambda>n. None)
     (\<lambda>n. None) (\<lambda>m. []) (demo_options md))"

abbreviation demo_pc :: "mode \<Rightarrow> proxy_conf" where "demo_pc md \<equiv> fst (demo_proxy md)"
abbreviation demo_penv :: "mode \<Rightarrow> localProxy client_env" where "demo_penv md \<equiv> fst (snd (demo_proxy md))"
abbreviation demo_s0 :: "mode \<Rightarrow> localProxy" where "demo_s0 md \<equiv> snd (snd (demo_proxy md))"

lemma demo_new:
  assumes "valid_mode md"
  shows "NewLocalProxy demo_host (Inr ''host'') (\<lambda>s. []) demo_io (\<lambda>n. None) (\<lambda>n. None) (\<lambda>m. [])
      (demo_options md) = (Inr (demo_pc md, demo_penv md, demo_s0 md), demo_servers md)"
proof -
  have "LocalProxyOptions_Validate (demo_options md) = None"
    using assms by (auto simp: LocalProxyOptions_Validate_def demo_options_def valid_mode_def)
  then have "\<exists>r opened. NewLocalProxy demo_host (Inr ''host'') (\<lambda>s. []) demo_io (\<lambda>n. None)
      (\<lambda>n. None) (\<lambda>m. []) (demo_options md) = (Inr r, opened)"
    by (simp add: NewLocalProxy_def demo_options_def demo_host_def NewTCPServer_def Let_def split: prod.splits)
  then show ?thesis by (auto simp: demo_proxy_def demo_servers_def)
qed

lemma demo_dest:
  "serviceMap (demo_pc ModeDestination) = [''ssh'' \<mapsto> \<lparr>ServiceID = ''ssh'', Network = ''tcp'', Address = ''localhost:22''\<rparr>]"
  "pc_io (demo_pc ModeDestination) = demo_io" "pc_dial (demo_pc ModeDestination) = (\<lambda>n. None)"
  "messageListeners (demo_penv ModeDestination) = [event_listener (demo_pc ModeDestination)]"
  "(demo_s0 ModeDestination)\<lparr>cl_conns := [True]\<rparr> = initial_proxy Map.empty"
  by (simp_all add: demo_proxy_def NewLocalProxy_def demo_options_def demo_host_def NewTCPServer_def
      LocalProxyOptions_Validate_def proxy_env_def NewAWSClient_def initial_proxy_def
      NewLocalSocketManager_def Let_def)

definition start_message :: message where
  "start_message = zero_message\<lparr>Type := Message_STREAM_START, StreamId := 7, ServiceId := ''ssh''\<rparr>"

definition demo_worker :: "task worker" where
  "demo_worker = (NewWorker channelBufSizePerStreamID)\<lparr>chCancel := True, w_phase := Working\<rparr>"

definition demo_s1 :: localProxy where
  "demo_s1 = (initial_proxy Map.empty)
     \<lparr>workerMng := \<lparr>workerMap = [7 \<mapsto> 0], mg_workers = [demo_worker],
         bufSize = channelBufSizePerStreamID, mg_stopping = []\<rparr>,
      lp_dials := 1, lp_cons := [\<lparr>con_open = True, con_written = []\<rparr>],
      lp_sockets := [socket_Start (newLocalSocket 7 ''ssh'' 0)], socketMap := [7 \<mapsto> 0],
      cl_handled := [start_message]\<rparr>"

lemma demo_step1: "proxy_step (demo_pc ModeDestination) (demo_penv ModeDestination) (initial_proxy Map.empty) demo_s1"
proof (rule proxy_step.client, rule client_step.handles)
  show "handle_message (demo_penv ModeDestination) start_message (initial_proxy Map.empty) = Return demo_s1"
    by (simp add: handle_message_def demo_dest invokeEvent_def start_message_def zero_message_def
        message_type_defs Let_def mng_start_Return event_listener_def listener_OnStreamStart_def
        StartSocket_def demo_s1_def initial_proxy_def new_manager_def demo_worker_def)
qed

definition demo_s2 :: localProxy where
  "demo_s2 = demo_s1\<lparr>lp_sockets := [(socket_Start (newLocalSocket 7 ''ssh'' 0))
      \<lparr>ls_phase := Forwarding [1, 2], ls_read := [1, 2]\<rparr>]\<rparr>"

lemma demo_step2: "proxy_step (demo_pc ModeDestination) (demo_penv ModeDestination) demo_s1 demo_s2"
proof (rule proxy_step.local_read [of 0])
  show "suck_read (socket_reader_of (demo_pc ModeDestination)) 0 (Inr [1, 2]) demo_s1 = Return demo_s2"
    by (simp add: suck_read_def demo_s1_def demo_s2_def set_socket_def socket_Start_def
        newLocalSocket_def Let_def)
qed (simp_all add: demo_s1_def socket_Start_def newLocalSocket_def read_result_ok_def readBufSize_def)

definition demo_s3 :: localProxy where
  "demo_s3 = demo_s2\<lparr>lp_sockets := [(socket_Start (newLocalSocket 7 ''ssh'' 0))
        \<lparr>ls_read := [1, 2], ls_forwarded := [1, 2]\<rparr>],
      cl_tried := [zero_message\<lparr>Type := Message_DATA, StreamId := 7, ServiceId := ''ssh'', Payload := [1, 2]\<rparr>],
      cl_sent := [zero_message\<lparr>Type := Message_DATA, StreamId := 7, ServiceId := ''ssh'', Payload := [1, 2]\<rparr>],
      cl_wire := [[0, 4, 1, 0, 1, 2]]\<rparr>"

lemma demo_step3: "proxy_step (demo_pc ModeDestination) (demo_penv ModeDestination) demo_s2 demo_s3"
proof (rule proxy_step.local_forward [of 0])
  show "suck_forward (socket_reader_of (demo_pc ModeDestination)) 0 [1, 2] demo_s2 = Return demo_s3"
    by (simp add: suck_forward_def demo_s1_def demo_s2_def demo_s3_def set_socket_def socket_Start_def
        newLocalSocket_def Let_def socket_reader_of_def listener_OnReadData_def SendData_def
        sendMessage_def demo_dest demo_io_def demo_marshal_def message_type_defs SerializeMessage_def add_size_def put_be_uint16_def
        initial_proxy_def zero_message_def)
qed (simp_all add: demo_s2_def demo_s1_def socket_Start_def newLocalSocket_def)

definition data_message :: message where
  "data_message = zero_message\<lparr>Type := Message_DATA, StreamId := 7, ServiceId := ''ssh'', Payload := [1, 2]\<rparr>"

definition demo_s4 :: localProxy where
  "demo_s4 = demo_s3
     \<lparr>workerMng := \<lparr>workerMap = [7 \<mapsto> 0],
         mg_workers = [demo_worker\<lparr>chExec := [DataTask 0 data_message], w_accepted := [DataTask 0 data_message]\<rparr>],
         bufSize = channelBufSizePerStreamID, mg_stopping = []\<rparr>,
      cl_taken := [DataTask 0 data_message], cl_handled := [start_message, data_message]\<rparr>"

lemma demo_step4: "proxy_step (demo_pc ModeDestination) (demo_penv ModeDestination) demo_s3 demo_s4"
proof (rule proxy_step.client, rule client_step.handles)
  show "handle_message (demo_penv ModeDestination) data_message demo_s3 = Return demo_s4"
    by (simp add: handle_message_def demo_dest invokeEvent_def data_message_def zero_message_def
        message_type_defs Let_def exec_task_def mng_exec_def Worker_Exec_def demo_s4_def demo_s3_def
        demo_s2_def demo_s1_def demo_worker_def NewWorker_def channelBufSizePerStreamID_def initial_proxy_def)
qed

lemma demo_reaches:
  "proxy_reaches (demo_pc ModeDestination) (demo_penv ModeDestination) (demo_s0 ModeDestination) demo_s4"
proof -
  have "proxy_reaches (demo_pc ModeDestination) (demo_penv ModeDestination) (demo_s0 ModeDestination)
      (initial_proxy Map.empty)"
    by (rule reachable.start) (simp add: demo_dest)
  then have "proxy_reaches (demo_pc ModeDestination) (demo_penv ModeDestination) (demo_s0 ModeDestination) demo_s1"
    using demo_step1 by (rule reachable.step)
  then have "proxy_reaches (demo_pc ModeDestination) (demo_penv ModeDestination) (demo_s0 ModeDestination) demo_s2"
    using demo_step2 by (rule reachable.step)
  then have "proxy_reaches (demo_pc ModeDestination) (demo_penv ModeDestination) (demo_s0 ModeDestination) demo_s3"
    using demo_step3 by (rule reachable.step)
  then show ?thesis using demo_step4 by (rule reachable.step)
qed

lemmas demo_run = demo_new [OF valid_mode_simps(2)] demo_reaches

section \<open>From the local connections to the tunnel\<close>

text \<open>
  C5 (functional): what the local programs write reaches the tunnel in order, and is lost only when
  sending it fails.  In every reachable state, the payloads of the Data messages sent for a stream
  are, put together, what the stream's connections handed over, one connection after the other.
  While a connection is read, it has handed over all that was read from it, but for the data in
  hand; after its end it has handed over all that was read, or all but the data of the last read,
  whose Data message could not be serialized or was given to a \<^verbatim>\<open>WriteMessage\<close> that failed.
\<close>

theorem local_data_forwarded:
  assumes "NewLocalProxy h H S io dial cw mo options = (Inr (pc, env, s0), opened)"
    and "proxy_reaches pc env s0 s"
  shows "concat (map Payload (filter (\<lambda>m. Type m = Message_DATA \<and> StreamId m = sid) (cl_sent s))) =
      concat (map ls_forwarded (filter (\<lambda>k. ls_streamID k = sid) (lp_sockets s))) \<and>
    (\<forall>k \<in> set (lp_sockets s).
       case ls_phase k of
         Forwarding b \<Rightarrow> ls_read k = ls_forwarded k @ b
       | Ended \<Rightarrow> \<exists>b. ls_read k = ls_forwarded k @ b \<and>
           (let m = zero_message\<lparr>StreamId := ls_streamID k, ServiceId := ls_serviceID k,
                      Type := Message_DATA, Payload := b\<rparr>
            in b = [] \<or> (\<exists>e. SerializeMessage (env_marshal io) m = Inl e) \<or>
               (\<exists>n < length (cl_tried s). cl_tried s ! n = m \<and> env_write io n \<noteq> None))
       | _ \<Rightarrow> ls_read k = ls_forwarded k)"
proof -
  note inv = proxy_reaches_inv(1) [OF assms] and io = NewLocalProxy_Inr(4) [OF assms(1)]
  have ok: "sock_inv s" and refused: "refusals (refused_data io s) (lp_sockets s)"
    using inv io by (simp_all add: proxy_inv_def)
  have "case ls_phase k of
         Forwarding b \<Rightarrow> ls_read k = ls_forwarded k @ b
       | Ended \<Rightarrow> refusal (refused_data io s) k
       | _ \<Rightarrow> ls_read k = ls_forwarded k" if k: "k \<in> set (lp_sockets s)" for k
  proof -
    from k obtain i where "i < length (lp_sockets s)" "lp_sockets s ! i = k"
      by (metis in_set_conv_nth)
    then show ?thesis
      using sockets_okD(5) [OF ok] refused k
      by (fastforce simp: socket_ok_def refusals_def split: socket_phase.splits)
  qed
  moreover have "concat (map Payload (filter (\<lambda>m. Type m = Message_DATA \<and> StreamId m = sid) (cl_sent s))) =
      concat (map ls_forwarded (filter (\<lambda>k. ls_streamID k = sid) (lp_sockets s)))"
    using inv by (simp add: proxy_inv_def forwarded_def sent_data_def)
  ultimately show ?thesis
    unfolding refusal_def refused_data_def data_frame_def Let_def by blast
qed

theorem local_data_forwarded_witness:
  "concat (map Payload (filter (\<lambda>m. Type m = Message_DATA \<and> StreamId m = 7) (cl_sent demo_s4))) = [1, 2]"
  using local_data_forwarded [OF demo_run, of 7]
  by (simp add: demo_s4_def demo_s3_def demo_s2_def socket_Start_def newLocalSocket_def)

section \<open>Stopping\<close>

text \<open>
  C11 (safety): no local connection survives \<^verbatim>\<open>StopAll\<close>.  In every reachable state a socket whose
  goroutine runs is in the map, and \<^verbatim>\<open>StopAll\<close>, which ends \<^verbatim>\<open>Run\<close>, starts a reconnection and
  serves a session reset, returns with the map empty, every goroutine of a socket ended and every
  connection of a socket closed.
\<close>

theorem StopAll_ends_every_socket:
  assumes "NewLocalProxy h H S io dial cw mo options = (Inr (pc, env, s0), opened)"
    and "proxy_reaches pc env s0 s" and "iterates mo"
  shows "(\<forall>i < length (lp_sockets s). ls_phase (lp_sockets s ! i) \<noteq> Ended \<longrightarrow>
      socketMap s (ls_streamID (lp_sockets s ! i)) = Some i) \<and>
    (\<exists>s'. proxy_StopAll pc s = Return s' \<and> socketMap s' = Map.empty \<and>
      length (lp_sockets s') = length (lp_sockets s) \<and>
      (\<forall>k \<in> set (lp_sockets s'). ls_phase k = Ended \<and> \<not> con_open (lp_cons s' ! ls_con k)))"
proof -
  note inv = proxy_reaches_inv(1) [OF assms(1,2)]
  have ok: "sock_inv s" using inv by (simp add: proxy_inv_def)
  have j: "proxy_reader.J pc s s" using inv by (simp add: proxy_inv_J)
  have "iterates (pc_map_order pc)" using NewLocalProxy_Inr(5) [OF assms(1)] assms(3) by simp
  then obtain s' where "proxy_StopAll pc s = Return s'" "socketMap s' = Map.empty"
    "length (lp_sockets s') = length (lp_sockets s)"
    "\<forall>k \<in> set (lp_sockets s'). ls_phase k = Ended \<and> \<not> con_open (lp_cons s' ! ls_con k)"
    using proxy_reader.StopAll_J [OF j] unfolding proxy_StopAll_def by blast
  then show ?thesis using socket_ok_live sockets_okD(5) [OF ok] by blast
qed

text \<open>An order for \<^verbatim>\<open>range\<close>, for the witness: the keys in ascending order.\<close>

definition sorted_keys :: "(int32 \<rightharpoonup> nat) \<Rightarrow> int32 list" where
  "sorted_keys m = sorted_list_of_set (dom m)"

lemma sorted_keys_iterates: "iterates sorted_keys"
  by (simp add: iterates_def sorted_keys_def)

theorem StopAll_ends_every_socket_witness:
  "\<exists>pc env s0 opened s'. NewLocalProxy demo_host (Inr ''host'') (\<lambda>s. []) demo_io (\<lambda>n. None) (\<lambda>n. None)
      sorted_keys (demo_options ModeDestination) = (Inr (pc, env, s0), opened) \<and>
    proxy_StopAll pc (s0\<lparr>cl_conns := [True]\<rparr>) = Return s' \<and> socketMap s' = Map.empty"
proof -
  obtain pc env s0 opened where n: "NewLocalProxy demo_host (Inr ''host'') (\<lambda>s. []) demo_io (\<lambda>n. None)
      (\<lambda>n. None) sorted_keys (demo_options ModeDestination) = (Inr (pc, env, s0), opened)"
    by (simp add: NewLocalProxy_def demo_options_def demo_host_def NewTCPServer_def
        LocalProxyOptions_Validate_def proxy_env_def NewAWSClient_def Let_def)
  have "proxy_reaches pc env s0 (s0\<lparr>cl_conns := [True]\<rparr>)" by (rule reachable.start) simp
  from StopAll_ends_every_socket [OF n this sorted_keys_iterates] n show ?thesis by blast
qed

section \<open>The services of source mode\<close>

text \<open>The server of a configuration, and what \<open>build_services\<close> builds.\<close>

definition server_of :: "ServiceConfig \<Rightarrow> TCPServer" where
  "server_of c =
     \<lparr>ts_name = ServiceID c, ts_network = Network c, ts_address = Address c, ts_listening = True,
      acceptWG = 0, chStop = False, started = False, ts_accepting = False\<rparr>"

lemma NewTCPServer_server_of:
  "fst (NewTCPServer h (ServiceID c) (Network c) (Address c)) = Inr server \<Longrightarrow> server = server_of c"
  by (auto simp: NewTCPServer_def server_of_def Let_def split: option.splits)

definition last_config :: "ServiceConfig list \<Rightarrow> string \<Rightarrow> ServiceConfig option" where
  "last_config configs sid = find (\<lambda>c. ServiceID c = sid) (rev configs)"

lemma find_snoc:
  "find P (xs @ [y]) = (case find P xs of Some d \<Rightarrow> Some d | None \<Rightarrow> if P y then Some y else None)"
  by (induction xs) auto

lemma last_config_Cons:
  "last_config (c # cs) sid =
     (case last_config cs sid of Some d \<Rightarrow> Some d | None \<Rightarrow> if ServiceID c = sid then Some c else None)"
  by (simp add: last_config_def find_snoc)

lemma last_config_id: "last_config cs sid = Some c \<Longrightarrow> ServiceID c = sid"
  by (auto simp: last_config_def find_Some_iff)

lemma build_services_source:
  "build_services h ModeSource cs svcs srvs opened = (Inr (svcs', srvs'), opened') \<Longrightarrow>
     opened' = opened @ map server_of cs \<and>
     (\<forall>sid. srvs' sid = (case last_config cs sid of Some c \<Rightarrow> Some (server_of c) | None \<Rightarrow> srvs sid))"
proof (induction cs arbitrary: svcs srvs opened)
  case Nil
  then show ?case by (simp add: last_config_def)
next
  case (Cons c cs)
  then obtain server where s: "fst (NewTCPServer h (ServiceID c) (Network c) (Address c)) = Inr server"
    and b: "build_services h ModeSource cs (svcs(ServiceID c \<mapsto> c)) (srvs(ServiceID c \<mapsto> server))
        (opened @ [server]) = (Inr (svcs', srvs'), opened')"
    by (auto simp: Let_def split: sum.splits)
  have "server = server_of c" by (rule NewTCPServer_server_of [OF s])
  with Cons.IH [OF b] show ?case
    by (auto simp: last_config_Cons split: option.splits)
qed

text \<open>
  C23 (functional): in source mode a ServiceIDs message starts exactly the available services.
  Every configuration's listener is opened by \<^verbatim>\<open>NewLocalProxy\<close>; after the message a service
  accepts connections if and only if it is configured and available, where an empty list makes
  the service without a name available, and its server is that of the \<^emph>\<open>last\<close> configuration with
  its id.  The same message again changes nothing.
\<close>

theorem service_ids_start_available_services:
  assumes "NewLocalProxy h H S io dial cw mo options = (Inr (pc, env, s0), opened)"
    and "po_Mode options = ModeSource"
  shows "opened = map server_of (po_ServiceConfigs options) \<and>
    (\<exists>s'. listener_OnServiceIDs pc m s0 = Return (None, s') \<and>
       s' = s0\<lparr>serverMap := serverMap s'\<rparr> \<and>
       listener_OnServiceIDs pc m s' = Return (None, s') \<and>
       (\<forall>sid server. serverMap s' sid = Some server \<and> ts_accepting server \<longleftrightarrow>
          (if AvailableServiceIds m = [] then sid = '''' else sid \<in> set (AvailableServiceIds m)) \<and>
          (\<exists>c. last_config (po_ServiceConfigs options) sid = Some c \<and>
             server = server_Start (server_of c))))"
proof -
  note n = NewLocalProxy_Inr [OF assms(1)]
  have b: "opened = map server_of (po_ServiceConfigs options)"
    "serverMap s0 sid = map_option server_of (last_config (po_ServiceConfigs options) sid)" for sid
    using build_services_source [OF n(7) [unfolded assms(2)]] by (auto split: option.splits)
  let ?av = "set (available_services m)"
  let ?f = "\<lambda>server. if ts_name server \<in> ?av then server_Start server else server"
  let ?s' = "s0\<lparr>serverMap := \<lambda>sid. map_option ?f (serverMap s0 sid)\<rparr>"
  have mode: "pc_mode pc = ModeSource" using n(3) assms(2) by simp
  have f2: "?f (?f server) = ?f server" for server by (auto simp: server_Start_def)
  have 1: "listener_OnServiceIDs pc m s0 = Return (None, ?s')"
    by (simp add: listener_OnServiceIDs_def mode)
  have 2: "listener_OnServiceIDs pc m ?s' = Return (None, ?s')"
    by (simp add: listener_OnServiceIDs_def mode option.map_comp comp_def f2 cong: map_option_cong)
  have av: "sid \<in> ?av \<longleftrightarrow> (if AvailableServiceIds m = [] then sid = '''' else sid \<in> set (AvailableServiceIds m))" for sid
    by (simp add: available_services_def)
  have 3: "serverMap ?s' sid = Some server \<and> ts_accepting server \<longleftrightarrow>
      sid \<in> ?av \<and> (\<exists>c. last_config (po_ServiceConfigs options) sid = Some c \<and>
             server = server_Start (server_of c))" for sid server
  proof (cases "last_config (po_ServiceConfigs options) sid")
    case None
    then show ?thesis by (simp add: b(2))
  next
    case (Some c)
    have id: "ts_name (server_of c) = sid"
      using last_config_id [OF Some] by (simp add: server_of_def)
    have acc: "ts_accepting (server_Start (server_of c))" "\<not> ts_accepting (server_of c)"
      by (simp_all add: server_of_def server_Start_def)
    have sm: "serverMap ?s' sid = Some (if sid \<in> ?av then server_Start (server_of c) else server_of c)"
      by (simp add: b(2) Some id)
    show ?thesis
      unfolding sm Some using acc by (cases "sid \<in> ?av") auto
  qed
  have 0: "?s' = s0\<lparr>serverMap := serverMap ?s'\<rparr>" by simp
  have 4: "\<forall>sid server. serverMap ?s' sid = Some server \<and> ts_accepting server \<longleftrightarrow>
      (if AvailableServiceIds m = [] then sid = '''' else sid \<in> set (AvailableServiceIds m)) \<and>
      (\<exists>c. last_config (po_ServiceConfigs options) sid = Some c \<and> server = server_Start (server_of c))"
    using 3 unfolding av by blast
  show ?thesis
    by (rule conjI [OF b(1)], rule exI [of _ ?s'], intro conjI) (fact 1 0 2 4)+
qed

lemma demo_source: "po_Mode (demo_options ModeSource) = ModeSource"
  by (simp add: demo_options_def)

theorem service_ids_start_available_services_witness:
  "\<exists>s'. listener_OnServiceIDs (demo_pc ModeSource)
       (zero_message\<lparr>Type := Message_SERVICE_IDS, AvailableServiceIds := [''ssh'', ''web'']\<rparr>)
       (demo_s0 ModeSource) = Return (None, s') \<and>
     (\<exists>server. serverMap s' ''ssh'' = Some server \<and> ts_accepting server) \<and>
     \<not> (\<exists>server. serverMap s' ''web'' = Some server \<and> ts_accepting server)"
proof -
  let ?m = "zero_message\<lparr>Type := Message_SERVICE_IDS, AvailableServiceIds := [''ssh'', ''web'']\<rparr>"
  obtain s' where s': "listener_OnServiceIDs (demo_pc ModeSource) ?m (demo_s0 ModeSource) = Return (None, s')"
    and iff: "\<And>sid server. serverMap s' sid = Some server \<and> ts_accepting server \<longleftrightarrow>
          (if AvailableServiceIds ?m = [] then sid = '''' else sid \<in> set (AvailableServiceIds ?m)) \<and>
          (\<exists>c. last_config (po_ServiceConfigs (demo_options ModeSource)) sid = Some c \<and>
             server = server_Start (server_of c))"
    using service_ids_start_available_services [OF demo_new [OF valid_mode_simps(1)] demo_source, of ?m]
    by blast
  show ?thesis
    using s' iff [of "''ssh''"] iff [of "''web''"]
    by (simp add: demo_options_def last_config_def zero_message_def)
qed

section \<open>Where the proxy falls short\<close>

text \<open>
  C32 (safety): a stream whose local connection has ended stays taken, and its next start leaks a
  connection.  When the local program ends, the socket ends but stays in the map; until a reset of
  the stream or of the session arrives, a StreamStart message with the same id still dials the
  service, fails, and leaves the new connection open with no socket and no handler that could ever
  close it.
\<close>

theorem ended_stream_leaks_next_connection:
  assumes "NewLocalProxy h H S io dial cw mo options = (Inr (pc, env, s0), opened)"
    and "proxy_reaches pc env s0 s"
    and "i < length (lp_sockets s)" and "ls_phase (lp_sockets s ! i) = Sucking"
    and "StreamId m = ls_streamID (lp_sockets s ! i)"
    and "serviceMap pc (ServiceId m) = Some svc" and "\<forall>n. pc_dial pc n = None"
  shows "\<exists>s1 err s2. suck_read (socket_reader_of pc) i (Inl ''EOF'') s = Return s1 \<and>
    ls_phase (lp_sockets s1 ! i) = Ended \<and> socketMap s1 (StreamId m) = Some i \<and>
    listener_OnStreamStart pc m s1 = Return (Some err, s2) \<and>
    length (lp_cons s2) = Suc (length (lp_cons s)) \<and> con_open (last (lp_cons s2)) \<and>
    (\<forall>k \<in> set (lp_sockets s2). ls_con k < length (lp_cons s)) \<and>
    (\<forall>h \<in> set (lp_handlers s2). ac_con h < length (lp_cons s))"
proof -
  note inv = proxy_reaches_inv(1) [OF assms(1,2)]
  have j: "proxy_reader.J pc s s" using inv by (simp add: proxy_inv_J)
  have ok: "sock_inv s" using inv by (simp add: proxy_inv_def)
  obtain s1 where s1: "suck_read (socket_reader_of pc) i (Inl ''EOF'') s = Return s1"
    "proxy_reader.J pc s s1" "only_socket i s s1" "ls_phase (lp_sockets s1 ! i) = Ended"
    using proxy_reader.suck_read_error [OF j assms(3,4), of "''EOF''"] by blast
  have inv1: "proxy_inv pc s1" using suck_J_proxy_inv [OF inv s1(2,3)] by simp
  have len: "length (lp_cons s1) = length (lp_cons s)" and m: "socketMap s1 = socketMap s"
    using s1(3) by (simp_all add: only_socket_def)
  have sid: "socketMap s1 (StreamId m) = Some i"
    using socket_ok_live [OF sockets_okD(5) [OF ok assms(3)]] assms(4,5) m by simp
  let ?s2 = "s1\<lparr>lp_dials := Suc (lp_dials s1), lp_cons := lp_cons s1 @ [\<lparr>con_open = True, con_written = []\<rparr>]\<rparr>"
  have "listener_OnStreamStart pc m s1 = Return (Some ''specified streamID already exists'', ?s2)"
    using assms(6,7) sid by (simp add: listener_OnStreamStart_def StartSocket_def Let_def)
  moreover have "ls_con k < length (lp_cons s)" if "k \<in> set (lp_sockets s1)" for k
  proof -
    from that obtain j where "j < length (lp_sockets s1)" "lp_sockets s1 ! j = k"
      by (metis in_set_conv_nth)
    moreover have "sock_inv s1" using inv1 by (simp add: proxy_inv_def)
    ultimately show ?thesis using sockets_okD(5) len by (fastforce simp: socket_ok_def)
  qed
  moreover have "\<forall>h \<in> set (lp_handlers s1). ac_con h < length (lp_cons s)"
    using proxy_inv_handlers [OF inv1] len by simp
  ultimately show ?thesis
    using s1(1,4) sid len by (intro exI [of _ s1] exI [of _ "''specified streamID already exists''"] exI [of _ ?s2]) simp
qed

theorem ended_stream_leaks_next_connection_witness:
  "\<exists>s1 err s2. suck_read (socket_reader_of (demo_pc ModeDestination)) 0 (Inl ''EOF'') demo_s4 = Return s1 \<and>
     listener_OnStreamStart (demo_pc ModeDestination) start_message s1 = Return (Some err, s2) \<and>
     length (lp_cons s2) = 2 \<and> con_open (last (lp_cons s2))"
proof -
  have f: "lp_sockets demo_s4 = [(socket_Start (newLocalSocket 7 ''ssh'' 0))\<lparr>ls_read := [1, 2], ls_forwarded := [1, 2]\<rparr>]"
    "lp_cons demo_s4 = [\<lparr>con_open = True, con_written = []\<rparr>]"
    by (simp_all add: demo_s4_def demo_s3_def demo_s2_def demo_s1_def)
  have "\<exists>svc. serviceMap (demo_pc ModeDestination) (ServiceId start_message) = Some svc"
    by (simp add: demo_dest start_message_def zero_message_def)
  then obtain svc where svc: "serviceMap (demo_pc ModeDestination) (ServiceId start_message) = Some svc" ..
  have h: "0 < length (lp_sockets demo_s4)" "ls_phase (lp_sockets demo_s4 ! 0) = Sucking"
    "StreamId start_message = ls_streamID (lp_sockets demo_s4 ! 0)"
    "\<forall>n. pc_dial (demo_pc ModeDestination) n = None" "length (lp_cons demo_s4) = 1"
    by (simp_all add: f socket_Start_def newLocalSocket_def start_message_def zero_message_def demo_dest)
  from ended_stream_leaks_next_connection [OF demo_run h(1-3) svc h(4)] h(5) show ?thesis
    by fastforce
qed

text \<open>
  C31 (safety): in source mode data that arrives early resets the stream.  Between the StreamStart
  message and \<^verbatim>\<open>StartSocket\<close> the handler of the accepted connection has no socket yet.  When the
  service's first Data message is handled in between (a server that speaks first needs no more),
  its payload is given to no connection and a StreamReset message is sent, while the handler goes
  on to start the socket of the stream it has just reset.
\<close>

theorem early_data_resets_stream:
  assumes "NewLocalProxy h H S io dial cw mo options = (Inr (pc, env, s0), opened)"
    and "proxy_reaches pc env s0 s"
    and "handler \<in> set (lp_handlers s)" and "ac_streamID handler = Some (StreamId m)"
    and "socketMap s (StreamId m) = None"
    and "workerMap (workerMng s) (StreamId m) = Some i"
    and "w_phase (mg_workers (workerMng s) ! i) = Working"
    and "busy (mg_workers (workerMng s) ! i) = None" and "chExec (mg_workers (workerMng s) ! i) = []"
    and "Type m = Message_DATA" and "\<not> Ignorable m"
    and "env_write io (length (cl_tried s)) = None"
    and "env_marshal io (zero_message\<lparr>Type := Message_STREAM_RESET, StreamId := StreamId m,
           ServiceId := ServiceId m\<rparr>) = Inr b"
  shows "\<exists>s1 s2 s3. handle_message env m s = Return s1 \<and> proxy_step pc env s s1 \<and>
    proxy_step pc env s1 s2 \<and> proxy_step pc env s2 s3 \<and>
    cl_sent s3 = cl_sent s @ [zero_message\<lparr>Type := Message_STREAM_RESET, StreamId := StreamId m,
           ServiceId := ServiceId m\<rparr>] \<and>
    lp_cons s3 = lp_cons s \<and> handler \<in> set (lp_handlers s3) \<and> socketMap s3 (StreamId m) = None"
proof -
  note inv = proxy_reaches_inv(1,3) [OF assms(1,2)]
  have cl: "cl_inv s" "cl_conns s \<noteq> []" using inv(1) by (simp_all add: proxy_inv_def client_ok_def)
  have env: "messageListeners env = [event_listener pc]" "env_io env = io"
    using inv(2) NewLocalProxy_Inr(4) [OF assms(1)] by simp_all
  let ?M = "workerMng s" and ?t = "DataTask 0 m"
  let ?w = "mg_workers ?M ! i"
  have i: "i < length (mg_workers ?M)" by (rule mng_invD(2) [OF cl_invD(1) [OF cl(1)] assms(6)])
  have cap: "execCap ?w = 10"
    using mng_invD(3) [OF cl_invD(1) [OF cl(1)] i]
    by (simp add: mng_worker_ok_def channelBufSizePerStreamID_def)
  let ?w1 = "?w\<lparr>chExec := [?t], w_accepted := w_accepted ?w @ [?t]\<rparr>"
  let ?s1 = "s\<lparr>workerMng := set_worker i ?w1 ?M, cl_taken := cl_taken s @ [?t],
      cl_handled := cl_handled s @ [m]\<rparr>"
  let ?s2 = "?s1\<lparr>workerMng := set_worker i (?w1\<lparr>chExec := [], busy := Some ?t\<rparr>) (workerMng ?s1)\<rparr>"
  have 1: "handle_message env m s = Return ?s1"
    using assms(6,9-11) cap
    by (simp add: handle_message_def env invokeEvent_def exec_task_def mng_exec_def Worker_Exec_def
        message_type_defs Let_def set_worker_def)
  have w1: "mg_workers (workerMng ?s1) ! i = ?w1" using i by (simp add: set_worker_def)
  have 2: "client_step env ?s1 ?s2"
    by (rule takes_task [OF _ w1, where ts = "[]"]) (use i assms(7,8) in \<open>simp_all add: set_worker_def\<close>)
  let ?r2 = "?s2\<lparr>lp_received := lp_received s @ [(StreamId m, Payload m)]\<rparr>"
  have wr: "manager_Write (pc_con_write pc) (StreamId m) (ServiceId m) (Payload m) ?s2 =
      (Some ''unknown streamID'', ?r2)"
    using assms(5) by (simp add: manager_Write_def)
  have "SendStreamReset io (StreamId m) (ServiceId m) ?r2 =
      Return (None, ?r2\<lparr>workerMng := mng_stop (StreamId m) (workerMng ?s2), cl_tried := cl_tried s @ [zero_message\<lparr>Type := Message_STREAM_RESET, StreamId := StreamId m,
           ServiceId := ServiceId m\<rparr>],
        cl_sent := cl_sent s @ [zero_message\<lparr>Type := Message_STREAM_RESET, StreamId := StreamId m,
           ServiceId := ServiceId m\<rparr>], cl_wire := cl_wire s @ [add_size b]\<rparr>)"
    using assms(12,13) cl(2)
    by (simp add: SendStreamReset_def sendMessage_def SerializeMessage_def Let_def zero_message_def)
  with wr have 3: "run_task env ?t ?s2 =
      Return (?r2\<lparr>workerMng := mng_stop (StreamId m) (workerMng ?s2), cl_tried := cl_tried s @ [zero_message\<lparr>Type := Message_STREAM_RESET, StreamId := StreamId m,
           ServiceId := ServiceId m\<rparr>],
        cl_sent := cl_sent s @ [zero_message\<lparr>Type := Message_STREAM_RESET, StreamId := StreamId m,
           ServiceId := ServiceId m\<rparr>], cl_wire := cl_wire s @ [add_size b]\<rparr>)"
    (is "_ = Return ?s3")
    by (simp add: env event_listener_def listener_OnData_def)
  have w2: "mg_workers (workerMng ?s2) ! i = ?w1\<lparr>chExec := [], busy := Some ?t\<rparr>"
    using i by (simp add: set_worker_def)
  have 4: "client_step env ?s2 (worker_done i ?t ?s3)"
    by (rule finishes_task [OF _ w2 _ _ 3]) (use i assms(7) in \<open>simp_all add: set_worker_def\<close>)
  show ?thesis
    by (rule exI [of _ ?s1], rule exI [of _ ?s2], rule exI [of _ "worker_done i ?t ?s3"])
      (use 1 2 4 assms(3,5) in \<open>auto simp: worker_done_def Let_def intro: proxy_step.client handles\<close>)
qed

text \<open>The run in source mode for the witness: the service is started, accepts, and begins a stream.\<close>

definition ssh_server :: TCPServer where
  "ssh_server = server_Start (server_of \<lparr>ServiceID = ''ssh'', Network = ''tcp'', Address = ''localhost:22''\<rparr>)"

lemma demo_src:
  "(demo_s0 ModeSource)\<lparr>cl_conns := [True]\<rparr> = initial_proxy [''ssh'' \<mapsto>
     server_of \<lparr>ServiceID = ''ssh'', Network = ''tcp'', Address = ''localhost:22''\<rparr>]"
  "pc_mode (demo_pc ModeSource) = ModeSource" "pc_io (demo_pc ModeSource) = demo_io"
  "messageListeners (demo_penv ModeSource) = [event_listener (demo_pc ModeSource)]"
  by (simp_all add: demo_proxy_def NewLocalProxy_def demo_options_def demo_host_def NewTCPServer_def
      LocalProxyOptions_Validate_def proxy_env_def NewAWSClient_def initial_proxy_def server_of_def
      NewLocalSocketManager_def Let_def)

definition src_s1 :: localProxy where
  "src_s1 = (initial_proxy [''ssh'' \<mapsto> ssh_server])
     \<lparr>cl_handled := [zero_message\<lparr>Type := Message_SERVICE_IDS, AvailableServiceIds := [''ssh'']\<rparr>]\<rparr>"

definition src_s2 :: localProxy where
  "src_s2 = src_s1\<lparr>lp_cons := [\<lparr>con_open = True, con_written = []\<rparr>],
     serverMap := [''ssh'' \<mapsto> ssh_server\<lparr>acceptWG := Suc (Suc 0)\<rparr>],
     lp_handlers := [\<lparr>ac_serviceID = ''ssh'', ac_con = 0, ac_streamID = None\<rparr>]\<rparr>"

definition src_s3 :: localProxy where
  "src_s3 = src_s2
     \<lparr>workerMng := \<lparr>workerMap = [1000000 \<mapsto> 0], mg_workers = [demo_worker],
         bufSize = channelBufSizePerStreamID, mg_stopping = []\<rparr>,
      cl_tried := [zero_message\<lparr>Type := Message_STREAM_START, StreamId := 1000000, ServiceId := ''ssh''\<rparr>],
      cl_sent := [zero_message\<lparr>Type := Message_STREAM_START, StreamId := 1000000, ServiceId := ''ssh''\<rparr>],
      cl_wire := [[0, 2, 2, 1]],
      lp_idGen := \<lparr>counter = 1\<rparr>,
      lp_handlers := [\<lparr>ac_serviceID = ''ssh'', ac_con = 0, ac_streamID = Some 1000000\<rparr>]\<rparr>"

lemma src_step1:
  "proxy_step (demo_pc ModeSource) (demo_penv ModeSource) ((demo_s0 ModeSource)\<lparr>cl_conns := [True]\<rparr>) src_s1"
proof (rule proxy_step.client, rule client_step.handles)
  show "handle_message (demo_penv ModeSource)
      (zero_message\<lparr>Type := Message_SERVICE_IDS, AvailableServiceIds := [''ssh'']\<rparr>)
      ((demo_s0 ModeSource)\<lparr>cl_conns := [True]\<rparr>) = Return src_s1"
    by (simp add: handle_message_def demo_src invokeEvent_def zero_message_def message_type_defs Let_def
        event_listener_def listener_OnServiceIDs_def available_services_def src_s1_def initial_proxy_def
        ssh_server_def server_of_def server_Start_def fun_eq_iff)
qed

lemma src_step2: "proxy_step (demo_pc ModeSource) (demo_penv ModeSource) src_s1 src_s2"
proof -
  have f: "serverMap src_s1 ''ssh'' = Some ssh_server" "ts_accepting ssh_server" "ts_listening ssh_server"
    by (simp_all add: src_s1_def initial_proxy_def ssh_server_def server_of_def server_Start_def)
  have "src_s2 = src_s1\<lparr>lp_cons := lp_cons src_s1 @ [\<lparr>con_open = True, con_written = []\<rparr>],
         serverMap := (serverMap src_s1)(''ssh'' \<mapsto> ssh_server\<lparr>acceptWG := Suc (acceptWG ssh_server)\<rparr>),
         lp_handlers := lp_handlers src_s1 @
           [\<lparr>ac_serviceID = ts_name ssh_server, ac_con = length (lp_cons src_s1), ac_streamID = None\<rparr>]\<rparr>"
    by (simp add: src_s2_def src_s1_def initial_proxy_def ssh_server_def server_of_def server_Start_def)
  then show ?thesis using proxy_step.local_accept [OF f] by simp
qed

lemma src_step3: "proxy_step (demo_pc ModeSource) (demo_penv ModeSource) src_s2 src_s3"
proof -
  let ?h = "\<lparr>ac_serviceID = ''ssh'', ac_con = 0, ac_streamID = None\<rparr>"
  let ?s = "src_s3\<lparr>lp_handlers := [?h]\<rparr>"
  have g: "generate newStreamIDGen (0, 0, 0) = (1000000, \<lparr>counter = 1\<rparr>)"
    by (simp add: generate_def newStreamIDGen_def maxCounter_def)
  have b: "handler_begin (demo_pc ModeSource) (0, 0, 0) ?h src_s2 =
      Return (Some (?h\<lparr>ac_streamID := Some 1000000\<rparr>), ?s)"
    by (simp add: handler_begin_def g SendStreamStart_def mng_start_Return sendMessage_def demo_src
        demo_io_def demo_marshal_def message_type_defs SerializeMessage_def add_size_def put_be_uint16_def src_s3_def src_s2_def src_s1_def
        initial_proxy_def new_manager_def demo_worker_def zero_message_def Let_def)
  have "proxy_step (demo_pc ModeSource) (demo_penv ModeSource) src_s2
      (?s\<lparr>lp_handlers := [] @ (?h\<lparr>ac_streamID := Some 1000000\<rparr>) # []\<rparr>)"
    using proxy_step.local_begin [OF _ _ b, of "[]" "[]"] by (simp add: src_s2_def)
  then show ?thesis by (simp add: src_s3_def)
qed

lemma src_reaches:
  "proxy_reaches (demo_pc ModeSource) (demo_penv ModeSource) (demo_s0 ModeSource) src_s3"
proof -
  have "proxy_reaches (demo_pc ModeSource) (demo_penv ModeSource) (demo_s0 ModeSource) src_s1"
    by (rule reachable_step1, rule refl, rule src_step1)
  then have "proxy_reaches (demo_pc ModeSource) (demo_penv ModeSource) (demo_s0 ModeSource) src_s2"
    using src_step2 by (rule reachable.step)
  then show ?thesis using src_step3 by (rule reachable.step)
qed

theorem early_data_resets_stream_witness:
  "\<exists>s3 :: localProxy. cl_sent s3 =
     [zero_message\<lparr>Type := Message_STREAM_START, StreamId := 1000000, ServiceId := ''ssh''\<rparr>,
      zero_message\<lparr>Type := Message_STREAM_RESET, StreamId := 1000000, ServiceId := ''ssh''\<rparr>] \<and>
     lp_handlers s3 \<noteq> []"
proof -
  let ?m = "zero_message\<lparr>Type := Message_DATA, StreamId := 1000000, ServiceId := ''ssh'', Payload := [1]\<rparr>"
  have id: "StreamId ?m = 1000000" "ServiceId ?m = ''ssh''" "Type ?m = Message_DATA" "\<not> Ignorable ?m"
    by (simp_all add: zero_message_def)
  have f: "lp_handlers src_s3 = [\<lparr>ac_serviceID = ''ssh'', ac_con = 0, ac_streamID = Some 1000000\<rparr>]"
    "socketMap src_s3 (StreamId ?m) = None" "workerMap (workerMng src_s3) (StreamId ?m) = Some 0"
    "mg_workers (workerMng src_s3) ! 0 = demo_worker"
    "cl_sent src_s3 = [zero_message\<lparr>Type := Message_STREAM_START, StreamId := 1000000, ServiceId := ''ssh''\<rparr>]"
    by (simp_all add: src_s3_def src_s2_def src_s1_def initial_proxy_def id)
  have w: "w_phase (mg_workers (workerMng src_s3) ! 0) = Working"
    "busy (mg_workers (workerMng src_s3) ! 0) = None" "chExec (mg_workers (workerMng src_s3) ! 0) = []"
    by (simp_all add: f demo_worker_def NewWorker_def)
  have h: "\<lparr>ac_serviceID = ''ssh'', ac_con = 0, ac_streamID = Some 1000000\<rparr> \<in> set (lp_handlers src_s3)"
    "ac_streamID \<lparr>ac_serviceID = ''ssh'', ac_con = 0, ac_streamID = Some 1000000\<rparr> = Some (StreamId ?m)"
    by (simp_all add: f id)
  have io: "env_write demo_io (length (cl_tried src_s3)) = None"
    "env_marshal demo_io (zero_message\<lparr>Type := Message_STREAM_RESET, StreamId := StreamId ?m,
       ServiceId := ServiceId ?m\<rparr>) = Inr [3, 1]"
    by (simp_all add: demo_io_def demo_marshal_def message_type_defs zero_message_def)
  obtain s3 :: localProxy where "cl_sent s3 = cl_sent src_s3 @ [zero_message\<lparr>Type := Message_STREAM_RESET,
        StreamId := StreamId ?m, ServiceId := ServiceId ?m\<rparr>]"
    "\<lparr>ac_serviceID = ''ssh'', ac_con = 0, ac_streamID = Some 1000000\<rparr> \<in> set (lp_handlers s3)"
    using early_data_resets_stream [OF demo_new [OF valid_mode_simps(1)] src_reaches h f(2,3) w id(3,4) io]
    by blast
  then have "cl_sent s3 =
     [zero_message\<lparr>Type := Message_STREAM_START, StreamId := 1000000, ServiceId := ''ssh''\<rparr>,
      zero_message\<lparr>Type := Message_STREAM_RESET, StreamId := 1000000, ServiceId := ''ssh''\<rparr>]"
    "lp_handlers s3 \<noteq> []"
    unfolding f(5) id(1,2) by auto
  then show ?thesis by blast
qed

end
