(* ===== verification/Client_History.thy ===== *)
theory Client_History
  imports Client_Machine "HOL-Library.Multiset"
begin

text \<open>
  What the workers of the client have run, and what the listeners did with it.  The contract of
  the client's listeners (\<open>client_listeners\<close>) is extended by a history of the state: a Data
  message that is handed to a listener adds to it, nothing else does.  Then the history is an
  interleaving of what the workers have run, each worker in its order.
\<close>

section \<open>Interleavings\<close>

text \<open>
  \<open>hs\<close> can be dealt out to the lists of \<open>xss\<close>, every entry to one list, each list in order.
\<close>

definition interleaves :: "'h list \<Rightarrow> 'h list list \<Rightarrow> bool" where
  "interleaves hs xss \<longleftrightarrow>
     (\<exists>L. hs = map snd L \<and> (\<forall>x \<in> set L. fst x < length xss) \<and>
        (\<forall>i < length xss. map snd (filter (\<lambda>x. fst x = i) L) = xss ! i))"

lemma interleavesI:
  "hs = map snd L \<Longrightarrow> \<forall>x \<in> set L. fst x < length xss \<Longrightarrow>
     \<forall>i < length xss. map snd (filter (\<lambda>x. fst x = i) L) = xss ! i \<Longrightarrow> interleaves hs xss"
  unfolding interleaves_def by blast

lemma interleaves_empty: "interleaves [] []"
  by (simp add: interleaves_def)

lemma interleaves_new:
  assumes "interleaves hs xss"
  shows "interleaves hs (xss @ [[]])"
proof -
  obtain L where L: "hs = map snd L" "\<forall>x \<in> set L. fst x < length xss"
    "\<forall>i < length xss. map snd (filter (\<lambda>x. fst x = i) L) = xss ! i"
    using assms unfolding interleaves_def by blast
  have "filter (\<lambda>x. fst x = length xss) L = []" using L(2) by (auto simp: filter_empty_conv)
  then show ?thesis
    using L by (intro interleavesI [of _ L]) (auto simp: nth_append less_Suc_eq)
qed

lemma interleaves_run:
  assumes "interleaves hs xss" and "i < length xss"
  shows "interleaves (hs @ ys) (xss[i := xss ! i @ ys])"
proof -
  obtain L where L: "hs = map snd L" "\<forall>x \<in> set L. fst x < length xss"
    "\<forall>i < length xss. map snd (filter (\<lambda>x. fst x = i) L) = xss ! i"
    using assms unfolding interleaves_def by blast
  have "filter (\<lambda>x. fst x = j) (map (Pair i) ys) = (if i = j then map (Pair i) ys else [])" for j
    by (induction ys) auto
  then show ?thesis
    using L assms(2) by (intro interleavesI [of _ "L @ map (Pair i) ys"]) (auto simp: comp_def)
qed

text \<open>Nothing is lost or doubled; what only one list has keeps its order.\<close>

lemma interleaves_mset:
  assumes "interleaves hs xss"
  shows "mset hs = mset (concat xss)"
proof -
  obtain L where L: "hs = map snd L" "\<forall>x \<in> set L. fst x < length xss"
    "\<forall>i < length xss. map snd (filter (\<lambda>x. fst x = i) L) = xss ! i"
    using assms unfolding interleaves_def by blast
  have "mset (filter (\<lambda>x. fst x < n) L) = mset (concat (map (\<lambda>i. filter (\<lambda>x. fst x = i) L) [0 ..< n]))" for n
  proof (induction n)
    case (Suc n)
    have "mset (filter (\<lambda>x. fst x < Suc n) L) =
        mset (filter (\<lambda>x. fst x < n) L) + mset (filter (\<lambda>x. fst x = n) L)"
      by (induction L) (auto simp: less_Suc_eq)
    then show ?case using Suc by simp
  qed simp
  moreover have "filter (\<lambda>x. fst x < length xss) L = L" using L(2) by (simp add: filter_id_conv)
  ultimately have "mset hs = mset (map snd (concat (map (\<lambda>i. filter (\<lambda>x. fst x = i) L) [0 ..< length xss])))"
    by (metis L(1) mset_map)
  moreover have "map (\<lambda>i. map snd (filter (\<lambda>x. fst x = i) L)) [0 ..< length xss] =
      map (\<lambda>i. xss ! i) [0 ..< length xss]"
    by (rule map_cong) (use L(3) in simp_all)
  ultimately show ?thesis by (simp add: map_concat comp_def map_nth)
qed

lemma interleaves_single:
  assumes "interleaves hs xss" and "i < length xss"
    and "\<And>j. j < length xss \<Longrightarrow> j \<noteq> i \<Longrightarrow> filter P (xss ! j) = []"
  shows "filter P hs = filter P (xss ! i)"
proof -
  obtain L where L: "hs = map snd L" "\<forall>x \<in> set L. fst x < length xss"
    "\<forall>i < length xss. map snd (filter (\<lambda>x. fst x = i) L) = xss ! i"
    using assms(1) unfolding interleaves_def by blast
  have "fst x = i" if "x \<in> set L" "P (snd x)" for x
  proof (rule ccontr)
    assume "fst x \<noteq> i"
    moreover have "fst x < length xss" using L(2) that(1) by blast
    ultimately have "filter P (xss ! fst x) = []" using assms(3) by blast
    moreover have "snd x \<in> set (xss ! fst x)"
      using L(3) \<open>fst x < length xss\<close> that(1) by (force simp flip: L(3))
    ultimately show False using that(2) by (auto simp: filter_empty_conv)
  qed
  then have "filter (\<lambda>x. P (snd x)) L = filter (\<lambda>x. P (snd x)) (filter (\<lambda>x. fst x = i) L)"
    by (auto intro!: filter_cong simp: filter_filter)
  then have "filter P (map snd L) = filter P (map snd (filter (\<lambda>x. fst x = i) L))"
    by (simp add: filter_map comp_def)
  then show ?thesis using L(1,3) assms(2) by simp
qed

lemma filter_concat_single:
  assumes "i < length xss" and "\<And>j. j < length xss \<Longrightarrow> j \<noteq> i \<Longrightarrow> filter P (xss ! j) = []"
  shows "filter P (concat xss) = filter P (xss ! i)"
proof -
  have "filter P (concat ys) = []" if "\<And>y. y \<in> set ys \<Longrightarrow> filter P y = []" for ys
    using that by (auto simp: filter_empty_conv)
  moreover have "filter P y = []" if "y \<in> set (take i xss) \<or> y \<in> set (drop (Suc i) xss)" for y
    using that
  proof
    assume "y \<in> set (take i xss)"
    then obtain j where "j < i" "y = xss ! j" using assms(1) by (auto simp: in_set_conv_nth)
    then show ?thesis using assms by simp
  next
    assume "y \<in> set (drop (Suc i) xss)"
    then obtain j where "j < length xss - Suc i" "y = xss ! (Suc i + j)" by (auto simp: in_set_conv_nth)
    then show ?thesis using assms(2) [of "Suc i + j"] by simp
  qed
  moreover have "concat xss = concat (take i xss) @ xss ! i @ concat (drop (Suc i) xss)"
    using concat_list_update [OF assms(1), of "xss ! i"] by simp
  ultimately show ?thesis by simp
qed

section \<open>The closures that have run\<close>

definition ran_tasks :: "'a awsClient_scheme \<Rightarrow> task list list" where
  "ran_tasks s = map executed (mg_workers (workerMng s))"

lemma same_workers_ran: "same_workers s s' \<Longrightarrow> ran_tasks s' = ran_tasks s"
  by (simp add: same_workers_def ran_tasks_def)

lemma ran_tasks_cong: "mg_workers (workerMng s') = mg_workers (workerMng s) \<Longrightarrow> ran_tasks s' = ran_tasks s"
  by (simp add: ran_tasks_def)

text \<open>Workers were added, which have run nothing.\<close>

definition idle_more :: "'h list list \<Rightarrow> 'h list list \<Rightarrow> bool" where
  "idle_more xss yss \<longleftrightarrow> (\<exists>n. yss = xss @ replicate n [])"

lemma idle_more_refl [simp]: "idle_more xss xss"
  by (auto simp: idle_more_def intro: exI [of _ 0])

lemma idle_more_trans: "idle_more xss yss \<Longrightarrow> idle_more yss zss \<Longrightarrow> idle_more xss zss"
  unfolding idle_more_def by (metis append.assoc replicate_add)

lemma interleaves_idle:
  assumes "interleaves hs xss" and "idle_more xss yss"
  shows "interleaves hs yss"
proof -
  have "interleaves hs (xss @ replicate n [])" for n
    by (induction n) (use assms(1) in \<open>auto simp: replicate_append_same [symmetric] simp flip: append_assoc
        intro: interleaves_new\<close>)
  then show ?thesis using assms(2) by (auto simp: idle_more_def)
qed

lemma mng_start_ran:
  assumes "mng_start sid (workerMng s) = Return m"
  shows "idle_more (ran_tasks s) (ran_tasks (s\<lparr>workerMng := m\<rparr>))"
  using assms by (auto simp: mng_start_Return NewWorker_def ran_tasks_def idle_more_def intro: exI [of _ "Suc 0"])

lemma SendStreamReset_ran: "SendStreamReset io sid svc s = Return (e, s') \<Longrightarrow> ran_tasks s' = ran_tasks s"
  by (rule same_workers_ran [OF SendStreamReset_same_workers])

lemma ran_tasks_update:
  "i < length (mg_workers (workerMng s)) \<Longrightarrow> mg_workers (workerMng s') = (mg_workers (workerMng s))[i := w] \<Longrightarrow>
     executed w = executed (mg_workers (workerMng s) ! i) @ ts \<Longrightarrow>
     ran_tasks s' = (ran_tasks s)[i := ran_tasks s ! i @ ts]"
  by (simp add: ran_tasks_def map_update)

lemma exec_task_ran:
  assumes "cl_inv s" and "exec_task t s = Return s'"
  shows "ran_tasks s' = ran_tasks s"
proof -
  obtain b m where e: "mng_exec (stream_of t) t (workerMng s) = Return (b, m)"
    and s': "workerMng s' = m"
    using assms(2) by (auto simp: exec_task_def)
  show ?thesis
  proof (rule mng_exec_cases [OF e])
    fix i
    assume i: "workerMap (workerMng s) (stream_of t) = Some i"
      and m: "m = set_worker i ((mg_workers (workerMng s) ! i)\<lparr>chExec := chExec (mg_workers (workerMng s) ! i) @ [t],
              w_accepted := w_accepted (mg_workers (workerMng s) ! i) @ [t]\<rparr>) (workerMng s)"
    have "i < length (mg_workers (workerMng s))"
      by (rule mng_invD(2) [OF cl_invD(1) [OF assms(1)] i])
    then show ?thesis
      by (simp add: ran_tasks_def s' m set_worker_def map_list_update_same)
  qed (simp add: s' ran_tasks_def)
qed

section \<open>The contract with a history\<close>

locale client_history = client_listeners env Inv
  for env :: "'a awsClient_scheme client_env" and Inv :: "'a awsClient_scheme \<Rightarrow> bool" +
  fixes hist :: "'a awsClient_scheme \<Rightarrow> 'h list"
    and adds :: "task \<Rightarrow> 'h list"
  assumes hist_conns: "hist (s\<lparr>cl_conns := cs\<rparr>) = hist s"
    and hist_handled: "hist (s\<lparr>cl_handled := ms\<rparr>) = hist s"
    and hist_workers: "hist (with_workers m ts s) = hist s"
    and hist_sends: "sendMessage (env_io env) sid svc ty d s = Return (e, s') \<Longrightarrow> hist s' = hist s"
    and hist_start: "L \<in> set (messageListeners env) \<Longrightarrow> Inv s \<Longrightarrow>
      OnStreamStart L msg s = Return (err, s') \<Longrightarrow> hist s' = hist s"
    and hist_reset: "L \<in> set (messageListeners env) \<Longrightarrow> Inv s \<Longrightarrow>
      OnStreamReset L msg s = Return s' \<Longrightarrow> hist s' = hist s"
    and hist_session: "L \<in> set (messageListeners env) \<Longrightarrow> Inv s \<Longrightarrow>
      OnSessionReset L msg s = Return s' \<Longrightarrow> hist s' = hist s"
    and hist_ids: "L \<in> set (messageListeners env) \<Longrightarrow> Inv s \<Longrightarrow>
      OnServiceIDs L msg s = Return (err, s') \<Longrightarrow> hist s' = hist s"
    and hist_data: "l < length (messageListeners env) \<Longrightarrow> Inv s \<Longrightarrow>
      OnData (messageListeners env ! l) msg s = Return (err, s') \<Longrightarrow>
      hist s' = hist s @ adds (DataTask l msg)"
    and adds_reset: "adds (ResetTask l msg) = []"
begin

abbreviation all_adds :: "task list \<Rightarrow> 'h list" where
  "all_adds ts \<equiv> concat (map adds ts)"

definition counted :: "'a awsClient_scheme \<Rightarrow> bool" where
  "counted s \<longleftrightarrow> interleaves (hist s) (map all_adds (ran_tasks s))"

lemma hist_stop: "hist (s\<lparr>workerMng := m\<rparr>) = hist s"
  using hist_workers [of m "cl_taken s" s] by (simp add: with_workers_simps)

lemma SendStreamReset_hist:
  "SendStreamReset (env_io env) sid svc s = Return (e, s') \<Longrightarrow> hist s' = hist s"
  using hist_sends hist_stop by (auto simp: SendStreamReset_def)

lemma counted_same: "counted s \<Longrightarrow> hist s' = hist s \<Longrightarrow> idle_more (ran_tasks s) (ran_tasks s') \<Longrightarrow> counted s'"
  unfolding counted_def by (auto simp: idle_more_def intro: interleaves_idle)

lemma counted_run:
  assumes "counted s" and "hist s' = hist s @ all_adds ts" and "i < length (ran_tasks s)"
    and "ran_tasks s' = (ran_tasks s)[i := ran_tasks s ! i @ ts]"
  shows "counted s'"
  using interleaves_run [of "hist s" "map all_adds (ran_tasks s)" i "all_adds ts"] assms
  by (simp add: counted_def map_update)

text \<open>The closures.\<close>

lemma run_task_hist:
  assumes "Inv s" and "task_listener t < length (messageListeners env)" and "run_task env t s = Return s'"
  shows "hist s' = hist s @ adds t"
proof (cases t)
  case (DataTask l m)
  then obtain e s1 where "OnData (messageListeners env ! l) m s = Return (e, s1)"
    "s' = s1 \<or> (\<exists>e'. SendStreamReset (env_io env) (StreamId m) (ServiceId m) s1 = Return (e', s'))"
    using assms(3) by (auto split: if_splits)
  then show ?thesis
    using hist_data [of l s m e s1] assms(1,2) DataTask SendStreamReset_hist by auto
next
  case (ResetTask l m)
  then obtain s1 where "OnStreamReset (messageListeners env ! l) m s = Return s1"
    "s' = s1\<lparr>workerMng := mng_stop (StreamId m) (workerMng s1)\<rparr>"
    using assms(3) by auto
  then show ?thesis
    using hist_reset [of "messageListeners env ! l" s m s1] assms(1,2) ResetTask hist_stop adds_reset by simp
qed

lemma run_tasks_hist:
  "Inv s \<Longrightarrow> \<forall>t \<in> set ts. task_listener t < length (messageListeners env) \<Longrightarrow>
     run_tasks env ts s = Return s' \<Longrightarrow> hist s' = hist s @ all_adds ts"
proof (induction ts arbitrary: s)
  case (Cons t ts)
  then obtain s1 where s1: "run_task env t s = Return s1" "run_tasks env ts s1 = Return s'" by auto
  have "Inv s1" using handler_okD(2) [OF run_task_ok _ s1(1)] Cons.prems(1,2) by simp
  then show ?case
    using Cons.IH [OF _ _ s1(2)] run_task_hist [OF Cons.prems(1) _ s1(1)] Cons.prems(2) by simp
qed simp

text \<open>The reader: handling a message counts nothing.\<close>

lemma invokeEvent_hist:
  assumes "Inv s" and "l < length (messageListeners env)" and r: "invokeEvent env l message s = Return s'"
  shows "hist s' = hist s \<and> idle_more (ran_tasks s) (ran_tasks s')"
proof -
  let ?L = "messageListeners env ! l"
  have L: "?L \<in> set (messageListeners env)" using assms(2) by simp
  have exec: "hist s1 = hist s \<and> idle_more (ran_tasks s) (ran_tasks s1)" if e: "exec_task t s = Return s1" for t s1
    using exec_task_ran [OF inv_client [OF assms(1)] e] exec_task_with_workers [OF e] hist_workers by auto
  consider (start) "Type message = Message_STREAM_START" | (data) "Type message = Message_DATA"
    | (sreset) "Type message = Message_STREAM_RESET" | (session) "Type message = Message_SESSION_RESET"
    | (ids) "Type message = Message_SERVICE_IDS"
    | (other) "Type message \<notin> {Message_STREAM_START, Message_DATA, Message_STREAM_RESET,
        Message_SESSION_RESET, Message_SERVICE_IDS}"
    by auto
  then show ?thesis
  proof cases
    case start
    obtain m where m: "mng_start (StreamId message) (workerMng s) = Return m"
      by (simp add: mng_start_Return)
    let ?s = "s\<lparr>workerMng := m\<rparr>"
    have inv: "Inv ?s"
      by (rule inv_same_workers [OF assms(1) cl_inv_start [OF inv_client [OF assms(1)] m]])
    obtain e s1 where s1: "OnStreamStart ?L message ?s = Return (e, s1)"
      and s': "s' = s1 \<or> (\<exists>e'. SendStreamReset (env_io env) (StreamId message) (ServiceId message) s1 = Return (e', s'))"
      using r start m by (auto simp: invokeEvent_def Let_def split: if_splits)
    have "effect (OnStreamStart ?L message) ?s = Return s1" using s1 by auto
    from handler_okD(3) [OF stream_start_ok [OF L] inv this] have "ran_tasks s1 = ran_tasks ?s"
      by (rule same_workers_ran)
    then have "idle_more (ran_tasks s) (ran_tasks s')"
      using s' mng_start_ran [OF m] by (elim disjE exE) (simp_all add: SendStreamReset_ran)
    moreover have "hist s' = hist s"
      using hist_start [OF L inv s1] s' SendStreamReset_hist hist_stop by auto
    ultimately show ?thesis by simp
  next
    case data
    then show ?thesis
      using r exec by (simp add: invokeEvent_def Let_def message_type_defs)
  next
    case sreset
    then show ?thesis
      using r exec by (simp add: invokeEvent_def Let_def message_type_defs)
  next
    case session
    then have "OnSessionReset ?L message s = Return s'"
      using r by (simp add: invokeEvent_def Let_def message_type_defs)
    then show ?thesis
      using hist_session [OF L assms(1)] handler_okD(3) [OF session_reset_ok [OF L] assms(1)] same_workers_ran
        idle_more_refl by metis
  next
    case ids
    then have e: "effect (OnServiceIDs ?L message) s = Return s'"
      using r by (simp add: invokeEvent_def Let_def message_type_defs effect_def)
    then show ?thesis
      using hist_ids [OF L assms(1)] same_workers_ran [OF handler_okD(3) [OF service_ids_ok [OF L] assms(1) e]]
      by auto
  next
    case other
    then show ?thesis using r by (simp add: invokeEvent_def Let_def)
  qed
qed

lemma invoke_listeners_hist:
  "Inv s \<Longrightarrow> tasks_ok env s \<Longrightarrow> set ls \<subseteq> {..<length (messageListeners env)} \<Longrightarrow>
     invoke_listeners env ls message s = Return s' \<Longrightarrow> hist s' = hist s \<and> idle_more (ran_tasks s) (ran_tasks s')"
proof (induction ls arbitrary: s)
  case (Cons l ls)
  then obtain s1 where s1: "invokeEvent env l message s = Return s1" "invoke_listeners env ls message s1 = Return s'"
    by auto
  have l: "l < length (messageListeners env)" using Cons.prems(3) by simp
  have "hist s' = hist s1 \<and> idle_more (ran_tasks s1) (ran_tasks s')"
    using invokeEvent_Inv [OF Cons.prems(1,2) l, of message] Cons.IH [OF _ _ _ s1(2)] s1(1) Cons.prems(3)
    by simp
  then show ?case
    using invokeEvent_hist [OF Cons.prems(1) l s1(1)] idle_more_trans by metis
qed simp

lemma handle_message_hist:
  assumes "Inv s" and "tasks_ok env s" and "handle_message env message s = Return s'"
  shows "hist s' = hist s \<and> idle_more (ran_tasks s) (ran_tasks s')"
proof -
  let ?s = "s\<lparr>cl_handled := cl_handled s @ [message]\<rparr>"
  have s: "Inv ?s" "tasks_ok env ?s" using inv_handled [OF assms(1)] assms(2) by (simp_all add: tasks_ok_def)
  have h: "hist ?s = hist s" "ran_tasks ?s = ran_tasks s" by (simp_all add: hist_handled ran_tasks_def)
  have "set [0 ..< length (messageListeners env)] \<subseteq> {..<length (messageListeners env)}" by auto
  from invoke_listeners_hist [OF s this, of message s'] show ?thesis
    using assms(3) h by (auto simp: handle_message_def Let_def split: if_splits)
qed

text \<open>The workers: what is run is counted.\<close>

lemma stop_worker_counted:
  assumes "Inv s" and "tasks_ok env s" and i: "i < length (mg_workers (workerMng s))"
    and c: "counted s" and r: "stop_worker env k i s = Return s'"
  shows "counted s'"
proof -
  let ?w = "mg_workers (workerMng s) ! i"
  let ?ts = "if chCancel ?w then in_hand ?w @ take k (chExec ?w) else []"
  have "set ?ts \<subseteq> set (in_hand ?w @ chExec ?w)" by (auto dest: in_set_takeD)
  then have ts: "\<forall>t \<in> set ?ts. task_listener t < length (messageListeners env)"
    using worker_tasks_taken [OF inv_client [OF assms(1)] i] assms(2) unfolding tasks_ok_def by blast
  obtain s1 w where s1: "run_tasks env ?ts s = Return s1"
    and w: "Worker_Stop k (mg_workers (workerMng s1) ! i) = Return w"
    and s': "s' = s1\<lparr>workerMng := (workerMng s1)\<lparr>mg_workers := (mg_workers (workerMng s1))[i := w]\<rparr>\<rparr>"
    using r by (auto simp: stop_worker_def Let_def)
  have "same_workers s s1" by (rule handler_okD(3) [OF run_tasks_ok [OF ts] assms(1) s1])
  then have m: "mg_workers (workerMng s1) = mg_workers (workerMng s)" by (simp add: same_workers_def)
  have "executed w = executed ?w @ ?ts"
    using w unfolding m by (auto simp: Worker_Stop_def in_hand_def cancel_ctx_def split: if_splits option.splits)
  then have "ran_tasks s' = (ran_tasks s)[i := ran_tasks s ! i @ ?ts]"
    by (intro ran_tasks_update [OF i]) (simp_all add: s' m)
  moreover have "hist s' = hist s @ all_adds ?ts"
    using run_tasks_hist [OF assms(1) ts s1] hist_stop unfolding s' by simp
  moreover have "i < length (ran_tasks s)" using i by (simp add: ran_tasks_def)
  ultimately show ?thesis using counted_run [OF c] by blast
qed

lemma stop_all_workers_counted:
  "Inv s \<Longrightarrow> tasks_ok env s \<Longrightarrow> set is \<subseteq> {..<length (mg_workers (workerMng s))} \<Longrightarrow> counted s \<Longrightarrow>
     stop_all_workers env k is s = Return s' \<Longrightarrow> counted s'"
proof (induction "is" arbitrary: s)
  case (Cons i "is")
  have i: "i < length (mg_workers (workerMng s))" using Cons.prems(3) by simp
  obtain s1 where s1: "stop_worker env (k i) i s = Return s1" "stop_all_workers env k is s1 = Return s'"
    using Cons.prems(5) by auto
  have "Inv s1" "tasks_ok env s1" "set is \<subseteq> {..<length (mg_workers (workerMng s1))}"
    using stop_worker_Inv [OF Cons.prems(1,2) i, of "k i"] s1(1) Cons.prems(3) by simp_all
  then show ?case
    using Cons.IH s1(2) stop_worker_counted [OF Cons.prems(1,2) i Cons.prems(4) s1(1)] by blast
qed simp

lemma client_stop_run_counted:
  assumes "Inv s" and "tasks_ok env s" and "counted s" and "client_stop_run env k sid s = Return s'"
  shows "counted s'"
proof -
  let ?s1 = "s\<lparr>workerMng := (workerMng s)\<lparr>mg_stopping := remove1 sid (mg_stopping (workerMng s))\<rparr>\<rparr>"
  have "same_workers s ?s1" by (simp add: same_workers_def)
  then have s1: "Inv ?s1" "tasks_ok env ?s1"
    using inv_same_workers [OF assms(1)] same_workers_cl_inv inv_client [OF assms(1)] assms(2)
      same_workers_tasks_ok by blast+
  have c1: "counted ?s1" by (rule counted_same [OF assms(3)]) (simp_all add: hist_stop ran_tasks_def)
  show ?thesis
  proof (cases "workerMap (workerMng s) sid")
    case None
    then show ?thesis using assms(4) c1 by (auto simp: client_stop_run_def Let_def)
  next
    case (Some i)
    then have i: "i < length (mg_workers (workerMng ?s1))"
      using mng_invD(2) [OF cl_invD(1) [OF inv_client [OF assms(1)]]] by simp
    obtain s2 where s2: "stop_worker env k i ?s1 = Return s2"
      and s': "s' = s2\<lparr>workerMng := (workerMng s2)\<lparr>workerMap := (workerMap (workerMng s2))(sid := None)\<rparr>\<rparr>"
      using assms(4) Some by (auto simp: client_stop_run_def Let_def)
    show ?thesis
      by (rule counted_same [OF stop_worker_counted [OF s1 i c1 s2]]) (simp_all add: s' hist_stop ran_tasks_def)
  qed
qed

lemma client_step_counted:
  "client_step env s s' \<Longrightarrow> Inv s \<Longrightarrow> tasks_ok env s \<Longrightarrow> counted s \<Longrightarrow> counted s'"
proof (induction rule: client_step.induct)
  case (handles m s s')
  then show ?case using handle_message_hist [of s m s'] counted_same [of s s'] by blast
next
  case (takes_task i s w t ts)
  then show ?case
    by (intro counted_same [OF takes_task(8)])
      (simp_all add: hist_stop set_worker_def ran_tasks_def map_list_update_same)
next
  case (finishes_task i s w t s')
  have "t \<in> set (cl_taken s)"
    using worker_tasks_taken [OF inv_client finishes_task(1)] finishes_task by (auto simp: in_hand_def)
  then have t: "task_listener t < length (messageListeners env)" using finishes_task by (simp add: tasks_ok_def)
  then have "same_workers s s'"
    using handler_okD(3) [OF run_task_ok _ finishes_task(5)] finishes_task by blast
  then have m: "mg_workers (workerMng s') = mg_workers (workerMng s)" by (simp add: same_workers_def)
  have "ran_tasks (worker_done i t s') = (ran_tasks s)[i := ran_tasks s ! i @ [t]]"
    by (rule ran_tasks_update [OF finishes_task(1), where w = "w\<lparr>busy := None, executed := executed w @ [t]\<rparr>"])
      (simp_all add: worker_done_def Let_def set_worker_def m finishes_task(2))
  moreover have "hist (worker_done i t s') = hist s @ all_adds [t]"
    using run_task_hist [OF _ t finishes_task(5)] finishes_task by (simp add: worker_done_def Let_def hist_stop)
  moreover have "i < length (ran_tasks s)" using finishes_task(1) by (simp add: ran_tasks_def)
  ultimately show ?case using counted_run finishes_task by blast
next
  case (stop_goroutine streamID s k s')
  then show ?case using client_stop_run_counted by blast
next
  case (stops_all ks order s s')
  then show ?case
    using stop_all_workers_counted [OF stops_all(2,3) _ stops_all(4)]
      mng_getAll_range [OF cl_invD(1) [OF inv_client [OF stops_all(2)]]]
    unfolding client_stopAll_def by blast
next
  case (connects s)
  show ?case by (rule counted_same [OF connects(3)]) (simp_all add: hist_conns ran_tasks_def)
next
  case (closes s frame_err close_err)
  show ?case
    by (rule counted_same [OF closes(3)])
      (simp_all add: client_close_def hist_conns ran_tasks_def split: option.splits)
qed

end

end
