(* ===== verification/Client_Reading.thy ===== *)
theory Client_Reading
  imports Client_History "HOL-Library.Sublist"
begin

text \<open>
  From the messages that the reader of the client takes up (\<open>cl_handled\<close>) to the closures that the
  workers accept: a worker gets the Data messages of its stream from its start on, without a gap,
  as long as the stream is registered with it.
\<close>

section \<open>Data messages and closures\<close>

definition is_data :: "int32 \<Rightarrow> message \<Rightarrow> bool" where
  "is_data sid m \<longleftrightarrow> Type m = Message_DATA \<and> StreamId m = sid"

text \<open>The Data messages that the client does not ignore.\<close>

definition takes :: "int32 \<Rightarrow> message \<Rightarrow> bool" where
  "takes sid m \<longleftrightarrow> is_data sid m \<and> \<not> Ignorable m"

fun task_data_message :: "task \<Rightarrow> message list" where
  "task_data_message (DataTask l m) = [m]"
| "task_data_message (ResetTask l m) = []"

definition data_messages :: "int32 \<Rightarrow> task list \<Rightarrow> message list" where
  "data_messages sid ts = concat (map task_data_message (filter (\<lambda>t. stream_of t = sid) ts))"

text \<open>The closures of a stream that a list of messages leads to, for one listener.\<close>

definition tasks_of :: "int32 \<Rightarrow> message list \<Rightarrow> task list" where
  "tasks_of sid ms = concat (map (\<lambda>m.
     if Ignorable m \<or> StreamId m \<noteq> sid then []
     else if Type m = Message_DATA then [DataTask 0 m]
     else if Type m = Message_STREAM_RESET then [ResetTask 0 m] else []) ms)"

lemma tasks_of_append [simp]: "tasks_of sid (ms @ ns) = tasks_of sid ms @ tasks_of sid ns"
  by (simp add: tasks_of_def)

lemma tasks_of_stream: "filter (\<lambda>t. stream_of t = sid) (tasks_of sid ms) = tasks_of sid ms"
  by (induction ms) (auto simp: tasks_of_def)

lemma data_of_tasks_of: "data_messages sid (tasks_of sid ms) = filter (takes sid) ms"
  by (induction ms) (auto simp: data_messages_def tasks_of_def takes_def is_data_def)

lemma concat_map_sublist: "sublist xs ys \<Longrightarrow> sublist (concat (map f xs)) (concat (map f ys))"
  unfolding sublist_def by (metis concat_append map_append)

lemma concat_map_suffix: "suffix xs ys \<Longrightarrow> suffix (concat (map f xs)) (concat (map f ys))"
  by (auto simp: suffix_def)

text \<open>
  \<open>acc\<close> lists what each worker accepted, \<open>hs\<close> what the reader took up.
\<close>

definition handled_ok :: "(int32 \<rightharpoonup> nat) \<Rightarrow> task list list \<Rightarrow> message list \<Rightarrow> bool" where
  "handled_ok wm acc hs \<longleftrightarrow>
     (\<forall>i < length acc. \<forall>sid.
        sublist (filter (\<lambda>t. stream_of t = sid) (acc ! i)) (tasks_of sid hs) \<and>
        (wm sid = Some i \<longrightarrow> suffix (filter (\<lambda>t. stream_of t = sid) (acc ! i)) (tasks_of sid hs)))"

lemma handled_okI:
  assumes "\<And>i sid. i < length acc \<Longrightarrow> sublist (filter (\<lambda>t. stream_of t = sid) (acc ! i)) (tasks_of sid hs)"
    and "\<And>i sid. i < length acc \<Longrightarrow> wm sid = Some i \<Longrightarrow>
      suffix (filter (\<lambda>t. stream_of t = sid) (acc ! i)) (tasks_of sid hs)"
  shows "handled_ok wm acc hs"
  using assms unfolding handled_ok_def by blast

lemma handled_okD:
  assumes "handled_ok wm acc hs" and "i < length acc"
  shows "sublist (filter (\<lambda>t. stream_of t = sid) (acc ! i)) (tasks_of sid hs)"
    "wm sid = Some i \<Longrightarrow> suffix (filter (\<lambda>t. stream_of t = sid) (acc ! i)) (tasks_of sid hs)"
  using assms unfolding handled_ok_def by blast+

lemma handled_data:
  assumes "handled_ok wm acc hs" and "i < length acc"
  shows "sublist (data_messages sid (acc ! i)) (filter (takes sid) hs)"
    "wm sid = Some i \<Longrightarrow> suffix (data_messages sid (acc ! i)) (filter (takes sid) hs)"
proof -
  have same: "data_messages sid (tasks_of sid hs) = concat (map task_data_message (tasks_of sid hs))"
    by (simp add: data_messages_def tasks_of_stream)
  show "sublist (data_messages sid (acc ! i)) (filter (takes sid) hs)"
    using concat_map_sublist [OF handled_okD(1) [OF assms]]
    unfolding data_of_tasks_of [symmetric] same by (simp only: data_messages_def)
  show "wm sid = Some i \<Longrightarrow> suffix (data_messages sid (acc ! i)) (filter (takes sid) hs)"
    using concat_map_suffix [OF handled_okD(2) [OF assms]]
    unfolding data_of_tasks_of [symmetric] same by (simp only: data_messages_def)
qed

lemma handled_ok_empty [simp]: "handled_ok wm [] hs"
  by (simp add: handled_ok_def)

lemma handled_ok_le:
  assumes "handled_ok wm acc hs" and "\<And>sid i. wm' sid = Some i \<Longrightarrow> wm sid = Some i"
  shows "handled_ok wm' acc hs"
  using assms unfolding handled_ok_def by blast

lemma handled_ok_start:
  assumes "handled_ok wm acc hs"
  shows "handled_ok (wm(sid \<mapsto> length acc)) (acc @ [[]]) hs"
proof (rule handled_okI)
  fix i j assume i: "i < length (acc @ [[]])"
  show "sublist (filter (\<lambda>t. stream_of t = j) ((acc @ [[]]) ! i)) (tasks_of j hs)"
    using i handled_okD(1) [OF assms] by (cases "i = length acc") (simp_all add: nth_append)
  show "suffix (filter (\<lambda>t. stream_of t = j) ((acc @ [[]]) ! i)) (tasks_of j hs)"
    if "(wm(sid \<mapsto> length acc)) j = Some i"
    using i that handled_okD(2) [OF assms] by (cases "i = length acc") (auto simp: nth_append split: if_splits)
qed

lemma sublist_append_rightI: "sublist xs ys \<Longrightarrow> sublist xs (ys @ zs)"
  by (metis sublist_def append.assoc)

text \<open>A message that no worker is given: it makes no closure, or its stream has no worker.\<close>

lemma tasks_of_other: "sid \<noteq> StreamId m \<Longrightarrow> tasks_of sid [m] = []"
  by (simp add: tasks_of_def)

lemma handled_ok_other:
  assumes "handled_ok wm acc hs" and "tasks_of (StreamId m) [m] \<noteq> [] \<Longrightarrow> wm (StreamId m) = None"
  shows "handled_ok wm acc (hs @ [m])"
proof (rule handled_okI)
  fix i sid assume i: "i < length acc"
  show "sublist (filter (\<lambda>t. stream_of t = sid) (acc ! i)) (tasks_of sid (hs @ [m]))"
    using handled_okD(1) [OF assms(1) i] by (simp add: sublist_append_rightI)
  assume wm: "wm sid = Some i"
  then have "tasks_of sid [m] = []"
    using assms(2) tasks_of_other [of sid m] by (cases "sid = StreamId m") auto
  then show "suffix (filter (\<lambda>t. stream_of t = sid) (acc ! i)) (tasks_of sid (hs @ [m]))"
    using handled_okD(2) [OF assms(1) i wm] by simp
qed

lemma handled_ok_exec:
  assumes "handled_ok wm acc hs" and "wm (StreamId m) = Some i" and t: "tasks_of (StreamId m) [m] = [t]"
  shows "handled_ok wm (acc[i := acc ! i @ [t]]) (hs @ [m])"
proof (rule handled_okI)
  fix j sid assume j: "j < length (acc[i := acc ! i @ [t]])"
  note D = handled_okD [OF assms(1), of j sid] and other = tasks_of_other [of sid m]
  have st: "stream_of t = StreamId m" using t by (auto simp: tasks_of_def split: if_splits)
  show "sublist (filter (\<lambda>t. stream_of t = sid) (acc[i := acc ! i @ [t]] ! j)) (tasks_of sid (hs @ [m]))"
  proof (cases "j = i \<and> sid = StreamId m")
    case True
    then have "suffix (filter (\<lambda>t. stream_of t = sid) (acc ! i)) (tasks_of sid hs)"
      using D(2) assms(2) j by simp
    then show ?thesis using True j t st by (intro suffix_imp_sublist) simp
  next
    case False
    then show ?thesis using D(1) j other st by (cases "j = i") (auto intro: sublist_append_rightI)
  qed
  assume wm: "wm sid = Some j"
  show "suffix (filter (\<lambda>t. stream_of t = sid) (acc[i := acc ! i @ [t]] ! j)) (tasks_of sid (hs @ [m]))"
    using D(2) [OF _ wm] wm j other assms(2) t st
    by (cases "sid = StreamId m"; cases "j = i") auto
qed

lemma map_same_update: "f x = f (xs ! i) \<Longrightarrow> map f (xs[i := x]) = map f xs"
  by (induction xs arbitrary: i) (auto split: nat.splits)

section \<open>The state of the client\<close>

abbreviation accepted :: "'a awsClient_scheme \<Rightarrow> task list list" where
  "accepted s \<equiv> map w_accepted (mg_workers (workerMng s))"

definition reading_ok :: "'a awsClient_scheme \<Rightarrow> bool" where
  "reading_ok s \<longleftrightarrow> handled_ok (workerMap (workerMng s)) (accepted s) (cl_handled s)"

text \<open>A step that leaves the reader and what was accepted alone; streams may lose their worker.\<close>

definition keeps :: "'a awsClient_scheme \<Rightarrow> 'a awsClient_scheme \<Rightarrow> bool" where
  "keeps s s' \<longleftrightarrow> accepted s' = accepted s \<and> cl_handled s' = cl_handled s \<and>
     (\<forall>sid i. workerMap (workerMng s') sid = Some i \<longrightarrow> workerMap (workerMng s) sid = Some i)"

lemma keeps_trans: "keeps s s' \<Longrightarrow> keeps s' s'' \<Longrightarrow> keeps s s''"
  by (simp add: keeps_def)

lemma keeps_same: "same_workers s s' \<Longrightarrow> keeps s s'"
  by (simp add: keeps_def same_workers_def)

lemma reading_ok_keeps: "reading_ok s \<Longrightarrow> keeps s s' \<Longrightarrow> reading_ok s'"
  unfolding reading_ok_def keeps_def using handled_ok_le by metis

lemma reading_ok_start:
  assumes "reading_ok s" and "mng_start sid (workerMng s) = Return m"
  shows "reading_ok (s\<lparr>workerMng := m\<rparr>)"
  using handled_ok_start [OF assms(1) [unfolded reading_ok_def], of sid] assms(2)
  by (auto simp: reading_ok_def mng_start_Return NewWorker_def)

lemma SendStreamStart_reading:
  assumes "SendStreamStart io sid svc s = Return (e, s')" and "reading_ok s"
  shows "reading_ok s'"
proof -
  obtain m err s1 where m: "mng_start sid (workerMng s) = Return m"
    and s1: "sendMessage io sid svc Message_STREAM_START [] (s\<lparr>workerMng := m\<rparr>) = Return (err, s1)"
    and s': "s' = (case err of Some e \<Rightarrow> s1\<lparr>workerMng := mng_stop sid (workerMng s1)\<rparr> | None \<Rightarrow> s1)"
    using assms(1) by (auto simp: SendStreamStart_def split: option.splits)
  have "same_workers (s\<lparr>workerMng := m\<rparr>) s'"
    using sendMessage_same_workers [OF s1] same_workers_trans [OF _ same_workers_stop] s'
    by (auto split: option.splits)
  from reading_ok_keeps [OF reading_ok_start [OF assms(2) m] keeps_same [OF this]] show ?thesis .
qed

text \<open>What \<^verbatim>\<open>exec\<close> does to the list of what was accepted.\<close>

lemma exec_task_accepted:
  assumes "cl_inv s" and "exec_task t s = Return s'"
  shows "workerMap (workerMng s') = workerMap (workerMng s) \<and> cl_handled s' = cl_handled s \<and>
    accepted s' = (case workerMap (workerMng s) (stream_of t) of
       None \<Rightarrow> accepted s | Some i \<Rightarrow> (accepted s)[i := accepted s ! i @ [t]])"
proof -
  obtain b m where e: "mng_exec (stream_of t) t (workerMng s) = Return (b, m)"
    and s': "s' = s\<lparr>workerMng := m, cl_taken := (if b then cl_taken s @ [t] else cl_taken s)\<rparr>"
    using assms(2) by (auto simp: exec_task_def)
  show ?thesis
  proof (rule mng_exec_cases [OF e])
    fix i
    assume i: "workerMap (workerMng s) (stream_of t) = Some i"
      and m: "m = set_worker i ((mg_workers (workerMng s) ! i)\<lparr>chExec := chExec (mg_workers (workerMng s) ! i) @ [t],
              w_accepted := w_accepted (mg_workers (workerMng s) ! i) @ [t]\<rparr>) (workerMng s)"
    have "i < length (mg_workers (workerMng s))"
      by (rule mng_invD(2) [OF cl_invD(1) [OF assms(1)] i])
    then show ?thesis using i by (simp add: s' m set_worker_def map_update)
  qed (simp add: s')
qed

section \<open>Every step of a client with one listener\<close>

context client_listeners
begin

lemma invokeEvent_reading:
  assumes inv: "Inv s" and l: "0 < length (messageListeners env)" and ign: "\<not> Ignorable m"
    and ok: "handled_ok (workerMap (workerMng s)) (accepted s) hs" and h: "cl_handled s = hs @ [m]"
    and r: "invokeEvent env 0 m s = Return s'"
  shows "reading_ok s'"
proof -
  let ?L = "messageListeners env ! 0" and ?wm = "workerMap (workerMng s)"
  have L: "?L \<in> set (messageListeners env)" using l by simp
  have other: "reading_ok s" if "tasks_of (StreamId m) [m] = []"
    unfolding reading_ok_def h by (rule handled_ok_other [OF ok]) (use that in blast)
  have handler: "reading_ok s'" if "tasks_of (StreamId m) [m] = []" "handler_ok Inv h" "h s = Return s'" for h
    by (rule reading_ok_keeps [OF other [OF that(1)] keeps_same [OF handler_okD(3) [OF that(2) inv that(3)]]])
  have exec: "reading_ok s'" if e: "exec_task t s = Return s'" and t: "tasks_of (StreamId m) [m] = [t]" for t
  proof -
    have st: "stream_of t = StreamId m" using t by (auto simp: tasks_of_def split: if_splits)
    show ?thesis
    proof (cases "?wm (StreamId m)")
      case None
      then show ?thesis
        using exec_task_accepted [OF inv_client [OF inv] e] handled_ok_other [OF ok, of m] st h
        by (simp add: reading_ok_def)
    next
      case (Some i)
      then show ?thesis
        using exec_task_accepted [OF inv_client [OF inv] e] handled_ok_exec [OF ok Some t] st h
        by (simp add: reading_ok_def)
    qed
  qed
  consider (start) "Type m = Message_STREAM_START" | (data) "Type m = Message_DATA"
    | (sreset) "Type m = Message_STREAM_RESET" | (session) "Type m = Message_SESSION_RESET"
    | (ids) "Type m = Message_SERVICE_IDS"
    | (none) "Type m \<notin> {Message_STREAM_START, Message_DATA, Message_STREAM_RESET,
        Message_SESSION_RESET, Message_SERVICE_IDS}"
    by auto
  then show ?thesis
  proof cases
    case start
    let ?h = "\<lambda>s. bind_outcome (OnStreamStart ?L m s) (\<lambda>(err, s).
      if err = None then Return s
      else bind_outcome (SendStreamReset (env_io env) (StreamId m) (ServiceId m) s)
             (\<lambda>(_, s). Return s))"
    have hok: "handler_ok Inv ?h" by (rule reset_on_error_ok [OF stream_start_ok [OF L]])
    obtain mng where mng: "mng_start (StreamId m) (workerMng s) = Return mng"
      by (simp add: mng_start_Return)
    have eq: "?h (s\<lparr>workerMng := mng\<rparr>) = Return s'"
      using r start mng by (simp add: invokeEvent_def Let_def)
    have "Inv (s\<lparr>workerMng := mng\<rparr>)"
      by (rule inv_same_workers [OF inv cl_inv_start [OF inv_client [OF inv] mng]])
    from keeps_same [OF handler_okD(3) [OF hok this eq]] show ?thesis
      using reading_ok_keeps reading_ok_start [OF other mng] start
      by (simp add: tasks_of_def message_type_defs)
  next
    case data
    then show ?thesis
      using exec [of "DataTask 0 m"] r ign by (simp add: invokeEvent_def Let_def message_type_defs tasks_of_def)
  next
    case sreset
    then show ?thesis
      using exec [of "ResetTask 0 m"] r ign by (simp add: invokeEvent_def Let_def message_type_defs tasks_of_def)
  next
    case session
    then have "OnSessionReset ?L m s = Return s'"
      using r by (simp add: invokeEvent_def Let_def message_type_defs)
    from handler [OF _ session_reset_ok [OF L] this] show ?thesis
      using session by (simp add: tasks_of_def message_type_defs)
  next
    case ids
    then have "effect (OnServiceIDs ?L m) s = Return s'"
      using r by (simp add: invokeEvent_def Let_def message_type_defs effect_def)
    from handler [OF _ service_ids_ok [OF L] this] show ?thesis
      using ids by (simp add: tasks_of_def message_type_defs)
  next
    case none
    then show ?thesis using r other by (simp add: invokeEvent_def Let_def tasks_of_def)
  qed
qed

lemma handle_message_reading:
  assumes "Inv s" and "length (messageListeners env) = 1" and "reading_ok s"
    and "handle_message env m s = Return s'"
  shows "reading_ok s'"
proof -
  let ?s = "s\<lparr>cl_handled := cl_handled s @ [m]\<rparr>"
  show ?thesis
  proof (cases "Ignorable m")
    case True
    then have "tasks_of (StreamId m) [m] = []" by (simp add: tasks_of_def)
    then have "handled_ok (workerMap (workerMng s)) (accepted s) (cl_handled s @ [m])"
      using handled_ok_other [OF assms(3) [unfolded reading_ok_def]] by blast
    then show ?thesis
      using assms(4) True by (auto simp: handle_message_def reading_ok_def)
  next
    case False
    have "Return s' = bind_outcome (invokeEvent env 0 m ?s) Return"
      using assms(2,4) False by (simp add: handle_message_def Let_def)
    then have "invokeEvent env 0 m ?s = Return s'" by (cases "invokeEvent env 0 m ?s") simp_all
    then show ?thesis
      using invokeEvent_reading [OF inv_handled [OF assms(1)], of m "cl_handled s @ [m]" "cl_handled s" s']
        assms(2,3) False by (simp add: reading_ok_def)
  qed
qed

text \<open>The workers.\<close>

lemma stop_worker_keeps:
  assumes "Inv s" and "tasks_ok env s" and i: "i < length (mg_workers (workerMng s))"
    and r: "stop_worker env k i s = Return s'"
  shows "keeps s s'"
proof -
  let ?w = "mg_workers (workerMng s) ! i"
  let ?ts = "if chCancel ?w then in_hand ?w @ take k (chExec ?w) else []"
  have "set ?ts \<subseteq> set (in_hand ?w @ chExec ?w)" by (auto dest: in_set_takeD)
  then have ts: "\<forall>t \<in> set ?ts. task_listener t < length (messageListeners env)"
    using worker_tasks_taken [OF inv_client [OF assms(1)] i] assms(2) unfolding tasks_ok_def by blast
  obtain s1 w where s1: "run_tasks env ?ts s = Return s1"
    and w: "Worker_Stop k (mg_workers (workerMng s1) ! i) = Return w"
    and s': "s' = s1\<lparr>workerMng := (workerMng s1)\<lparr>mg_workers := (mg_workers (workerMng s1))[i := w]\<rparr>\<rparr>"
    using r by (auto simp: stop_worker_def Let_def)
  have "keeps s s1" by (rule keeps_same [OF handler_okD(3) [OF run_tasks_ok [OF ts] assms(1) s1]])
  moreover have "w_accepted w = w_accepted (mg_workers (workerMng s1) ! i)"
    using w by (auto simp: Worker_Stop_def cancel_ctx_def split: if_splits)
  then have "keeps s1 s'" by (simp add: keeps_def s' map_same_update)
  ultimately show ?thesis by (rule keeps_trans)
qed

lemma stop_all_workers_keeps:
  "Inv s \<Longrightarrow> tasks_ok env s \<Longrightarrow> set is \<subseteq> {..<length (mg_workers (workerMng s))} \<Longrightarrow>
     stop_all_workers env k is s = Return s' \<Longrightarrow> keeps s s'"
proof (induction "is" arbitrary: s)
  case Nil
  then show ?case by (simp add: keeps_def)
next
  case (Cons i "is")
  have i: "i < length (mg_workers (workerMng s))" using Cons.prems(3) by simp
  obtain s1 where s1: "stop_worker env (k i) i s = Return s1" "stop_all_workers env k is s1 = Return s'"
    using Cons.prems(4) by auto
  have "Inv s1" "tasks_ok env s1" "set is \<subseteq> {..<length (mg_workers (workerMng s1))}"
    using stop_worker_Inv [OF Cons.prems(1,2) i, of "k i"] s1(1) Cons.prems(3) by simp_all
  from Cons.IH [OF this s1(2)] show ?case
    using stop_worker_keeps [OF Cons.prems(1,2) i s1(1)] keeps_trans by blast
qed

lemma client_stop_run_keeps:
  assumes "Inv s" and "tasks_ok env s" and "client_stop_run env k sid s = Return s'"
  shows "keeps s s'"
proof -
  let ?s1 = "s\<lparr>workerMng := (workerMng s)\<lparr>mg_stopping := remove1 sid (mg_stopping (workerMng s))\<rparr>\<rparr>"
  have same: "same_workers s ?s1" by (simp add: same_workers_def)
  then have s1: "Inv ?s1" "tasks_ok env ?s1"
    using inv_same_workers [OF assms(1)] same_workers_cl_inv inv_client [OF assms(1)] assms(2)
      same_workers_tasks_ok by blast+
  show ?thesis
  proof (cases "workerMap (workerMng s) sid")
    case None
    then show ?thesis using assms(3) keeps_same [OF same] by (auto simp: client_stop_run_def Let_def)
  next
    case (Some i)
    then have i: "i < length (mg_workers (workerMng ?s1))"
      using mng_invD(2) [OF cl_invD(1) [OF inv_client [OF assms(1)]]] by simp
    obtain s2 where s2: "stop_worker env k i ?s1 = Return s2"
      and s': "s' = s2\<lparr>workerMng := (workerMng s2)\<lparr>workerMap := (workerMap (workerMng s2))(sid := None)\<rparr>\<rparr>"
      using assms(3) Some by (auto simp: client_stop_run_def Let_def)
    have "keeps s2 s'" by (auto simp: keeps_def s' split: if_splits)
    then show ?thesis
      using keeps_trans [OF keeps_trans [OF keeps_same [OF same] stop_worker_keeps [OF s1 i s2]]] by blast
  qed
qed

lemma client_step_reading:
  "client_step env s s' \<Longrightarrow> Inv s \<Longrightarrow> tasks_ok env s \<Longrightarrow> length (messageListeners env) = 1 \<Longrightarrow>
     reading_ok s \<Longrightarrow> reading_ok s'"
proof (induction rule: client_step.induct)
  case (handles m s s')
  then show ?case using handle_message_reading by blast
next
  case (takes_task i s w t ts)
  show ?case
    by (rule reading_ok_keeps [OF takes_task(9)])
      (use takes_task(1,2) in \<open>simp add: keeps_def set_worker_def map_same_update\<close>)
next
  case (finishes_task i s w t s')
  have "t \<in> set (cl_taken s)"
    using worker_tasks_taken [OF inv_client finishes_task(1)] finishes_task by (auto simp: in_hand_def)
  then have t: "task_listener t < length (messageListeners env)" using finishes_task by (simp add: tasks_ok_def)
  then have "keeps s s'"
    using keeps_same handler_okD(3) [OF run_task_ok _ finishes_task(5)] finishes_task by blast
  moreover have "keeps s' (worker_done i t s')"
    by (simp add: keeps_def worker_done_def Let_def set_worker_def map_same_update)
  ultimately show ?case using reading_ok_keeps keeps_trans finishes_task by blast
next
  case (stop_goroutine streamID s k s')
  then show ?case using client_stop_run_keeps reading_ok_keeps by blast
next
  case (stops_all ks order s s')
  then show ?case
    using stop_all_workers_keeps [OF stops_all(2,3)] reading_ok_keeps
      mng_getAll_range [OF cl_invD(1) [OF inv_client [OF stops_all(2)]]]
    unfolding client_stopAll_def by blast
next
  case (connects s)
  show ?case by (rule reading_ok_keeps [OF connects(4)]) (simp add: keeps_def)
next
  case (closes s frame_err close_err)
  show ?case
    by (rule reading_ok_keeps [OF closes(4)])
      (simp add: keeps_def client_close_def split: option.splits)
qed

end

end
