(* ===== verification/Proxy_Delivery.thy ===== *)
theory Proxy_Delivery
  imports Proxy_Properties Client_Reading
begin

text \<open>
  The way from the tunnel to the local programs: what a local connection is sent is the data of
  consecutive Data messages of its stream.  The invariant of the goroutines is extended by who
  owns each connection, and the contract of the client is met once more, with the extended
  invariant.
\<close>

section \<open>What arrived, and who owns a connection\<close>

definition arrived :: "'a localSockets_scheme \<Rightarrow> int32 \<Rightarrow> bytes list" where
  "arrived s sid = map snd (filter (\<lambda>x. fst x = sid) (lp_received s))"

text \<open>A connection belongs to a socket, to the handler that accepted it, or to nobody.\<close>

definition owners :: "'a localProxy_scheme \<Rightarrow> nat list" where
  "owners s = map ls_con (lp_sockets s) @ map ac_con (lp_handlers s)"

text \<open>
  Socket \<open>i\<close> was sent what came for its stream in one stretch, which still grows as long as the
  connection is open and the manager knows the socket.
\<close>

definition delivered :: "'a localSockets_scheme \<Rightarrow> nat \<Rightarrow> bool" where
  "delivered s i \<longleftrightarrow>
     (let k = lp_sockets s ! i; con = lp_cons s ! ls_con k
      in \<exists>ts. con_written con = concat ts \<and> sublist ts (arrived s (ls_streamID k)) \<and>
           (socketMap s (ls_streamID k) = Some i \<and> con_open con \<longrightarrow>
              suffix ts (arrived s (ls_streamID k))))"

definition received_ok :: "'a localProxy_scheme \<Rightarrow> bool" where
  "received_ok s \<longleftrightarrow>
     distinct (owners s) \<and> (\<forall>c \<in> set (owners s). c < length (lp_cons s)) \<and>
     (\<forall>c < length (lp_cons s). c \<notin> set (map ls_con (lp_sockets s)) \<longrightarrow> con_written (lp_cons s ! c) = []) \<and>
     (\<forall>i < length (lp_sockets s). delivered s i)"

lemma received_okD:
  assumes "received_ok s"
  shows "distinct (owners s)" "c \<in> set (owners s) \<Longrightarrow> c < length (lp_cons s)"
    "c < length (lp_cons s) \<Longrightarrow> c \<notin> set (map ls_con (lp_sockets s)) \<Longrightarrow> con_written (lp_cons s ! c) = []"
    "i < length (lp_sockets s) \<Longrightarrow> delivered s i"
  using assms unfolding received_ok_def by blast+

lemma socket_con_bound:
  "received_ok s \<Longrightarrow> i < length (lp_sockets s) \<Longrightarrow> ls_con (lp_sockets s ! i) < length (lp_cons s)"
  by (rule received_okD(2)) (simp_all add: owners_def)

text \<open>A socket goes on being delivered to while nothing is written and nothing arrives.\<close>

lemma delivered_quiet:
  assumes "delivered s i"
    and "ls_streamID (lp_sockets s' ! i) = ls_streamID (lp_sockets s ! i)"
    and "con_written (lp_cons s' ! ls_con (lp_sockets s' ! i)) = con_written (lp_cons s ! ls_con (lp_sockets s ! i))"
    and "arrived s' (ls_streamID (lp_sockets s ! i)) = arrived s (ls_streamID (lp_sockets s ! i))"
    and "socketMap s' (ls_streamID (lp_sockets s ! i)) = Some i \<Longrightarrow>
       con_open (lp_cons s' ! ls_con (lp_sockets s' ! i)) \<Longrightarrow>
       socketMap s (ls_streamID (lp_sockets s ! i)) = Some i \<and> con_open (lp_cons s ! ls_con (lp_sockets s ! i))"
  shows "delivered s' i"
  using assms unfolding delivered_def Let_def by metis

text \<open>Data arrives that is not written to the connection: the socket is closed or forgotten.\<close>

lemma delivered_missed:
  assumes "delivered s i" and "lp_sockets s' ! i = lp_sockets s ! i"
    and "con_written (lp_cons s' ! ls_con (lp_sockets s ! i)) = con_written (lp_cons s ! ls_con (lp_sockets s ! i))"
    and "arrived s' (ls_streamID (lp_sockets s ! i)) = arrived s (ls_streamID (lp_sockets s ! i)) @ ps"
    and "\<not> (socketMap s' (ls_streamID (lp_sockets s ! i)) = Some i \<and>
       con_open (lp_cons s' ! ls_con (lp_sockets s ! i)))"
  shows "delivered s' i"
proof -
  obtain ts where "con_written (lp_cons s ! ls_con (lp_sockets s ! i)) = concat ts"
    "sublist ts (arrived s (ls_streamID (lp_sockets s ! i)))"
    using assms(1) by (auto simp: delivered_def Let_def)
  then show ?thesis
    using assms(2-5) by (auto simp: delivered_def Let_def intro: sublist_append_rightI)
qed

section \<open>Steps that only close\<close>

lemma only_closesD:
  assumes "only_closes s s'"
  shows "map ls_con (lp_sockets s') = map ls_con (lp_sockets s)"
    "length (lp_sockets s') = length (lp_sockets s)" "length (lp_cons s') = length (lp_cons s)"
    "i < length (lp_sockets s) \<Longrightarrow> ls_con (lp_sockets s' ! i) = ls_con (lp_sockets s ! i)"
    "i < length (lp_sockets s) \<Longrightarrow> ls_streamID (lp_sockets s' ! i) = ls_streamID (lp_sockets s ! i)"
    "c < length (lp_cons s) \<Longrightarrow> con_written (lp_cons s' ! c) = con_written (lp_cons s ! c)"
    "c < length (lp_cons s) \<Longrightarrow> con_open (lp_cons s' ! c) \<Longrightarrow> con_open (lp_cons s ! c)"
    "socketMap s' sid = Some i \<Longrightarrow> socketMap s sid = Some i"
    "arrived s' sid' = arrived s sid'"
proof -
  show "map ls_con (lp_sockets s') = map ls_con (lp_sockets s)"
    "c < length (lp_cons s) \<Longrightarrow> con_open (lp_cons s' ! c) \<Longrightarrow> con_open (lp_cons s ! c)"
    "socketMap s' sid = Some i \<Longrightarrow> socketMap s sid = Some i" "arrived s' sid' = arrived s sid'"
    using assms unfolding only_closes_def arrived_def by auto
  have m: "map ls_con (lp_sockets s') = map ls_con (lp_sockets s)"
    "map ls_streamID (lp_sockets s') = map ls_streamID (lp_sockets s)"
    "map con_written (lp_cons s') = map con_written (lp_cons s)"
    using assms by (simp_all add: only_closes_def)
  show l: "length (lp_sockets s') = length (lp_sockets s)" "length (lp_cons s') = length (lp_cons s)"
    using m(1,3) by (auto dest: map_eq_imp_length_eq)
  show "i < length (lp_sockets s) \<Longrightarrow> ls_con (lp_sockets s' ! i) = ls_con (lp_sockets s ! i)"
    "i < length (lp_sockets s) \<Longrightarrow> ls_streamID (lp_sockets s' ! i) = ls_streamID (lp_sockets s ! i)"
    "c < length (lp_cons s) \<Longrightarrow> con_written (lp_cons s' ! c) = con_written (lp_cons s ! c)"
    using m l by (metis nth_map)+
qed

lemma received_ok_closes:
  assumes ok: "received_ok s" and closes: "only_closes s s'"
    and handlers: "distinct (map ac_con (lp_handlers s'))"
      "set (map ac_con (lp_handlers s')) \<subseteq> set (map ac_con (lp_handlers s))"
  shows "received_ok s'"
proof -
  note D = received_okD [OF ok] and C = only_closesD [OF closes]
  have "distinct (owners s')" using D(1) handlers by (auto simp: owners_def C(1))
  moreover have "c < length (lp_cons s')" if "c \<in> set (owners s')" for c
    using that handlers(2) D(2) [of c] by (auto simp: owners_def C(1,3) simp del: set_map)
  moreover have "con_written (lp_cons s' ! c) = []"
    if "c < length (lp_cons s')" "c \<notin> set (map ls_con (lp_sockets s'))" for c
    using that D(3) [of c] C(3,6) unfolding C(1) by simp
  moreover have "delivered s' i" if "i < length (lp_sockets s')" for i
  proof -
    have i: "i < length (lp_sockets s)" using that C(2) by simp
    have c: "ls_con (lp_sockets s ! i) < length (lp_cons s)" by (rule socket_con_bound [OF ok i])
    show ?thesis
      by (rule delivered_quiet [OF D(4) [OF i]])
        (use C(4) [OF i] C(5) [OF i] C(6) [OF c] C(7) [OF c] C(8,9) in simp_all)
  qed
  ultimately show ?thesis unfolding received_ok_def by blast
qed

lemma received_ok_handlers:
  "received_ok s \<Longrightarrow> only_closes s s' \<Longrightarrow> lp_handlers s' = lp_handlers s \<Longrightarrow> received_ok s'"
  by (rule received_ok_closes) (auto simp: received_ok_def owners_def)

lemma received_ok_same:
  "received_ok s \<Longrightarrow> same_sockets s s' \<Longrightarrow> lp_handlers s' = lp_handlers s \<Longrightarrow> received_ok s'"
  using received_ok_handlers only_closes_same by blast

section \<open>The other steps\<close>

text \<open>Fields that do not matter.\<close>

lemma received_ok_frame:
  fixes s s' :: "'a localProxy_scheme"
  assumes "received_ok s" and "lp_cons s' = lp_cons s" and "lp_sockets s' = lp_sockets s"
    and "socketMap s' = socketMap s" and "lp_received s' = lp_received s"
    and "lp_handlers s' = lp_handlers s"
  shows "received_ok s'"
  by (rule received_ok_same [OF assms(1)]) (simp_all add: same_sockets_def assms(2-6))

text \<open>A new connection, of a handler or of nobody yet.\<close>

lemma arrived_simps [simp]:
  "arrived (s\<lparr>lp_cons := cs\<rparr>) = arrived s" "arrived (s\<lparr>lp_sockets := ks\<rparr>) = arrived s"
  "arrived (s\<lparr>socketMap := sm\<rparr>) = arrived s"
  by (simp_all add: arrived_def fun_eq_iff)

lemma arrived_handlers [simp]: "arrived (s\<lparr>lp_handlers := hs\<rparr>) = arrived s"
  by (simp add: arrived_def fun_eq_iff)

lemma received_ok_new_con:
  assumes ok: "received_ok s"
    and c: "con_written c = []"
    and hs: "map ac_con hs = map ac_con (lp_handlers s) \<or>
      map ac_con hs = map ac_con (lp_handlers s) @ [length (lp_cons s)]"
  shows "received_ok (s\<lparr>lp_cons := lp_cons s @ [c], lp_handlers := hs\<rparr>)" (is "received_ok ?s")
proof -
  note D = received_okD [OF ok]
  have fresh: "length (lp_cons s) \<notin> set (owners s)" using D(2) by fastforce
  have "distinct (owners ?s)" using D(1) fresh hs by (auto simp: owners_def simp del: set_map)
  moreover have "d < length (lp_cons ?s)" if "d \<in> set (owners ?s)" for d
    using that hs D(2) [of d] by (auto simp: owners_def simp del: set_map)
  moreover have "con_written (lp_cons ?s ! d) = []"
    if "d < length (lp_cons ?s)" "d \<notin> set (map ls_con (lp_sockets ?s))" for d
    using that D(3) [of d] c by (cases "d = length (lp_cons s)") (simp_all add: nth_append)
  moreover have "delivered ?s i" if "i < length (lp_sockets ?s)" for i
  proof -
    have i: "i < length (lp_sockets s)" using that by simp
    show ?thesis
      by (rule delivered_quiet [OF D(4) [OF i]])
        (use socket_con_bound [OF ok i] in \<open>simp_all add: nth_append\<close>)
  qed
  ultimately show ?thesis unfolding received_ok_def by blast
qed

text \<open>A socket starts on a connection that has no socket yet.\<close>

lemma received_ok_StartSocket:
  assumes ok: "received_ok s" and st: "StartSocket sid svc con s = (None, s')"
    and con: "con < length (lp_cons s)" "con \<notin> set (map ls_con (lp_sockets s))"
    and hs: "distinct (map ac_con hs)" "set (map ac_con hs) \<subseteq> set (map ac_con (lp_handlers s)) - {con}"
  shows "received_ok (s'\<lparr>lp_handlers := hs\<rparr>)"
proof -
  note D = received_okD [OF ok]
  let ?k = "socket_Start (newLocalSocket sid svc con)"
  let ?s = "s\<lparr>lp_sockets := lp_sockets s @ [?k], socketMap := (socketMap s)(sid \<mapsto> length (lp_sockets s)),
      lp_handlers := hs\<rparr>"
  have sm: "socketMap s sid = None" and s': "s'\<lparr>lp_handlers := hs\<rparr> = ?s"
    using st by (auto simp: StartSocket_def Let_def split: if_splits)
  have k: "ls_con ?k = con" "ls_streamID ?k = sid"
    by (simp_all add: socket_Start_def newLocalSocket_def)
  have "distinct (owners ?s)"
    using D(1) con(2) hs by (auto simp: owners_def k simp del: set_map)
  moreover have "d < length (lp_cons ?s)" if "d \<in> set (owners ?s)" for d
    using that con(1) hs(2) D(2) [of d] by (auto simp: owners_def k simp del: set_map)
  moreover have "con_written (lp_cons ?s ! d) = []"
    if "d < length (lp_cons ?s)" "d \<notin> set (map ls_con (lp_sockets ?s))" for d
    using that D(3) [of d] by simp
  moreover have "delivered ?s i" if "i < length (lp_sockets ?s)" for i
  proof (cases "i < length (lp_sockets s)")
    case True
    show ?thesis
    proof (rule delivered_quiet [OF D(4) [OF True]])
      assume "socketMap ?s (ls_streamID (lp_sockets s ! i)) = Some i"
        "con_open (lp_cons ?s ! ls_con (lp_sockets ?s ! i))"
      then show "socketMap s (ls_streamID (lp_sockets s ! i)) = Some i \<and>
          con_open (lp_cons s ! ls_con (lp_sockets s ! i))"
        using True by (simp add: nth_append split: if_splits)
    qed (use True in \<open>simp_all add: nth_append\<close>)
  next
    case False
    then have "i = length (lp_sockets s)" using that by simp
    then show ?thesis
      using D(3) [OF con] by (auto simp: delivered_def k intro: exI [of _ "[]"])
  qed
  ultimately show ?thesis unfolding s' received_ok_def by blast
qed

text \<open>The manager's \<^verbatim>\<open>Write\<close>, when no write fails.\<close>

lemma received_ok_Write:
  assumes ok: "received_ok s" and socks: "sock_inv s"
    and w: "manager_Write (\<lambda>n. None) sid svc p s = (e, s')" and h: "lp_handlers s' = lp_handlers s"
  shows "received_ok s'"
proof -
  note D = received_okD [OF ok]
  have ar: "arrived s' j = arrived s j @ (if j = sid then [p] else [])" for j
    using w by (auto simp: arrived_def manager_Write_def socket_Write_def Let_def
        split: option.splits prod.splits if_splits)
  have same: "lp_sockets s' = lp_sockets s" "socketMap s' = socketMap s"
    "length (lp_cons s') = length (lp_cons s)"
    using manager_Write_same [OF w] by simp_all
  define target where "target c \<longleftrightarrow> (\<exists>i. socketMap s sid = Some i \<and> c = ls_con (lp_sockets s ! i) \<and>
      con_open (lp_cons s ! c))" for c
  have wr: "con_written (lp_cons s' ! c) = con_written (lp_cons s ! c) @ (if target c then p else []) \<and>
      con_open (lp_cons s' ! c) = con_open (lp_cons s ! c)" if "c < length (lp_cons s)" for c
    using w that by (auto simp: target_def manager_Write_def socket_Write_def Let_def nth_list_update
        split: option.splits prod.splits if_splits)
  have "distinct (map ls_con (lp_sockets s))" using D(1) by (simp add: owners_def)
  then have inj: "i = j" if "i < length (lp_sockets s)" "j < length (lp_sockets s)"
      "ls_con (lp_sockets s ! i) = ls_con (lp_sockets s ! j)" for i j
    using that by (simp add: distinct_conv_nth) metis
  have mapped: "j < length (lp_sockets s) \<and> ls_streamID (lp_sockets s ! j) = sid"
    if "socketMap s sid = Some j" for j
    using sockets_okD(2,3) [OF socks that] by simp
  have "delivered s' i" if "i < length (lp_sockets s')" for i
  proof -
    have i: "i < length (lp_sockets s)" using that same by simp
    let ?k = "lp_sockets s ! i"
    note c = socket_con_bound [OF ok i]
    show ?thesis
    proof (cases "ls_streamID ?k = sid \<and> socketMap s sid = Some i \<and> con_open (lp_cons s ! ls_con ?k)")
      case True
      then have "target (ls_con ?k)" by (auto simp: target_def)
      moreover obtain ts where "con_written (lp_cons s ! ls_con ?k) = concat ts" "suffix ts (arrived s sid)"
        using D(4) [OF i] True by (auto simp: delivered_def Let_def)
      ultimately show ?thesis
        unfolding delivered_def Let_def same
        using True wr [OF c] ar [of sid] by (intro exI [of _ "ts @ [p]"]) simp
    next
      case False
      have "\<not> target (ls_con ?k)" using False inj [OF i] mapped by (auto simp: target_def)
      then have "con_written (lp_cons s' ! ls_con ?k) = con_written (lp_cons s ! ls_con ?k)"
        "con_open (lp_cons s' ! ls_con ?k) = con_open (lp_cons s ! ls_con ?k)"
        using wr [OF c] by simp_all
      then show ?thesis
        using False same ar
        by (cases "ls_streamID ?k = sid")
          (auto intro: delivered_quiet [OF D(4) [OF i]] delivered_missed [OF D(4) [OF i]])
    qed
  qed
  moreover have "con_written (lp_cons s' ! c) = []"
    if "c < length (lp_cons s')" "c \<notin> set (map ls_con (lp_sockets s'))" for c
  proof -
    have "\<not> target c" using that(2) mapped by (auto simp: target_def same)
    then show ?thesis using wr [of c] D(3) [of c] that by (simp add: same)
  qed
  ultimately show ?thesis
    using D(1,2) unfolding received_ok_def owners_def same h by blast
qed

section \<open>The contract of the client, with the owners\<close>

definition delivery_inv :: "proxy_conf \<Rightarrow> 'a localProxy_scheme \<Rightarrow> bool" where
  "delivery_inv pc s \<longleftrightarrow>
     proxy_inv pc s \<and> (pc_con_write pc = (\<lambda>n. None) \<longrightarrow> received_ok s)"

lemma delivery_inv_frame:
  fixes s s' :: "'a localProxy_scheme"
  assumes "delivery_inv pc s" and "proxy_inv pc s'" and "same_sockets s s'"
    and "lp_handlers s' = lp_handlers s"
  shows "delivery_inv pc s'"
  using assms received_ok_same by (auto simp: delivery_inv_def)

lemma delivery_inv_closes:
  fixes s s' :: "'a localProxy_scheme"
  assumes "delivery_inv pc s" and "proxy_inv pc s'" and "only_closes s s'" and "same_proxy s s'"
  shows "delivery_inv pc s'"
  using assms received_ok_handlers by (auto simp: delivery_inv_def same_proxy_def)

lemma OnStreamStart_delivery:
  assumes inv: "delivery_inv pc s" and r: "listener_OnStreamStart pc m s = Return (e, s')"
  shows "delivery_inv pc s'"
proof -
  have p: "proxy_inv pc s'" using OnStreamStart_handler_ok [OF _ r] inv by (simp add: delivery_inv_def)
  have "received_ok s'" if ok: "received_ok s"
  proof (cases "serviceMap pc (ServiceId m)")
    case None
    then show ?thesis using r ok by (simp add: listener_OnStreamStart_def)
  next
    case (Some c)
    let ?s1 = "s\<lparr>lp_dials := Suc (lp_dials s)\<rparr>"
    have s1: "received_ok ?s1" by (rule received_ok_frame [OF ok]) simp_all
    show ?thesis
    proof (cases "pc_dial pc (lp_dials s)")
      case None
      let ?s2 = "?s1\<lparr>lp_cons := lp_cons ?s1 @ [\<lparr>con_open = True, con_written = []\<rparr>]\<rparr>"
      have "received_ok (?s1\<lparr>lp_cons := lp_cons ?s1 @ [\<lparr>con_open = True, con_written = []\<rparr>],
          lp_handlers := lp_handlers ?s1\<rparr>)"
        by (rule received_ok_new_con [OF s1]) simp_all
      then have s2: "received_ok ?s2" by simp
      have st: "StartSocket (StreamId m) (ServiceId m) (length (lp_cons s)) ?s2 = (e, s')"
        using r Some None by (simp add: listener_OnStreamStart_def Let_def)
      have fresh: "length (lp_cons s) \<notin> set (owners s)" using received_okD(2) [OF ok] by fastforce
      show ?thesis
      proof (cases e)
        case None
        have "received_ok (s'\<lparr>lp_handlers := lp_handlers s\<rparr>)"
          by (rule received_ok_StartSocket [OF s2 st [unfolded None]])
            (use fresh received_okD(1) [OF ok] in \<open>auto simp: owners_def\<close>)
        moreover have "lp_handlers s' = lp_handlers s"
          using StartSocket_cases [OF st] by (cases rule: StartSocket_cases [OF st]) simp_all
        then have "s'\<lparr>lp_handlers := lp_handlers s\<rparr> = s'" by simp
        ultimately show ?thesis by simp
      next
        case (Some err)
        then show ?thesis using st s2 by (auto simp: StartSocket_def Let_def split: if_splits)
      qed
    next
      case (Some err)
      then show ?thesis
        using r s1 \<open>serviceMap pc (ServiceId m) = Some c\<close> by (simp add: listener_OnStreamStart_def Let_def)
    qed
  qed
  then show ?thesis using inv p by (simp add: delivery_inv_def)
qed

lemma OnData_delivery:
  fixes s :: "'a localProxy_scheme"
  assumes inv: "delivery_inv pc s" and r: "listener_OnData pc m s = Return (e, s')"
  shows "delivery_inv pc s'"
proof -
  have p: "proxy_inv pc s" "proxy_inv pc s'"
    using OnData_handler_ok [OF _ r] inv by (simp_all add: delivery_inv_def)
  have w: "manager_Write (pc_con_write pc) (StreamId m) (ServiceId m) (Payload m) s = (e, s')"
    using r by (simp add: listener_OnData_def)
  have h: "lp_handlers s' = lp_handlers s"
    using w by (auto simp: manager_Write_def socket_Write_def Let_def
        split: option.splits prod.splits if_splits)
  show ?thesis
    using inv p received_ok_Write [OF _ _ _ h] w by (auto simp: delivery_inv_def proxy_inv_def)
qed

interpretation delivery_client: client_listeners "penv Hostname Sum256 pc opts"
    "delivery_inv pc :: 'a localProxy_scheme \<Rightarrow> bool"
  for Hostname Sum256 pc opts
proof
  fix s s' :: "'a localProxy_scheme" and cs m ts sid svc e
  show "cl_inv s" "cl_conns s \<noteq> []" if "delivery_inv pc s"
    using that by (simp_all add: delivery_inv_def proxy_inv_def client_ok_def)
  show "delivery_inv pc (s\<lparr>cl_conns := cs\<rparr>)" if "delivery_inv pc s" "length (cl_conns s) \<le> length cs"
    using delivery_inv_frame [OF that(1)] proxy_client.inv_conns [of pc s cs] that
    by (simp add: delivery_inv_def same_sockets_def)
  show "delivery_inv pc (s\<lparr>cl_handled := ms\<rparr>)" if "delivery_inv pc s" for ms
    using delivery_inv_frame [OF that] proxy_client.inv_handled [of pc s ms] that
    by (simp add: delivery_inv_def same_sockets_def)
  show "delivery_inv pc (with_workers m ts s)" if "delivery_inv pc s" "cl_inv (with_workers m ts s)"
    using delivery_inv_frame [OF that(1)] proxy_client.inv_workers [of pc s m ts] that
    by (simp add: delivery_inv_def same_sockets_def with_workers_def)
  show "delivery_inv pc s'" if "delivery_inv pc s"
    "sendMessage (env_io (penv Hostname Sum256 pc opts)) sid svc Message_STREAM_RESET [] s = Return (e, s')"
  proof -
    have "proxy_inv pc s'"
      using that sendMessage_proxy_inv [of pc s sid svc Message_STREAM_RESET e s']
      by (simp add: delivery_inv_def message_type_defs)
    then show ?thesis
      using delivery_inv_frame [OF that(1)] sendMessage_same_sockets [OF that(2)]
        sendMessage_same_proxy [OF that(2)] by (simp add: same_proxy_def)
  qed
next
  fix L :: "'a localProxy_scheme AWSMessageListener" and msg
  assume L: "L \<in> set (messageListeners (penv Hostname Sum256 pc opts))"
  then have eq: "L = event_listener pc" by simp
  have p: "proxy_inv pc s" if "delivery_inv pc s" for s :: "'a localProxy_scheme"
    using that by (simp add: delivery_inv_def)
  have lift: "handler_ok (delivery_inv pc) h"
    if "handler_ok (proxy_inv pc) h" "\<And>s s'. delivery_inv pc s \<Longrightarrow> h s = Return s' \<Longrightarrow> delivery_inv pc s'"
    for h :: "'a localProxy_scheme \<Rightarrow> 'a localProxy_scheme outcome"
    by (rule handler_okI) (use that handler_okD [OF that(1) p] in blast)+
  show "handler_ok (delivery_inv pc) (effect (OnStreamStart L msg))"
    by (rule lift [OF proxy_client.stream_start_ok [OF L]])
      (auto simp: eq event_listener_def OnStreamStart_delivery)
  show "handler_ok (delivery_inv pc) (effect (OnData L msg))"
    by (rule lift [OF proxy_client.data_ok [OF L]]) (auto simp: eq event_listener_def OnData_delivery)
  show "handler_ok (delivery_inv pc) (OnStreamReset L msg)"
  proof (rule lift [OF proxy_client.stream_reset_ok [OF L]])
    fix s s' :: "'a localProxy_scheme"
    assume s: "delivery_inv pc s" and "OnStreamReset L msg s = Return s'"
    then show "delivery_inv pc s'"
      using StopSocket_handler_ok [OF p [OF s], of msg] delivery_inv_closes [OF s, of s']
      by (auto simp: eq event_listener_def)
  qed
  show "handler_ok (delivery_inv pc) (OnSessionReset L msg)"
  proof (rule lift [OF proxy_client.session_reset_ok [OF L]])
    fix s s' :: "'a localProxy_scheme"
    assume s: "delivery_inv pc s" and "OnSessionReset L msg s = Return s'"
    then show "delivery_inv pc s'"
      using StopAll_handler_ok [OF p [OF s]] delivery_inv_closes [OF s, of s']
      by (auto simp: eq event_listener_def listener_OnSessionReset_def)
  qed
  show "handler_ok (delivery_inv pc) (effect (OnServiceIDs L msg))"
  proof (rule lift [OF proxy_client.service_ids_ok [OF L]])
    fix s s' :: "'a localProxy_scheme"
    assume s: "delivery_inv pc s" and r: "effect (OnServiceIDs L msg) s = Return s'"
    have "same_sockets s s' \<and> lp_handlers s' = lp_handlers s"
      using r by (auto simp: eq event_listener_def listener_OnServiceIDs_def same_sockets_def)
    then show "delivery_inv pc s'"
      using delivery_inv_frame [OF s] handler_okD(2) [OF proxy_client.service_ids_ok [OF L] p [OF s] r] by blast
  qed
qed

section \<open>Every step keeps the owners\<close>

lemma same_sockets_trans: "same_sockets s s' \<Longrightarrow> same_sockets s' s'' \<Longrightarrow> same_sockets s s''"
  by (simp add: same_sockets_def)

lemma SendStreamStart_same_sockets:
  fixes s :: "'a localProxy_scheme"
  assumes "SendStreamStart io sid svc s = Return (e, s')"
  shows "same_sockets s s'"
proof -
  obtain m err s1 where
    s1: "sendMessage io sid svc Message_STREAM_START [] (s\<lparr>workerMng := m\<rparr>) = Return (err, s1)"
    and s': "s' = (case err of Some e \<Rightarrow> s1\<lparr>workerMng := mng_stop sid (workerMng s1)\<rparr> | None \<Rightarrow> s1)"
    using assms by (auto simp: SendStreamStart_def split: option.splits)
  show ?thesis
    using sendMessage_same_sockets [OF s1] s' by (simp add: same_sockets_def split: option.splits)
qed

lemma handler_begin_closes:
  fixes s :: "'a localProxy_scheme"
  assumes "handler_begin pc now h s = Return (nxt, s')"
  shows "only_closes s s'"
proof -
  obtain sid g where g: "generate (lp_idGen s) now = (sid, g)" by fastforce
  obtain e s1 where s1: "SendStreamStart (pc_io pc) sid (ac_serviceID h) (s\<lparr>lp_idGen := g\<rparr>) = Return (e, s1)"
    and r: "(nxt, s') = (case e of Some e \<Rightarrow> (None, close_conn (ac_con h) s1)
             | None \<Rightarrow> (Some (h\<lparr>ac_streamID := Some sid\<rparr>), s1))"
    using assms by (auto simp: handler_begin_def g)
  have "same_sockets s s1"
    using SendStreamStart_same_sockets [OF s1] by (simp add: same_sockets_def)
  then have "only_closes s s1" by (rule only_closes_same)
  moreover from this have "only_closes s (close_conn (ac_con h) s1)"
    using only_closes_trans only_closes_close_conn by blast
  ultimately show ?thesis using r by (auto split: option.splits)
qed

lemma received_ok_end:
  fixes s :: "'a localProxy_scheme"
  assumes ok: "received_ok s" and h: "lp_handlers s = hs @ h # hs'"
  shows "received_ok ((handler_end h s)\<lparr>lp_handlers := hs @ hs'\<rparr>)"
proof -
  note D = received_okD [OF ok]
  have hs: "distinct (map ac_con (hs @ hs'))"
    "set (map ac_con (hs @ hs')) \<subseteq> set (map ac_con (lp_handlers s)) - {ac_con h}"
    and con: "ac_con h < length (lp_cons s)" "ac_con h \<notin> set (map ls_con (lp_sockets s))"
    using D(1) D(2) [of "ac_con h"] by (auto simp: owners_def h simp del: set_map)
  obtain e s1 where s1: "StartSocket (the (ac_streamID h)) (ac_serviceID h) (ac_con h) s = (e, s1)"
    by fastforce
  show ?thesis
  proof (cases e)
    case None
    then show ?thesis
      using received_ok_StartSocket [OF ok _ con hs] s1 by (simp add: handler_end_def)
  next
    case (Some err)
    then have "s1 = s" using s1 by (auto simp: StartSocket_def Let_def split: if_splits)
    then have "handler_end h s = close_conn (ac_con h) s" using s1 Some by (simp add: handler_end_def)
    moreover have "only_closes s ((close_conn (ac_con h) s)\<lparr>lp_handlers := hs @ hs'\<rparr>)"
      using only_closes_close_conn [of s "ac_con h"] by (simp add: only_closes_def)
    then have "received_ok ((close_conn (ac_con h) s)\<lparr>lp_handlers := hs @ hs'\<rparr>)"
      by (rule received_ok_closes [OF ok]) (use hs in auto)
    ultimately show ?thesis by simp
  qed
qed

lemma delivery_step:
  fixes s :: "'a localProxy_scheme"
  assumes st: "proxy_step pc (penv H S pc opts) s s'"
    and inv: "delivery_inv pc s" and tasks: "tasks_ok (penv H S pc opts) s"
  shows "delivery_inv pc s' \<and> tasks_ok (penv H S pc opts) s'"
proof -
  have pinv: "proxy_inv pc s" using inv by (simp add: delivery_inv_def)
  have p: "proxy_inv pc s'" "tasks_ok (penv H S pc opts) s'"
    using proxy_step_inv [OF st pinv tasks] by simp_all
  have sucks: "delivery_inv pc s'" if "proxy_reader.J pc s s'" "only_socket i s s'" for i
    by (rule delivery_inv_closes [OF inv p(1)])
      (use that in \<open>simp_all add: only_socket_def proxy_reader.J_def\<close>)
  from st have "delivery_inv pc s'"
  proof (cases rule: proxy_step.cases)
    case client
    then show ?thesis using delivery_client.client_step_Inv inv tasks by blast
  next
    case reconnected
    then show ?thesis
      using StopAll_handler_ok [OF pinv] delivery_inv_closes [OF inv p(1)] by (auto simp: listener_OnConnected_def)
  next
    case (local_read i r)
    then show ?thesis using sucks local_read_J [OF pinv] by blast
  next
    case (local_forward i b)
    then show ?thesis using sucks local_forward_J [OF pinv] by blast
  next
    case (local_accept serviceID server)
    let ?hs = "lp_handlers s @ [\<lparr>ac_serviceID = ts_name server, ac_con = length (lp_cons s), ac_streamID = None\<rparr>]"
    let ?s = "s\<lparr>lp_cons := lp_cons s @ [\<lparr>con_open = True, con_written = []\<rparr>], lp_handlers := ?hs\<rparr>"
    have "received_ok s'" if "received_ok s"
    proof (rule received_ok_frame)
      show "received_ok ?s" by (rule received_ok_new_con [OF that]) simp_all
    qed (simp_all add: local_accept(1))
    then show ?thesis using inv p(1) by (simp add: delivery_inv_def)
  next
    case (local_begin hs h hs' now nxt s1)
    note b = handler_begin_proxy_inv [OF pinv local_begin(4)]
    have "only_closes s s'"
      using handler_begin_closes [OF local_begin(4)] local_begin(1)
      by (auto simp: only_closes_def handler_done_wg_def split: option.splits)
    moreover have "distinct (map ac_con (lp_handlers s'))"
      "set (map ac_con (lp_handlers s')) \<subseteq> set (map ac_con (lp_handlers s))" if "received_ok s"
      using received_okD(1) [OF that] local_begin(1,2) b
      by (auto simp: owners_def handler_done_wg_def split: option.splits)
    ultimately show ?thesis
      using inv p(1) received_ok_closes [of s s'] by (auto simp: delivery_inv_def)
  next
    case (local_end hs h hs' sid)
    have "received_ok s'" if "received_ok s"
      by (rule received_ok_frame [OF received_ok_end [OF that local_end(2)]])
        (simp_all add: local_end(1) handler_done_wg_def)
    then show ?thesis using inv p(1) by (simp add: delivery_inv_def)
  qed
  then show ?thesis using p(2) by simp
qed

section \<open>Every Data message is delivered once\<close>

fun task_data :: "task \<Rightarrow> (int32 \<times> bytes) list" where
  "task_data (DataTask l m) = [(StreamId m, Payload m)]"
| "task_data (ResetTask l m) = []"

lemma OnStreamStart_received:
  assumes "listener_OnStreamStart pc m s = Return (e, s')"
  shows "lp_received s' = lp_received s"
  using assms by (auto simp: listener_OnStreamStart_def StartSocket_def Let_def split: option.splits if_splits)

interpretation proxy_history: client_history "penv Hostname Sum256 pc opts"
    "proxy_inv pc :: 'a localProxy_scheme \<Rightarrow> bool" lp_received task_data
  for Hostname Sum256 pc opts
proof
  fix s s' :: "'a localProxy_scheme" and cs m ts sid svc ty d e err l msg
    and L :: "'a localProxy_scheme AWSMessageListener"
  show "lp_received (s\<lparr>cl_conns := cs\<rparr>) = lp_received s"
    "lp_received (s\<lparr>cl_handled := msgs\<rparr>) = lp_received s" for msgs
    by simp_all
  show
    "lp_received (with_workers m ts s) = lp_received s" "task_data (ResetTask l msg) = []"
    by (simp_all add: with_workers_def)
  show "lp_received s' = lp_received s"
    if "sendMessage (env_io (penv Hostname Sum256 pc opts)) sid svc ty d s = Return (e, s')"
    using sendMessage_same_sockets [OF that] by (simp add: same_sockets_def)
  show "lp_received s' = lp_received s @ task_data (DataTask l msg)"
    if "l < length (messageListeners (penv Hostname Sum256 pc opts))"
      "OnData (messageListeners (penv Hostname Sum256 pc opts) ! l) msg s = Return (err, s')"
    using that by (auto simp: event_listener_def listener_OnData_def manager_Write_def socket_Write_def Let_def
        split: option.splits prod.splits if_splits)
  assume L: "L \<in> set (messageListeners (penv Hostname Sum256 pc opts))" and inv: "proxy_inv pc s"
  then have eq: "L = event_listener pc" by simp
  show "lp_received s' = lp_received s" if "OnStreamStart L msg s = Return (err, s')"
    using that OnStreamStart_received [of pc msg s err s'] by (simp add: eq event_listener_def)
  show "lp_received s' = lp_received s" if "OnStreamReset L msg s = Return s'"
    using StopSocket_handler_ok [OF inv, of msg] that by (auto simp: eq event_listener_def only_closes_def)
  show "lp_received s' = lp_received s" if "OnSessionReset L msg s = Return s'"
    using StopAll_handler_ok [OF inv] that
    by (auto simp: eq event_listener_def listener_OnSessionReset_def only_closes_def)
  show "lp_received s' = lp_received s" if "OnServiceIDs L msg s = Return (err, s')"
    using that by (auto simp: eq event_listener_def listener_OnServiceIDs_def)
qed

definition once :: "'a localProxy_scheme \<Rightarrow> bool" where
  "once s \<longleftrightarrow> interleaves (lp_received s) (map (\<lambda>ts. concat (map task_data ts)) (ran_tasks s))"

lemma once_counted: "once s \<longleftrightarrow> proxy_history.counted s"
  by (simp add: once_def proxy_history.counted_def)

lemma once_same:
  fixes s s' :: "'a localProxy_scheme"
  shows "once s \<Longrightarrow> lp_received s' = lp_received s \<Longrightarrow> idle_more (ran_tasks s) (ran_tasks s') \<Longrightarrow> once s'"
  unfolding once_counted by (rule proxy_history.counted_same)

lemma SendStreamStart_ran:
  fixes s :: "'a localProxy_scheme"
  assumes "SendStreamStart io sid svc s = Return (e, s')"
  shows "idle_more (ran_tasks s) (ran_tasks s')"
proof -
  obtain m err s1 where m: "mng_start sid (workerMng s) = Return m"
    and s1: "sendMessage io sid svc Message_STREAM_START [] (s\<lparr>workerMng := m\<rparr>) = Return (err, s1)"
    and s': "s' = (case err of Some e \<Rightarrow> s1\<lparr>workerMng := mng_stop sid (workerMng s1)\<rparr> | None \<Rightarrow> s1)"
    using assms by (auto simp: SendStreamStart_def split: option.splits)
  have "idle_more (ran_tasks s) (ran_tasks s1)"
    using same_workers_ran [OF sendMessage_same_workers [OF s1]] mng_start_ran [OF m] by simp
  moreover have "ran_tasks s' = ran_tasks s1" using s' by (simp add: ran_tasks_def mng_stop_def split: option.splits)
  ultimately show ?thesis by simp
qed

lemma handler_begin_ran:
  fixes s :: "'a localProxy_scheme"
  assumes "handler_begin pc now h s = Return (nxt, s')"
  shows "idle_more (ran_tasks s) (ran_tasks s')"
proof -
  obtain sid g where g: "generate (lp_idGen s) now = (sid, g)" by fastforce
  obtain e s1 where s1: "SendStreamStart (pc_io pc) sid (ac_serviceID h) (s\<lparr>lp_idGen := g\<rparr>) = Return (e, s1)"
    and r: "(nxt, s') = (case e of Some e \<Rightarrow> (None, close_conn (ac_con h) s1)
             | None \<Rightarrow> (Some (h\<lparr>ac_streamID := Some sid\<rparr>), s1))"
    using assms by (auto simp: handler_begin_def g)
  have "idle_more (ran_tasks s) (ran_tasks s1)"
    using SendStreamStart_ran [OF s1] by (simp add: ran_tasks_def)
  moreover have "ran_tasks s' = ran_tasks s1" using r by (auto simp: ran_tasks_def close_conn_def split: option.splits)
  ultimately show ?thesis by simp
qed

lemma handler_end_history:
  "lp_received (handler_end h s) = lp_received s" "workerMng (handler_end h s) = workerMng s"
  by (auto simp: handler_end_def StartSocket_def close_conn_def Let_def split: option.splits prod.splits if_splits)

lemma once_step:
  fixes s :: "'a localProxy_scheme"
  assumes st: "proxy_step pc (penv H S pc opts) s s'"
    and inv: "proxy_inv pc s" and tasks: "tasks_ok (penv H S pc opts) s" and "once s"
  shows "once s'"
proof -
  note same = once_same [OF \<open>once s\<close>]
  have closes: "once s'" if "only_closes s s'" "same_proxy s s'"
  proof (rule same)
    show "idle_more (ran_tasks s) (ran_tasks s')"
      using same_workers_ran [OF same_proxy_workers [OF that(2)]] by simp
  qed (use that(1) in \<open>simp add: only_closes_def\<close>)
  have sucks: "once s'" if "proxy_reader.J pc s s'" "only_socket i s s'" for i
    by (rule closes) (use that in \<open>simp_all add: only_socket_def proxy_reader.J_def\<close>)
  from st show ?thesis
  proof (cases rule: proxy_step.cases)
    case client
    then show ?thesis
      using proxy_history.client_step_counted inv tasks \<open>once s\<close> unfolding once_counted by blast
  next
    case reconnected
    then show ?thesis
      using StopAll_handler_ok [OF inv] closes by (auto simp: listener_OnConnected_def)
  next
    case (local_read i r)
    then show ?thesis using sucks local_read_J [OF inv] by blast
  next
    case (local_forward i b)
    then show ?thesis using sucks local_forward_J [OF inv] by blast
  next
    case (local_accept serviceID server)
    then show ?thesis by (intro same) (simp_all add: ran_tasks_def)
  next
    case (local_begin hs h hs' now nxt s1)
    then show ?thesis
      using handler_begin_closes [OF local_begin(4)] handler_begin_ran [OF local_begin(4)]
      by (intro same) (auto simp: only_closes_def handler_done_wg_def ran_tasks_def split: option.splits)
  next
    case (local_end hs h hs' sid)
    then show ?thesis
      by (intro same) (simp_all add: handler_done_wg_def handler_end_history ran_tasks_def)
  qed
qed

section \<open>The workers get the Data messages of their streams\<close>

lemma handler_begin_reading:
  fixes s :: "'a localProxy_scheme"
  assumes "handler_begin pc now h s = Return (nxt, s')" and "reading_ok s"
  shows "reading_ok s'"
proof -
  obtain sid g where g: "generate (lp_idGen s) now = (sid, g)" by fastforce
  obtain e s1 where s1: "SendStreamStart (pc_io pc) sid (ac_serviceID h) (s\<lparr>lp_idGen := g\<rparr>) = Return (e, s1)"
    and r: "(nxt, s') = (case e of Some e \<Rightarrow> (None, close_conn (ac_con h) s1)
             | None \<Rightarrow> (Some (h\<lparr>ac_streamID := Some sid\<rparr>), s1))"
    using assms(1) by (auto simp: handler_begin_def g)
  have "reading_ok s1"
    by (rule SendStreamStart_reading [OF s1]) (use assms(2) in \<open>simp add: reading_ok_def\<close>)
  then show ?thesis using r by (auto simp: reading_ok_def close_conn_def split: option.splits)
qed

lemma reading_step:
  fixes s :: "'a localProxy_scheme"
  assumes st: "proxy_step pc (penv H S pc opts) s s'"
    and dinv: "delivery_inv pc s" and tasks: "tasks_ok (penv H S pc opts) s" and ok: "reading_ok s"
  shows "reading_ok s'"
proof -
  have inv: "proxy_inv pc s" using dinv by (simp add: delivery_inv_def)
  have same: "reading_ok s'" if "same_proxy s s'"
    by (rule reading_ok_keeps [OF ok keeps_same [OF same_proxy_workers [OF that]]])
  have sucks: "reading_ok s'" if "proxy_reader.J pc s s'"
    using that same by (simp add: proxy_reader.J_def)
  from st show ?thesis
  proof (cases rule: proxy_step.cases)
    case client
    then show ?thesis using delivery_client.client_step_reading [OF _ dinv tasks _ ok] by simp
  next
    case reconnected
    then show ?thesis using StopAll_handler_ok [OF inv] same by (auto simp: listener_OnConnected_def)
  next
    case (local_read i r)
    then show ?thesis using sucks local_read_J [OF inv] by blast
  next
    case (local_forward i b)
    then show ?thesis using sucks local_forward_J [OF inv] by blast
  next
    case (local_accept serviceID server)
    then show ?thesis using ok by (simp add: reading_ok_def)
  next
    case (local_begin hs h hs' now nxt s1)
    then show ?thesis
      using handler_begin_reading [OF local_begin(4) ok]
      by (auto simp: handler_done_wg_def reading_ok_def split: option.splits)
  next
    case (local_end hs h hs' sid)
    have "cl_handled (handler_end h s) = cl_handled s"
      by (auto simp: handler_end_def StartSocket_def close_conn_def Let_def split: option.splits prod.splits if_splits)
    then show ?thesis
      using ok local_end by (simp add: handler_done_wg_def handler_end_history reading_ok_def)
  qed
qed

section \<open>From the tunnel to the local programs\<close>

definition served :: "'a localProxy_scheme \<Rightarrow> bool" where
  "served s \<longleftrightarrow> once s \<and> reading_ok s"

lemma initial_delivery:
  "delivery_inv pc (initial_proxy srvs) \<and> tasks_ok env (initial_proxy srvs) \<and> served (initial_proxy srvs)"
  using initial_proxy_inv [of pc srvs env]
  by (simp add: delivery_inv_def received_ok_def owners_def served_def once_def)
    (simp add: initial_proxy_def new_manager_def ran_tasks_def interleaves_empty reading_ok_def)

interpretation delivery_machine: invariant_system "\<lambda>s. \<exists>srvs. s = initial_proxy srvs"
    "proxy_step pc (penv Hostname Sum256 pc opts)"
    "\<lambda>s. delivery_inv pc s \<and> tasks_ok (penv Hostname Sum256 pc opts) s \<and> served s"
  for pc Hostname Sum256 opts
proof
  show "delivery_inv pc s \<and> tasks_ok (penv Hostname Sum256 pc opts) s \<and> served s"
    if "\<exists>srvs. s = initial_proxy srvs" for s
    using that initial_delivery by blast
  show "delivery_inv pc t \<and> tasks_ok (penv Hostname Sum256 pc opts) t \<and> served t"
    if "proxy_step pc (penv Hostname Sum256 pc opts) s t"
      "delivery_inv pc s \<and> tasks_ok (penv Hostname Sum256 pc opts) s \<and> served s" for s t
    using delivery_step [OF that(1)] once_step [OF that(1)] reading_step [OF that(1)] that(2)
    by (simp add: delivery_inv_def served_def)
qed

lemma NewLocalProxy_con_write:
  assumes "NewLocalProxy h H S io dial cw mo options = (Inr (pc, env, s0), opened)"
  shows "pc_con_write pc = cw"
  using assms by (auto simp: NewLocalProxy_def Let_def split: option.splits sum.splits prod.splits)

lemma proxy_reaches_delivery:
  assumes "NewLocalProxy h H S io dial cw mo options = (Inr (pc, env, s0), opened)"
    and "proxy_reaches pc env s0 s"
  shows "delivery_inv pc s" "once s" "reading_ok s"
proof -
  note n = NewLocalProxy_Inr [OF assms(1)]
  have "reachable (\<lambda>s. \<exists>srvs. s = initial_proxy srvs) (proxy_step pc env) s"
    using assms(2)
    by (induction rule: reachable.induct) (auto simp: n(2) intro: reachable.intros)
  from delivery_machine.reachable_inv [OF this [unfolded n(1)]] show "delivery_inv pc s" "once s" "reading_ok s"
    by (simp_all add: served_def)
qed

lemma reaches_received_ok:
  assumes "NewLocalProxy h H S io dial (\<lambda>n. None) mo options = (Inr (pc, env, s0), opened)"
    and "proxy_reaches pc env s0 s"
  shows "received_ok s"
  using proxy_reaches_delivery(1) [OF assms] NewLocalProxy_con_write [OF assms(1)]
  by (simp add: delivery_inv_def)

text \<open>The run of the witnesses goes on: the worker takes the Data message and writes it.\<close>

definition demo_s5 :: localProxy where
  "demo_s5 = demo_s4
     \<lparr>workerMng := \<lparr>workerMap = [7 \<mapsto> 0],
         mg_workers = [demo_worker\<lparr>busy := Some (DataTask 0 data_message),
            w_accepted := [DataTask 0 data_message]\<rparr>],
         bufSize = channelBufSizePerStreamID, mg_stopping = []\<rparr>\<rparr>"

definition demo_s6 :: localProxy where
  "demo_s6 = demo_s5
     \<lparr>workerMng := \<lparr>workerMap = [7 \<mapsto> 0],
         mg_workers = [demo_worker\<lparr>w_accepted := [DataTask 0 data_message],
            executed := [DataTask 0 data_message]\<rparr>],
         bufSize = channelBufSizePerStreamID, mg_stopping = []\<rparr>,
      lp_cons := [\<lparr>con_open = True, con_written = [1, 2]\<rparr>], lp_writes := 1, lp_received := [(7, [1, 2])]\<rparr>"

lemma demo_step5: "proxy_step (demo_pc ModeDestination) (demo_penv ModeDestination) demo_s4 demo_s5"
proof -
  have w: "0 < length (mg_workers (workerMng demo_s4))"
    "mg_workers (workerMng demo_s4) ! 0 = demo_worker
       \<lparr>chExec := [DataTask 0 data_message], w_accepted := [DataTask 0 data_message]\<rparr>"
    by (simp_all add: demo_s4_def)
  have eq: "demo_s5 = demo_s4\<lparr>workerMng := set_worker 0 (demo_worker\<lparr>chExec := [],
      w_accepted := [DataTask 0 data_message], busy := Some (DataTask 0 data_message)\<rparr>) (workerMng demo_s4)\<rparr>"
    by (simp add: demo_s5_def demo_s4_def set_worker_def demo_worker_def NewWorker_def)
  have "client_step (demo_penv ModeDestination) demo_s4 demo_s5"
    unfolding eq
    using client_step.takes_task [OF w, of "DataTask 0 data_message" "[]" "demo_penv ModeDestination"]
    by (simp add: demo_worker_def NewWorker_def)
  then show ?thesis by (rule proxy_step.client)
qed

lemma demo_step6: "proxy_step (demo_pc ModeDestination) (demo_penv ModeDestination) demo_s5 demo_s6"
proof -
  let ?t = "DataTask 0 data_message"
  let ?s = "demo_s5\<lparr>lp_cons := [\<lparr>con_open = True, con_written = [1, 2]\<rparr>], lp_writes := 1,
      lp_received := [(7, [1, 2])]\<rparr>"
  have w: "0 < length (mg_workers (workerMng demo_s5))"
    "mg_workers (workerMng demo_s5) ! 0 = demo_worker\<lparr>busy := Some ?t, w_accepted := [?t]\<rparr>"
    by (simp_all add: demo_s5_def)
  have cw: "pc_con_write (demo_pc ModeDestination) = (\<lambda>n. None)"
    by (rule NewLocalProxy_con_write [OF demo_new [OF valid_mode_simps(2)]])
  have r: "run_task (demo_penv ModeDestination) ?t demo_s5 = Return ?s"
    by (simp add: demo_dest event_listener_def listener_OnData_def manager_Write_def socket_Write_def cw
        data_message_def zero_message_def demo_s5_def demo_s4_def demo_s3_def demo_s2_def demo_s1_def
        initial_proxy_def socket_Start_def newLocalSocket_def Let_def)
  have "client_step (demo_penv ModeDestination) demo_s5 (worker_done 0 ?t ?s)"
    using client_step.finishes_task [OF w _ _ r] by (simp add: demo_worker_def)
  moreover have "worker_done 0 ?t ?s = demo_s6"
    by (simp add: worker_done_def set_worker_def demo_s6_def demo_s5_def demo_worker_def NewWorker_def Let_def)
  ultimately show ?thesis by (metis proxy_step.client)
qed

lemma demo_delivers:
  "proxy_reaches (demo_pc ModeDestination) (demo_penv ModeDestination) (demo_s0 ModeDestination) demo_s6"
  by (rule reachable.step [OF reachable.step [OF demo_reaches demo_step5] demo_step6])

lemma demo_s6_fields:
  "lp_sockets demo_s6 = [(socket_Start (newLocalSocket 7 ''ssh'' 0))\<lparr>ls_read := [1, 2], ls_forwarded := [1, 2]\<rparr>]"
  "lp_cons demo_s6 = [\<lparr>con_open = True, con_written = [1, 2]\<rparr>]" "socketMap demo_s6 = [7 \<mapsto> 0]"
  "lp_received demo_s6 = [(7, [1, 2])]"
  by (simp_all add: demo_s6_def demo_s5_def demo_s4_def demo_s3_def demo_s2_def demo_s1_def)

text \<open>The data of a stream, among all data and among all closures.\<close>

lemma filter_task_data:
  "filter (\<lambda>x. fst x = sid) (concat (map task_data ts)) =
     concat (map task_data (filter (\<lambda>t. stream_of t = sid) ts))"
proof (induction ts)
  case (Cons t ts)
  then show ?case by (cases t) simp_all
qed simp

text \<open>A stream that one worker has served: what it has run, and what it was given.\<close>

definition one_worker :: "'a awsClient_scheme \<Rightarrow> int32 \<Rightarrow> nat \<Rightarrow> bool" where
  "one_worker s sid i \<longleftrightarrow> i < length (mg_workers (workerMng s)) \<and>
     (\<forall>j < length (mg_workers (workerMng s)). j \<noteq> i \<longrightarrow>
        (\<forall>t \<in> set (w_accepted (mg_workers (workerMng s) ! j)). stream_of t \<noteq> sid))"

lemma reaches_interleaves:
  assumes "NewLocalProxy h H S io dial cw mo options = (Inr (pc, env, s0), opened)"
    and "proxy_reaches pc env s0 s"
  shows "interleaves (lp_received s)
      (map (\<lambda>w. concat (map task_data (executed w))) (mg_workers (workerMng s)))"
  using proxy_reaches_delivery(2) [OF assms] by (simp add: once_def ran_tasks_def comp_def)

lemma received_of_worker:
  assumes "NewLocalProxy h H S io dial cw mo options = (Inr (pc, env, s0), opened)"
    and "proxy_reaches pc env s0 s" and one: "one_worker s sid i"
  defines "w \<equiv> mg_workers (workerMng s) ! i"
    and "data \<equiv> \<lambda>ts. concat (map task_data (filter (\<lambda>t. stream_of t = sid) ts))"
  shows "filter (\<lambda>x. fst x = sid) (lp_received s) = data (executed w)"
    and "filter (\<lambda>x. fst x = sid) (concat (map task_data (cl_taken s))) =
      data (executed w) @ data (in_hand w @ chExec w)"
proof -
  let ?ws = "mg_workers (workerMng s)"
  let ?data = "\<lambda>w. concat (map task_data (executed w))"
  note inter = reaches_interleaves [OF assms(1,2)]
  have i: "i < length ?ws" and other: "\<forall>j < length ?ws. j \<noteq> i \<longrightarrow>
      (\<forall>t \<in> set (w_accepted (?ws ! j)). stream_of t \<noteq> sid)"
    using one by (auto simp: one_worker_def)
  have cl: "cl_inv s" using proxy_reaches_inv(1) [OF assms(1,2)] by (simp add: proxy_inv_def client_ok_def)
  have acc: "w_accepted (?ws ! j) = executed (?ws ! j) @ in_hand (?ws ! j) @ chExec (?ws ! j)"
    if "j < length ?ws" for j
    using mng_invD(3) [OF cl_invD(1) [OF cl] that] by (simp add: mng_worker_ok_def worker_inv_def in_hand_def)
  have "filter (\<lambda>x. fst x = sid) (lp_received s) = filter (\<lambda>x. fst x = sid) (map ?data ?ws ! i)"
  proof (rule interleaves_single [OF inter])
    fix j
    assume "j < length (map ?data ?ws)" "j \<noteq> i"
    then have "filter (\<lambda>t. stream_of t = sid) (executed (?ws ! j)) = []"
      using other acc [of j] by (simp add: filter_empty_conv)
    then show "filter (\<lambda>x. fst x = sid) (map ?data ?ws ! j) = []"
      using \<open>j < length (map ?data ?ws)\<close> by (simp add: filter_task_data)
  qed (use i in simp)
  then show "filter (\<lambda>x. fst x = sid) (lp_received s) = data (executed w)"
    using i by (simp add: filter_task_data w_def data_def)
  have "filter (\<lambda>t. stream_of t = sid) (cl_taken s) =
      filter (\<lambda>t. stream_of t = sid) (concat (map w_accepted ?ws))"
    by (rule streams_okD(5) [OF cl_invD(2) [OF cl]])
  also have "\<dots> = filter (\<lambda>t. stream_of t = sid) (map w_accepted ?ws ! i)"
    by (rule filter_concat_single) (use i other in \<open>auto simp: filter_empty_conv\<close>)
  finally show "filter (\<lambda>x. fst x = sid) (concat (map task_data (cl_taken s))) =
      data (executed w) @ data (in_hand w @ chExec w)"
    using i by (simp add: filter_task_data acc w_def data_def)
qed

text \<open>The messages behind the data.\<close>

lemma task_data_messages: "task_data t = map (\<lambda>m. (StreamId m, Payload m)) (task_data_message t)"
  by (cases t) simp_all

lemma data_of_tasks:
  "concat (map task_data (filter (\<lambda>t. stream_of t = sid) ts)) =
     map (\<lambda>m. (StreamId m, Payload m)) (data_messages sid ts)"
  by (simp add: data_messages_def task_data_messages [abs_def] map_concat comp_def)

text \<open>What one worker has run of a stream, and what the reader took up.\<close>

lemma arrived_of_worker:
  assumes "NewLocalProxy h H S io dial cw mo options = (Inr (pc, env, s0), opened)"
    and "proxy_reaches pc env s0 s" and one: "one_worker s sid i"
  defines "w \<equiv> mg_workers (workerMng s) ! i"
  shows "arrived s sid = map Payload (data_messages sid (executed w))"
    and "sublist (data_messages sid (executed w @ in_hand w @ chExec w)) (filter (takes sid) (cl_handled s))"
    and "workerMap (workerMng s) sid = Some i \<Longrightarrow>
      suffix (data_messages sid (executed w @ in_hand w @ chExec w)) (filter (takes sid) (cl_handled s))"
proof -
  have i: "i < length (accepted s)" using one by (simp add: one_worker_def)
  have cl: "cl_inv s" using proxy_reaches_inv(1) [OF assms(1,2)] by (simp add: proxy_inv_def client_ok_def)
  then have acc: "accepted s ! i = executed w @ in_hand w @ chExec w"
    using mng_invD(3) [OF cl_invD(1) [OF cl], of i] i
    by (simp add: w_def mng_worker_ok_def worker_inv_def in_hand_def)
  have ok: "handled_ok (workerMap (workerMng s)) (accepted s) (cl_handled s)"
    using proxy_reaches_delivery(3) [OF assms(1,2)] by (simp add: reading_ok_def)
  show "arrived s sid = map Payload (data_messages sid (executed w))"
    using received_of_worker(1) [OF assms(1,2) one] by (simp add: arrived_def data_of_tasks w_def)
  show "sublist (data_messages sid (executed w @ in_hand w @ chExec w)) (filter (takes sid) (cl_handled s))"
    "workerMap (workerMng s) sid = Some i \<Longrightarrow>
      suffix (data_messages sid (executed w @ in_hand w @ chExec w)) (filter (takes sid) (cl_handled s))"
    using handled_data [OF ok i, of sid] by (simp_all only: acc)
qed

lemma arrived_handled:
  assumes "NewLocalProxy h H S io dial cw mo options = (Inr (pc, env, s0), opened)"
    and "proxy_reaches pc env s0 s" and "one_worker s sid i"
  shows "sublist (arrived s sid) (map Payload (filter (takes sid) (cl_handled s)))"
proof -
  note a = arrived_of_worker [OF assms]
  have "sublist (data_messages sid (executed (mg_workers (workerMng s) ! i))) (filter (takes sid) (cl_handled s))"
    using sublist_order.order_trans [OF _ a(2)] by (simp add: data_messages_def)
  then show ?thesis unfolding a(1) by (rule map_mono_sublist)
qed

text \<open>
  C6 (functional): what the tunnel brings reaches the local programs in order, without gaps and
  without mixing streams, when no write to a local connection fails.  In every reachable state no
  two sockets share a connection; what the manager's \<^verbatim>\<open>Write\<close> was called with are the streams and
  the payloads of the Data closures that the workers have run, each worker's in order; what a
  socket's connection was sent is the data of consecutive such calls for the socket's stream,
  up to the last one as long as the connection is open and the manager knows the socket; and for
  a stream that one worker has served it is the payloads of consecutive Data messages of the
  stream that the client took up from the tunnel.
\<close>

theorem local_data_delivered:
  assumes "NewLocalProxy h H S io dial (\<lambda>n. None) mo options = (Inr (pc, env, s0), opened)"
    and "proxy_reaches pc env s0 s"
  shows "distinct (map ls_con (lp_sockets s)) \<and>
    interleaves (lp_received s) (map (\<lambda>w. map (\<lambda>m. (StreamId m, Payload m))
      (concat (map task_data_message (executed w)))) (mg_workers (workerMng s))) \<and>
    (\<forall>i < length (lp_sockets s).
       let k = lp_sockets s ! i; con = lp_cons s ! ls_con k;
           came = map snd (filter (\<lambda>x. fst x = ls_streamID k) (lp_received s))
       in (\<exists>ts. con_written con = concat ts \<and> sublist ts came \<and>
            (socketMap s (ls_streamID k) = Some i \<and> con_open con \<longrightarrow> suffix ts came)) \<and>
          (\<forall>j. one_worker s (ls_streamID k) j \<longrightarrow> (\<exists>ts. con_written con = concat ts \<and>
             sublist ts (map Payload (filter (\<lambda>m. Type m = Message_DATA \<and> StreamId m = ls_streamID k \<and>
               \<not> Ignorable m) (cl_handled s))))))"
proof -
  note ok = reaches_received_ok [OF assms]
  have d: "distinct (map ls_con (lp_sockets s))" using received_okD(1) [OF ok] by (simp add: owners_def)
  have inter: "interleaves (lp_received s) (map (\<lambda>w. map (\<lambda>m. (StreamId m, Payload m))
      (concat (map task_data_message (executed w)))) (mg_workers (workerMng s)))"
    using reaches_interleaves [OF assms] by (simp add: task_data_messages [abs_def] map_concat comp_def)
  have t: "takes sid = (\<lambda>m. Type m = Message_DATA \<and> StreamId m = sid \<and> \<not> Ignorable m)" for sid
    by (auto simp: takes_def is_data_def)
  have one: "\<exists>ts. con_written (lp_cons s ! ls_con (lp_sockets s ! i)) = concat ts \<and>
      sublist ts (map Payload (filter (takes (ls_streamID (lp_sockets s ! i))) (cl_handled s)))"
    if "i < length (lp_sockets s)" "one_worker s (ls_streamID (lp_sockets s ! i)) j" for i j
    using received_okD(4) [OF ok that(1)] sublist_order.order_trans [OF _ arrived_handled [OF assms that(2)]]
    unfolding delivered_def Let_def by blast
  show ?thesis
    using d inter received_okD(4) [OF ok] one unfolding delivered_def arrived_def Let_def t by blast
qed

theorem local_data_delivered_witness:
  "(\<exists>ts. con_written (lp_cons demo_s6 ! 0) = concat ts \<and>
      sublist ts (map Payload (filter (\<lambda>m. Type m = Message_DATA \<and> StreamId m = 7 \<and> \<not> Ignorable m)
        [start_message, data_message]))) \<and>
   con_written (lp_cons demo_s6 ! 0) = [1, 2]"
proof -
  have f: "0 < length (lp_sockets demo_s6)" "one_worker demo_s6 (ls_streamID (lp_sockets demo_s6 ! 0)) 0"
    "cl_handled demo_s6 = [start_message, data_message]"
    "ls_streamID (lp_sockets demo_s6 ! 0) = 7" "ls_con (lp_sockets demo_s6 ! 0) = 0"
    "con_written (lp_cons demo_s6 ! 0) = [1, 2]"
    by (simp_all add: demo_s6_fields one_worker_def socket_Start_def newLocalSocket_def)
      (simp_all add: demo_s6_def demo_s5_def demo_s4_def)
  show ?thesis
    using local_data_delivered [OF demo_new [OF valid_mode_simps(2)] demo_delivers, unfolded Let_def,
        THEN conjunct2, THEN conjunct2, rule_format, OF f(1), THEN conjunct2, rule_format, OF f(2)]
    unfolding f(3-6) by blast
qed

text \<open>
  C7 (invariant): the messages of a stream are handled in order, one at a time per worker.  In
  every reachable state, the closures that a worker has run, then the one that it runs, then those
  that wait for it, are all of one stream and are those of consecutive Data and StreamReset
  messages of that stream, in the order in which the client took them up; as long as the stream is
  registered with the worker they reach up to the last one.  Different streams have different
  workers.  (Two workers that one after the other served the same stream run independently.)
\<close>

theorem stream_messages_in_order:
  assumes "NewLocalProxy h H S io dial cw mo options = (Inr (pc, env, s0), opened)"
    and "proxy_reaches pc env s0 s"
  shows "(\<forall>i < length (mg_workers (workerMng s)).
      let w = mg_workers (workerMng s) ! i; ts = executed w @ in_hand w @ chExec w
      in \<exists>sid. (\<forall>t \<in> set ts. stream_of t = sid) \<and> sublist ts (tasks_of sid (cl_handled s)) \<and>
           (\<forall>sid'. workerMap (workerMng s) sid' = Some i \<longrightarrow>
              sid' = sid \<and> suffix ts (tasks_of sid (cl_handled s)))) \<and>
    inj_on (workerMap (workerMng s)) (dom (workerMap (workerMng s)))"
proof -
  have inv: "cl_inv s" using proxy_reaches_inv(1) [OF assms] by (simp add: proxy_inv_def client_ok_def)
  note m = cl_invD(1) [OF inv] and st = cl_invD(2) [OF inv]
  have ok: "handled_ok (workerMap (workerMng s)) (accepted s) (cl_handled s)"
    using proxy_reaches_delivery(3) [OF assms] by (simp add: reading_ok_def)
  have "\<exists>sid. (\<forall>t \<in> set ts. stream_of t = sid) \<and> sublist ts (tasks_of sid (cl_handled s)) \<and>
      (\<forall>sid'. workerMap (workerMng s) sid' = Some i \<longrightarrow>
         sid' = sid \<and> suffix ts (tasks_of sid (cl_handled s)))"
    if i: "i < length (mg_workers (workerMng s))"
      and ts: "ts = executed (mg_workers (workerMng s) ! i) @ in_hand (mg_workers (workerMng s) ! i) @
        chExec (mg_workers (workerMng s) ! i)" for i ts
  proof -
    have l: "i < length (accepted s)" using i by simp
    have acc: "accepted s ! i = ts"
      using mng_invD(3) [OF m i] i by (simp add: ts mng_worker_ok_def worker_inv_def in_hand_def)
    obtain sid where sid: "\<forall>t \<in> set ts. stream_of t = sid"
      "\<And>sid'. workerMap (workerMng s) sid' = Some i \<Longrightarrow> sid' = sid"
    proof (cases "\<exists>sid'. workerMap (workerMng s) sid' = Some i")
      case True
      then obtain sid where "workerMap (workerMng s) sid = Some i" by blast
      then show ?thesis
        using that [of sid] streams_okD(3) [OF st] mng_invD(4) [OF m] acc by blast
    next
      case False
      then show ?thesis using that streams_okD(1) [OF st nth_mem [OF l]] acc by auto
    qed
    then have f: "filter (\<lambda>t. stream_of t = sid) ts = ts" by (simp add: filter_id_conv)
    show ?thesis
      using sid handled_okD [OF ok l, of sid] unfolding acc f by blast
  qed
  moreover have "inj_on (workerMap (workerMng s)) (dom (workerMap (workerMng s)))"
    using mng_invD(4) [OF m] by (fastforce intro: inj_onI)
  ultimately show ?thesis unfolding Let_def by blast
qed

theorem stream_messages_in_order_witness:
  "\<exists>sid. sublist [DataTask 0 data_message] (tasks_of sid [start_message, data_message]) \<and>
     executed (mg_workers (workerMng demo_s6) ! 0) = [DataTask 0 data_message]"
proof -
  have f: "0 < length (mg_workers (workerMng demo_s6))" "cl_handled demo_s6 = [start_message, data_message]"
    "executed (mg_workers (workerMng demo_s6) ! 0) @ in_hand (mg_workers (workerMng demo_s6) ! 0) @
       chExec (mg_workers (workerMng demo_s6) ! 0) = [DataTask 0 data_message]"
    "executed (mg_workers (workerMng demo_s6) ! 0) = [DataTask 0 data_message]"
    by (simp_all add: demo_s6_def demo_s5_def demo_s4_def demo_worker_def NewWorker_def in_hand_def)
  show ?thesis
    using stream_messages_in_order [OF demo_new [OF valid_mode_simps(2)] demo_delivers, unfolded Let_def,
        THEN conjunct1, rule_format, OF f(1)] f(4)
    unfolding f(2,3) by blast
qed

text \<open>
  C8 (functional): Data messages are handed to the local connections exactly once and in order.
  In every reachable state, what the manager's \<^verbatim>\<open>Write\<close> was called with is an interleaving of the
  data of the closures that the workers have run, each worker's in its order, with nothing lost
  and nothing doubled; and for a stream that one worker has served it is a prefix of the payloads
  that were received for the stream.
\<close>

theorem data_handled_in_order:
  assumes "NewLocalProxy h H S io dial cw mo options = (Inr (pc, env, s0), opened)"
    and "proxy_reaches pc env s0 s"
  shows "interleaves (lp_received s)
      (map (\<lambda>w. concat (map task_data (executed w))) (mg_workers (workerMng s))) \<and>
    mset (lp_received s) =
      mset (concat (map (\<lambda>w. concat (map task_data (executed w))) (mg_workers (workerMng s)))) \<and>
    (\<forall>sid i. one_worker s sid i \<longrightarrow>
       prefix (filter (\<lambda>x. fst x = sid) (lp_received s))
         (filter (\<lambda>x. fst x = sid) (concat (map task_data (cl_taken s)))))"
  using reaches_interleaves [OF assms] interleaves_mset [OF reaches_interleaves [OF assms]]
    received_of_worker [OF assms] by simp

theorem data_handled_in_order_witness:
  "prefix (filter (\<lambda>x. fst x = 7) (lp_received demo_s6))
     (filter (\<lambda>x. fst x = 7) (concat (map task_data (cl_taken demo_s6)))) \<and>
   lp_received demo_s6 = [(7, [1, 2])]"
proof -
  have "one_worker demo_s6 7 0" by (simp add: one_worker_def demo_s6_def)
  then show ?thesis
    using data_handled_in_order [OF demo_new [OF valid_mode_simps(2)] demo_delivers] demo_s6_fields(4)
    by blast
qed

end
