(* ===== verification/Cli.thy ===== *)
theory Cli
  imports Local_Proxy
begin

text \<open>
  The command \<^verbatim>\<open>mitra_localproxy\<close>: the arguments (\<^verbatim>\<open>cmd/mitra_localproxy/cli.go\<close>), the log level
  (\<^verbatim>\<open>cmd/common/common.go\<close>, \<^verbatim>\<open>log/log.go\<close>) and the way from the arguments to the options of the
  proxy (\<^verbatim>\<open>cmd/mitra_localproxy/main.go\<close>).  The flag parser is third-party code: what it found for
  a flag is a parameter, and so is \<^verbatim>\<open>url.Parse\<close>.
\<close>

section \<open>Log levels\<close>

datatype log_level = LevelDebug | LevelInfo | LevelWarn | LevelError

text \<open>The priorities of the constants, and the order they give.\<close>

fun log_priority :: "log_level \<Rightarrow> nat" where
  "log_priority LevelDebug = 1"
| "log_priority LevelInfo = 2"
| "log_priority LevelWarn = 3"
| "log_priority LevelError = 4"

lemma log_priority_inj: "log_priority a = log_priority b \<longleftrightarrow> a = b"
  by (cases a; cases b) simp_all

instantiation log_level :: linorder
begin

definition less_eq_log_level :: "log_level \<Rightarrow> log_level \<Rightarrow> bool" where
  "less_eq_log_level a b \<longleftrightarrow> log_priority a \<le> log_priority b"

definition less_log_level :: "log_level \<Rightarrow> log_level \<Rightarrow> bool" where
  "less_log_level a b \<longleftrightarrow> log_priority a < log_priority b"

instance
  by standard (auto simp: less_eq_log_level_def less_log_level_def log_priority_inj)

end

definition logLevelMap :: "string \<rightharpoonup> log_level" where
  "logLevelMap = [''debug'' \<mapsto> LevelDebug, ''info'' \<mapsto> LevelInfo, ''warn'' \<mapsto> LevelWarn,
                  ''error'' \<mapsto> LevelError]"

text \<open>
  The variables of package \<^verbatim>\<open>log\<close>: for each level, whether its functions write (they are
  \<^verbatim>\<open>NilLog\<close> and \<^verbatim>\<open>NilLogf\<close> at first), and whether lines show their place in the source.
  \<open>build\<close> is the error of zap's \<^verbatim>\<open>config.Build\<close>.
\<close>

record logger =
  log_on :: "log_level \<Rightarrow> bool"
  log_caller :: bool

definition nil_logger :: logger where
  "nil_logger = \<lparr>log_on = (\<lambda>l. False), log_caller = False\<rparr>"

datatype setup_error = InvalidLogLevel string | LoggerFailed string

definition SetupLogger :: "string option \<Rightarrow> string \<Rightarrow> logger \<Rightarrow> setup_error + logger" where
  "SetupLogger build logLevel lg =
     (case logLevelMap (ToLower logLevel) of
        None \<Rightarrow> Inl (InvalidLogLevel (ToLower logLevel))
      | Some priority \<Rightarrow>
          (case build of
             Some err \<Rightarrow> Inl (LoggerFailed err)
           | None \<Rightarrow> Inr \<lparr>log_on = (\<lambda>l. if priority \<le> l then True else log_on lg l),
                          log_caller = (priority \<le> LevelDebug)\<rparr>))"

section \<open>Arguments\<close>

record arguments =
  arg_endpoint :: string
  sourceServices :: string
  destinationServices :: string
  arg_token :: string
  skipSSLVerify :: bool
  logLevel :: string

text \<open>\<^verbatim>\<open>strconv.ParseBool\<close>.\<close>

definition ParseBool :: "string \<Rightarrow> bool option" where
  "ParseBool s =
     (if s \<in> {''1'', ''t'', ''T'', ''TRUE'', ''true'', ''True''} then Some True
      else if s \<in> {''0'', ''f'', ''F'', ''FALSE'', ''false'', ''False''} then Some False
      else None)"

text \<open>
  \<open>Getenv\<close> gives the empty text for a variable that is not set; \<open>flag\<close> and \<open>skip_flag\<close> are the
  flags on the command line.
\<close>

definition setupCLI :: "(string \<Rightarrow> string) \<Rightarrow> (string \<Rightarrow> string option) \<Rightarrow> bool option \<Rightarrow> arguments" where
  "setupCLI Getenv flag skip_flag =
     (let str = (\<lambda>name dflt. case flag name of Some v \<Rightarrow> v | None \<Rightarrow> dflt);
          skipVerify = (case ParseBool (Getenv ''MITRA_LOCALPROXY_SKIP_SSL_VERIFY'') of
                          None \<Rightarrow> False | Some b \<Rightarrow> b)
      in \<lparr>arg_endpoint = str ''endpoint'' (Getenv ''MITRA_LOCALPROXY_ENDPOINT''),
          sourceServices = str ''source-services'' (Getenv ''MITRA_LOCALPROXY_SOURCE_SERVICES''),
          destinationServices = str ''destination-services'' (Getenv ''MITRA_LOCALPROXY_DESTINATION_SERVICES''),
          arg_token = str ''token'' (Getenv ''MITRA_LOCALPROXY_TOKEN''),
          skipSSLVerify = (case skip_flag of Some b \<Rightarrow> b | None \<Rightarrow> skipVerify),
          logLevel = str ''log'' ''info''\<rparr>)"

text \<open>\<^verbatim>\<open>dump\<close>: the name and the shown value of every flag.\<close>

fun dump_flag :: "string \<times> string \<Rightarrow> string \<times> string" where
  "dump_flag (name, val) =
     (let val = (if name = ''token'' \<and> val \<noteq> '''' then ''*****'' else val)
      in (name, if val = '''' then ''[ empty ]'' else val))"

definition arguments_dump :: "(string \<times> string) list \<Rightarrow> (string \<times> string) list" where
  "arguments_dump flags = map dump_flag flags"

section \<open>Options\<close>

datatype cli_error =
    SetupFailed setup_error
  | EndpointRequired
  | EndpointInvalid string
  | TokenRequired
  | OneServiceOption
  | BadServices config_error
  | BadOptions options_error

text \<open>The constants of \<^verbatim>\<open>main.go\<close>, in nanoseconds.\<close>

definition Second :: duration where "Second = 1000000000"
definition endpointDialTimeout :: duration where "endpointDialTimeout = Second * 10"
definition localDialTimeout :: duration where "localDialTimeout = Second * 5"
definition endpointReconnectInterval :: duration where "endpointReconnectInterval = Second * 5"
definition cli_pingInterval :: duration where "cli_pingInterval = Second * 30"

definition createProxyOptions :: "(string \<Rightarrow> string + url) \<Rightarrow> arguments \<Rightarrow> cli_error + LocalProxyOptions" where
  "createProxyOptions Parse args =
     (if arg_endpoint args = '''' then Inl EndpointRequired
      else (case Parse (arg_endpoint args) of
          Inl err \<Rightarrow> Inl (EndpointInvalid err)
        | Inr u \<Rightarrow>
            if arg_token args = '''' then Inl TokenRequired
            else if sourceServices args = '''' \<and> destinationServices args = '''' then Inl OneServiceOption
            else if sourceServices args \<noteq> '''' \<and> destinationServices args \<noteq> '''' then Inl OneServiceOption
            else
              let (md, text) = (if sourceServices args \<noteq> '''' then (ModeSource, sourceServices args)
                                else (ModeDestination, destinationServices args))
              in (case ParseServiceConfig text of
                    Inl err \<Rightarrow> Inl (BadServices err)
                  | Inr configs \<Rightarrow>
                      Inr \<lparr>po_Mode = md, po_ServiceConfigs = configs, po_Endpoint = Some u,
                           po_Token = arg_token args,
                           po_TLSConfig = Some \<lparr>InsecureSkipVerify = skipSSLVerify args\<rparr>,
                           EndpointDialTimeout = endpointDialTimeout,
                           LocalDialTimeout = localDialTimeout,
                           EndpointReconnectInterval = endpointReconnectInterval,
                           po_PingInterval = cli_pingInterval\<rparr>)))"

text \<open>\<^verbatim>\<open>main\<close> up to the start of the proxy; each error ends the program with status 1.\<close>

definition main_start ::
  "string option \<Rightarrow> (string \<Rightarrow> string + url) \<Rightarrow> arguments \<Rightarrow> cli_error + logger \<times> LocalProxyOptions" where
  "main_start build Parse args =
     (case SetupLogger build (logLevel args) nil_logger of
        Inl err \<Rightarrow> Inl (SetupFailed err)
      | Inr lg \<Rightarrow>
          (case createProxyOptions Parse args of
             Inl err \<Rightarrow> Inl err
           | Inr options \<Rightarrow>
               (case LocalProxyOptions_Validate options of
                  Some err \<Rightarrow> Inl (BadOptions err)
                | None \<Rightarrow> Inr (lg, options))))"

section \<open>Properties\<close>

lemma ParseServiceConfig_nonempty: "ParseServiceConfig s = Inr configs \<Longrightarrow> configs \<noteq> []"
  by (cases "split_on '','' s") (auto simp: ParseServiceConfig_def split: sum.splits)

lemma createProxyOptions_Inr:
  "createProxyOptions Parse args = Inr options \<longleftrightarrow>
     arg_endpoint args \<noteq> '''' \<and> arg_token args \<noteq> '''' \<and>
     (sourceServices args = '''' \<longleftrightarrow> destinationServices args \<noteq> '''') \<and>
     (\<exists>u configs. Parse (arg_endpoint args) = Inr u \<and>
        ParseServiceConfig (sourceServices args @ destinationServices args) = Inr configs \<and>
        options = \<lparr>po_Mode = (if sourceServices args \<noteq> '''' then ModeSource else ModeDestination),
          po_ServiceConfigs = configs, po_Endpoint = Some u, po_Token = arg_token args,
          po_TLSConfig = Some \<lparr>InsecureSkipVerify = skipSSLVerify args\<rparr>,
          EndpointDialTimeout = endpointDialTimeout, LocalDialTimeout = localDialTimeout,
          EndpointReconnectInterval = endpointReconnectInterval, po_PingInterval = cli_pingInterval\<rparr>)"
  by (cases "sourceServices args = ''''"; cases "destinationServices args = ''''")
    (auto simp: createProxyOptions_def split: sum.splits)

lemma created_options_valid:
  assumes "configs \<noteq> []" and "tok \<noteq> []"
  shows "LocalProxyOptions_Validate \<lparr>po_Mode = (if b then ModeSource else ModeDestination),
          po_ServiceConfigs = configs, po_Endpoint = Some u, po_Token = tok,
          po_TLSConfig = tc, EndpointDialTimeout = d1, LocalDialTimeout = d2,
          EndpointReconnectInterval = d3, po_PingInterval = d4\<rparr> = None \<longleftrightarrow>
    Scheme u = ''ws'' \<or> Scheme u = ''wss''"
  using assms by (simp add: LocalProxyOptions_Validate_def)

text \<open>
  C24 (functional): when the command starts, and with what.  The proxy is started exactly when the
  log level is one of the four (in any case), endpoint and token are given, the endpoint is a
  websocket URL, exactly one of the two service options is given and its text is a list of
  services.  The mode is then that of the option, the services are those of the text, no check of
  \<^verbatim>\<open>Validate\<close> but that of the scheme can fail, and exactly the messages of the given level and
  above are written.
\<close>

theorem main_starts_iff:
  "main_start None Parse args = Inr (lg, options) \<longleftrightarrow>
     (\<exists>level u configs.
        logLevelMap (ToLower (logLevel args)) = Some level \<and>
        arg_endpoint args \<noteq> '''' \<and> arg_token args \<noteq> '''' \<and>
        Parse (arg_endpoint args) = Inr u \<and> (Scheme u = ''ws'' \<or> Scheme u = ''wss'') \<and>
        (sourceServices args = '''' \<longleftrightarrow> destinationServices args \<noteq> '''') \<and>
        ParseServiceConfig (sourceServices args @ destinationServices args) = Inr configs \<and>
        options = \<lparr>po_Mode = (if sourceServices args \<noteq> '''' then ModeSource else ModeDestination),
          po_ServiceConfigs = configs, po_Endpoint = Some u, po_Token = arg_token args,
          po_TLSConfig = Some \<lparr>InsecureSkipVerify = skipSSLVerify args\<rparr>,
          EndpointDialTimeout = endpointDialTimeout, LocalDialTimeout = localDialTimeout,
          EndpointReconnectInterval = endpointReconnectInterval, po_PingInterval = cli_pingInterval\<rparr> \<and>
        lg = \<lparr>log_on = (\<lambda>l. level \<le> l), log_caller = (level = LevelDebug)\<rparr>)"
proof -
  have caller: "level \<le> LevelDebug \<longleftrightarrow> level = LevelDebug" for level
    by (cases level) (simp_all add: less_eq_log_level_def)
  have lg: "SetupLogger None (logLevel args) nil_logger = Inr lg \<longleftrightarrow>
      (\<exists>level. logLevelMap (ToLower (logLevel args)) = Some level \<and>
         lg = \<lparr>log_on = (\<lambda>l. level \<le> l), log_caller = (level = LevelDebug)\<rparr>)" for lg
    by (auto simp: SetupLogger_def nil_logger_def caller split: option.splits)
  have m: "main_start None Parse args = Inr (lg, options) \<longleftrightarrow>
      SetupLogger None (logLevel args) nil_logger = Inr lg \<and>
      createProxyOptions Parse args = Inr options \<and> LocalProxyOptions_Validate options = None"
    by (auto simp: main_start_def split: sum.splits option.splits)
  show ?thesis (is "_ \<longleftrightarrow> ?r")
  proof
    assume "main_start None Parse args = Inr (lg, options)"
    note x = this [unfolded m lg createProxyOptions_Inr]
    from x obtain level where level: "logLevelMap (ToLower (logLevel args)) = Some level"
      "lg = \<lparr>log_on = (\<lambda>l. level \<le> l), log_caller = (level = LevelDebug)\<rparr>"
      by blast
    from x obtain u configs where opt: "Parse (arg_endpoint args) = Inr u"
      "ParseServiceConfig (sourceServices args @ destinationServices args) = Inr configs"
      "options = \<lparr>po_Mode = (if sourceServices args \<noteq> '''' then ModeSource else ModeDestination),
          po_ServiceConfigs = configs, po_Endpoint = Some u, po_Token = arg_token args,
          po_TLSConfig = Some \<lparr>InsecureSkipVerify = skipSSLVerify args\<rparr>,
          EndpointDialTimeout = endpointDialTimeout, LocalDialTimeout = localDialTimeout,
          EndpointReconnectInterval = endpointReconnectInterval, po_PingInterval = cli_pingInterval\<rparr>"
      by blast
    from x have a: "arg_endpoint args \<noteq> ''''" "arg_token args \<noteq> ''''"
      "sourceServices args = '''' \<longleftrightarrow> destinationServices args \<noteq> ''''"
      and v: "LocalProxyOptions_Validate options = None"
      by blast+
    have sch: "Scheme u = ''ws'' \<or> Scheme u = ''wss''"
      using v opt(3) created_options_valid [OF ParseServiceConfig_nonempty [OF opt(2)] a(2)] by simp
    show ?r
      by (rule exI [of _ level], rule exI [of _ u], rule exI [of _ configs], intro conjI)
        (fact level opt a sch)+
  next
    assume ?r
    then obtain level u configs where level: "logLevelMap (ToLower (logLevel args)) = Some level"
      "lg = \<lparr>log_on = (\<lambda>l. level \<le> l), log_caller = (level = LevelDebug)\<rparr>"
      and a: "arg_endpoint args \<noteq> ''''" "arg_token args \<noteq> ''''"
      "sourceServices args = '''' \<longleftrightarrow> destinationServices args \<noteq> ''''"
      and opt: "Parse (arg_endpoint args) = Inr u"
      "ParseServiceConfig (sourceServices args @ destinationServices args) = Inr configs"
      "options = \<lparr>po_Mode = (if sourceServices args \<noteq> '''' then ModeSource else ModeDestination),
          po_ServiceConfigs = configs, po_Endpoint = Some u, po_Token = arg_token args,
          po_TLSConfig = Some \<lparr>InsecureSkipVerify = skipSSLVerify args\<rparr>,
          EndpointDialTimeout = endpointDialTimeout, LocalDialTimeout = localDialTimeout,
          EndpointReconnectInterval = endpointReconnectInterval, po_PingInterval = cli_pingInterval\<rparr>"
      and sch: "Scheme u = ''ws'' \<or> Scheme u = ''wss''"
      by (elim exE conjE) (rule that)
    have "createProxyOptions Parse args = Inr options"
      unfolding createProxyOptions_Inr using a opt by blast
    moreover have "LocalProxyOptions_Validate options = None"
      using sch opt(3) created_options_valid [OF ParseServiceConfig_nonempty [OF opt(2)] a(2)] by simp
    moreover have "SetupLogger None (logLevel args) nil_logger = Inr lg"
      unfolding lg using level by blast
    ultimately show "main_start None Parse args = Inr (lg, options)" unfolding m by blast
  qed
qed

end
