(* ===== verification/Peer_Forwarding.thy ===== *)
theory Peer_Forwarding
  imports Peer_Con_Manager
begin

text \<open>
  What the server forwards over a whole run of \<^verbatim>\<open>Peer_Con_Manager\<close>: from what the reader of a
  connection reads (\<open>pc_received\<close>), over the channel of the connection that it is associated with
  at the moment (\<open>pc_passed\<close>, \<open>pc_accepted\<close>), to what the writer of that connection sends
  (\<open>pc_sent\<close>), however connections come, are replaced and go meanwhile.
\<close>

section \<open>The history invariant\<close>

text \<open>The part of a history that has to do with one connection.\<close>

definition of_con :: "nat \<Rightarrow> (nat option \<times> message) list \<Rightarrow> message list" where
  "of_con i xs = map snd (filter (\<lambda>x. fst x = Some i) xs)"

lemma of_con_append [simp]: "of_con i (xs @ ys) = of_con i xs @ of_con i ys"
  by (simp add: of_con_def)

lemma of_con_one [simp]: "of_con i [(k, m)] = (if k = Some i then [m] else [])"
  "of_con i [] = []"
  by (simp_all add: of_con_def)

lemma of_con_Nil: "(\<And>m. (Some i, m) \<notin> set xs) \<Longrightarrow> of_con i xs = []"
  by (auto simp: of_con_def filter_empty_conv)

definition in_reader :: "peerConnection \<Rightarrow> message list" where
  "in_reader c = (case pc_read c of None \<Rightarrow> [] | Some m \<Rightarrow> [m])"

definition passed_ok :: "peerConManager \<Rightarrow> nat \<Rightarrow> bool" where
  "passed_ok pm i \<longleftrightarrow>
     pc_received (con pm i) = map snd (pc_passed (con pm i)) @ in_reader (con pm i) \<and>
     (\<forall>j m. (Some j, m) \<in> set (pc_passed (con pm i)) \<longrightarrow>
        j < length (pm_cons pm) \<and> pc_key (con pm j) = otherKey (pc_key (con pm i)))"

definition channel_ok :: "peerConManager \<Rightarrow> nat \<Rightarrow> bool" where
  "channel_ok pm j \<longleftrightarrow>
     (\<forall>i < length (pm_cons pm). of_con i (pc_accepted (con pm j)) = of_con j (pc_passed (con pm i))) \<and>
     (\<forall>i m. (Some i, m) \<in> set (pc_accepted (con pm j)) \<longrightarrow>
        i < length (pm_cons pm) \<and> pc_key (con pm i) = otherKey (pc_key (con pm j)))"

definition forward_ok :: "peerConManager \<Rightarrow> bool" where
  "forward_ok pm \<longleftrightarrow> (\<forall>i < length (pm_cons pm). passed_ok pm i \<and> channel_ok pm i)"

lemma forward_okD:
  assumes "forward_ok pm" and "k < length (pm_cons pm)"
  shows "pc_received (con pm k) = map snd (pc_passed (con pm k)) @ in_reader (con pm k)"
    "(Some j, m) \<in> set (pc_passed (con pm k)) \<Longrightarrow>
       j < length (pm_cons pm) \<and> pc_key (con pm j) = otherKey (pc_key (con pm k))"
    "i < length (pm_cons pm) \<Longrightarrow> of_con i (pc_accepted (con pm k)) = of_con k (pc_passed (con pm i))"
    "(Some j, m) \<in> set (pc_accepted (con pm k)) \<Longrightarrow>
       j < length (pm_cons pm) \<and> pc_key (con pm j) = otherKey (pc_key (con pm k))"
  using assms unfolding forward_ok_def passed_ok_def channel_ok_def by blast+

text \<open>A step that changes neither what was passed nor what was accepted from readers.\<close>

lemma forward_ok_keep:
  assumes "forward_ok pm" and "length (pm_cons pm') = length (pm_cons pm)"
    and "\<And>k. pc_key (con pm' k) = pc_key (con pm k)"
    and "\<And>k. pc_passed (con pm' k) = pc_passed (con pm k)"
    and "\<And>k. filter (\<lambda>x. fst x \<noteq> None) (pc_accepted (con pm' k)) =
      filter (\<lambda>x. fst x \<noteq> None) (pc_accepted (con pm k))"
    and "\<And>k. k < length (pm_cons pm) \<Longrightarrow>
      pc_received (con pm' k) = map snd (pc_passed (con pm k)) @ in_reader (con pm' k)"
  shows "forward_ok pm'"
proof -
  have acc: "of_con i (pc_accepted (con pm' k)) = of_con i (pc_accepted (con pm k))" for i k
  proof -
    have "of_con i xs = of_con i (filter (\<lambda>x. fst x \<noteq> None) xs)" for xs
      by (simp add: of_con_def) (metis (mono_tags, lifting) filter_cong option.distinct(1))
    then show ?thesis using assms(5) by metis
  qed
  have mem: "(Some i, m) \<in> set (pc_accepted (con pm' k)) \<longleftrightarrow> (Some i, m) \<in> set (pc_accepted (con pm k))"
    for i m k
  proof -
    have "(Some i, m) \<in> set xs \<longleftrightarrow> (Some i, m) \<in> set (filter (\<lambda>x. fst x \<noteq> None) xs)"
      for xs :: "(nat option \<times> message) list" by simp
    then show ?thesis using assms(5) by metis
  qed
  show ?thesis
    unfolding forward_ok_def passed_ok_def channel_ok_def assms(2,3,4) acc mem
    using assms(6) forward_okD(2,3,4) [OF assms(1)] by blast
qed

text \<open>What the invariant sees of a connection.\<close>

definition seen :: "peerConnection \<Rightarrow> _" where
  "seen c = (pc_key c, pc_accepted c, pc_received c, pc_passed c, pc_read c)"

lemma seen_eq:
  "seen c = seen d \<longleftrightarrow> pc_key c = pc_key d \<and> pc_accepted c = pc_accepted d \<and>
     pc_received c = pc_received d \<and> pc_passed c = pc_passed d \<and> pc_read c = pc_read d"
  by (auto simp: seen_def)

lemma forward_ok_same:
  assumes "forward_ok pm" and "length (pm_cons pm') = length (pm_cons pm)"
    and "\<And>i. i < length (pm_cons pm) \<Longrightarrow> seen (con pm' i) = seen (con pm i)"
  shows "forward_ok pm'"
proof -
  have "passed_ok pm' i = passed_ok pm i" "channel_ok pm' i = channel_ok pm i"
    if "i < length (pm_cons pm)" for i
    using assms(2) assms(3) [OF that] assms(3)
    by (auto simp: passed_ok_def channel_ok_def in_reader_def seen_eq)
  then show ?thesis using assms(1,2) by (simp add: forward_ok_def)
qed

lemma forward_ok_upd:
  "forward_ok pm \<Longrightarrow> seen (f (con pm i)) = seen (con pm i) \<Longrightarrow> forward_ok (upd_con i f pm)"
  by (rule forward_ok_same) (auto simp: con_upd_con)

lemma seen_simps [simp]:
  "seen (peerCon_close ok c) = seen c" "seen (associate w c) = seen c"
  "seen (run_start ok c) = seen c" "seen (run_end ok c) = seen c" "seen (write_one c) = seen c"
  "seen (write_fail c) = seen c"
  by (auto simp: seen_def peerCon_close_def associate_def run_start_def run_end_def write_one_def
      write_fail_def split: list.splits)

lemma forward_ok_close_keys:
  "forward_ok pm \<Longrightarrow> forward_ok (close_keys control_ok expired order pm)"
proof (induction control_ok expired order pm rule: close_keys.induct)
  case (2 control_ok expired key order pm)
  have "forward_ok (upd_con i (peerCon_close ok) pm)" for i ok
    by (rule forward_ok_upd [OF 2(2)]) simp
  then show ?case using 2 by (auto split: option.splits)
qed simp

lemma forward_ok_connect_begin:
  assumes "forward_ok pm" and "map_ok pm" and "valid_mode (snd key)"
  shows "forward_ok (connect_begin ok key ids pm)"
proof -
  let ?pm = "connect_begin ok key ids pm" and ?n = "length (pm_cons pm)"
  note c = connect_begin_con [OF assms(2,3), where ok = ok and ids = ids]
  have old: "seen (con ?pm i) = seen (con pm i)" if "i < ?n" for i
    using that c(4) [of i] by auto
  have new: "pc_accepted (con ?pm ?n) = []" "pc_received (con ?pm ?n) = []"
    "pc_passed (con ?pm ?n) = []" "pc_read (con ?pm ?n) = None"
    using c(4) [of ?n] by (simp_all add: associate_def newPeerConnection_def)
  have nobody: "of_con ?n (pc_accepted (con pm i)) = []" "of_con ?n (pc_passed (con pm i)) = []"
    if i: "i < ?n" for i
  proof -
    have "passed_ok pm i" "channel_ok pm i" using assms(1) i by (simp_all add: forward_ok_def)
    then have "(Some ?n, m) \<notin> set (pc_accepted (con pm i))" "(Some ?n, m) \<notin> set (pc_passed (con pm i))" for m
      unfolding passed_ok_def channel_ok_def by blast+
    then show "of_con ?n (pc_accepted (con pm i)) = []" "of_con ?n (pc_passed (con pm i)) = []"
      by (intro of_con_Nil; blast)+
  qed
  have "passed_ok ?pm i \<and> channel_ok ?pm i" if i: "i < ?n" for i
  proof
    have o: "passed_ok pm i" "channel_ok pm i" using assms(1) i by (simp_all add: forward_ok_def)
    have key: "pc_key (con ?pm k) = pc_key (con pm k)" if "k < ?n" for k
      using old [OF that] by (simp add: seen_eq)
    have hist: "pc_received (con ?pm i) = pc_received (con pm i)"
      "pc_passed (con ?pm i) = pc_passed (con pm i)" "in_reader (con ?pm i) = in_reader (con pm i)"
      "pc_accepted (con ?pm i) = pc_accepted (con pm i)"
      using old [OF i] by (simp_all add: seen_eq in_reader_def)
    show "passed_ok ?pm i"
      using o(1) key i unfolding passed_ok_def hist c(2) by (metis less_SucI)
    have "of_con k (pc_accepted (con pm i)) = of_con i (pc_passed (con ?pm k))" if "k < Suc ?n" for k
    proof (cases "k = ?n")
      case True
      then show ?thesis using nobody(1) [OF i] new(3) by simp
    next
      case False
      then have "k < ?n" using that by simp
      then show ?thesis using o(2) old [of k] by (simp add: channel_ok_def seen_eq)
    qed
    then show "channel_ok ?pm i"
      using o(2) key i unfolding channel_ok_def hist c(2) by (metis less_SucI)
  qed
  moreover have "passed_ok ?pm ?n"
    by (simp add: passed_ok_def in_reader_def new)
  moreover have "channel_ok ?pm ?n"
    using old nobody(2) by (auto simp: channel_ok_def new c(2) less_Suc_eq seen_eq)
  ultimately show ?thesis by (auto simp: forward_ok_def c(2) less_Suc_eq)
qed

lemma forward_ok_section:
  assumes "forward_ok pm" and "peer_inv pm" and "section_ready w pm"
  shows "forward_ok (section_effect ok w pm)"
proof (cases w)
  case (Connecting key ids)
  then show ?thesis
    using forward_ok_connect_begin [OF assms(1)] assms(2,3) by (simp add: peer_inv_def)
next
  case (Leaving i)
  have m: "map_ok pm" and v: "valid_mode (snd (pc_key (con pm i)))"
    using assms Leaving by (auto simp: peer_inv_def con_ok_def)
  have "seen (con (connect_end i pm) j) = seen (con pm j)" for j
    using connect_end_con(4) [OF m v, of j] assms(3) Leaving by (simp add: seen_def associate_def)
  then show ?thesis
    using forward_ok_same [OF assms(1)] connect_end_con(1) [OF m] Leaving by simp
qed

text \<open>A message that the reader of \<open>i\<close> holds goes to the channel of \<open>a\<close>, or nowhere.\<close>

lemma forward_ok_forward:
  assumes "forward_ok pm" and "i < length (pm_cons pm)" and "pc_read (con pm i) = Some m"
    and "length (pm_cons pm') = length (pm_cons pm)"
    and "\<And>j. a = Some j \<Longrightarrow> j < length (pm_cons pm) \<and> pc_key (con pm j) = otherKey (pc_key (con pm i))"
    and "\<And>k. k < length (pm_cons pm) \<Longrightarrow>
      pc_key (con pm' k) = pc_key (con pm k) \<and> pc_received (con pm' k) = pc_received (con pm k) \<and>
      pc_accepted (con pm' k) = pc_accepted (con pm k) @ (if a = Some k then [(Some i, m)] else []) \<and>
      pc_passed (con pm' k) = pc_passed (con pm k) @ (if k = i then [(a, m)] else []) \<and>
      pc_read (con pm' k) = (if k = i then None else pc_read (con pm k))"
    and "valid_mode (snd (pc_key (con pm i)))"
  shows "forward_ok pm'"
  unfolding forward_ok_def assms(4)
proof (intro allI impI conjI)
  fix k assume k: "k < length (pm_cons pm)"
  have o: "passed_ok pm k" "channel_ok pm k" using assms(1) k by (simp_all add: forward_ok_def)
  show "passed_ok pm' k"
    unfolding passed_ok_def assms(4)
  proof (intro conjI allI impI)
    show "pc_received (con pm' k) = map snd (pc_passed (con pm' k)) @ in_reader (con pm' k)"
      using o(1) assms(3) assms(6) [OF k] by (auto simp: passed_ok_def in_reader_def)
    fix j l assume "(Some j, l) \<in> set (pc_passed (con pm' k))"
    then have "(Some j, l) \<in> set (pc_passed (con pm k)) \<or> k = i \<and> a = Some j"
      using assms(6) [OF k] by (auto split: if_splits)
    then have j: "j < length (pm_cons pm) \<and> pc_key (con pm j) = otherKey (pc_key (con pm k))"
      using o(1) assms(5) unfolding passed_ok_def by blast
    then show "j < length (pm_cons pm)" "pc_key (con pm' j) = otherKey (pc_key (con pm' k))"
      using assms(6) [of j] assms(6) [OF k] by simp_all
  qed
  show "channel_ok pm' k"
    unfolding channel_ok_def assms(4)
  proof (intro conjI allI impI)
    fix j assume j: "j < length (pm_cons pm)"
    have "of_con j (pc_accepted (con pm k)) = of_con k (pc_passed (con pm j))"
      using o(2) j by (simp add: channel_ok_def)
    then show "of_con j (pc_accepted (con pm' k)) = of_con k (pc_passed (con pm' j))"
      using assms(6) [OF k] assms(6) [OF j] by auto
  next
    fix j l assume "(Some j, l) \<in> set (pc_accepted (con pm' k))"
    then have "(Some j, l) \<in> set (pc_accepted (con pm k)) \<or> j = i \<and> a = Some k"
      using assms(6) [OF k] by (auto split: if_splits)
    then have j: "j < length (pm_cons pm) \<and> pc_key (con pm j) = otherKey (pc_key (con pm k))"
      using o(2) assms(2,5,7) unfolding channel_ok_def by (metis otherKey_otherKey)
    then show "j < length (pm_cons pm)" "pc_key (con pm' j) = otherKey (pc_key (con pm' k))"
      using assms(6) [of j] assms(6) [OF k] by simp_all
  qed
qed

lemma forward_ok_reads:
  assumes "forward_ok pm" and "pc_read (con pm i) = None"
  shows "forward_ok (upd_con i (\<lambda>c. c\<lparr>pc_read := Some m, pc_received := pc_received c @ [m]\<rparr>) pm)"
    (is "forward_ok ?pm")
  by (rule forward_ok_keep [OF assms(1)])
    (use assms(2) forward_okD(1) [OF assms(1)] in \<open>auto simp: con_upd_con in_reader_def\<close>)

lemma forward_ok_debug:
  assumes "forward_ok pm" and "asyncWrite None m (con pm i) = Return c"
  shows "forward_ok (pm\<lparr>pm_cons := (pm_cons pm)[i := c]\<rparr>)" (is "forward_ok ?pm")
proof -
  have pm: "?pm = upd_con i (\<lambda>_. c) pm" by (simp add: upd_con_def)
  have c: "pc_key c = pc_key (con pm i)" "pc_received c = pc_received (con pm i)"
    "pc_passed c = pc_passed (con pm i)" "pc_read c = pc_read (con pm i)"
    "pc_accepted c = pc_accepted (con pm i) @ [(None, m)]"
    using assms(2) by (auto simp: asyncWrite_Return)
  show ?thesis
    unfolding pm
    by (rule forward_ok_keep [OF assms(1)])
      (use forward_okD(1) [OF assms(1)] in \<open>auto simp: con_upd_con c in_reader_def\<close>)
qed

lemma peer_step_forward:
  assumes "peer_step pm pm'" and "manager_inv pm" and "forward_ok pm"
  shows "forward_ok pm'"
  using assms(1)
proof cases
  case (section_runs w ok)
  then show ?thesis using assms(2,3) forward_ok_section by (simp add: manager_inv_def)
next
  case (section_waits w)
  then show ?thesis using forward_ok_same [OF assms(3)] by simp
next
  case (section_resumes w ok)
  then have "forward_ok (section_effect ok w pm)"
    using assms(2,3) forward_ok_section by (simp add: manager_inv_def waiter_ok_def)
  then show ?thesis unfolding section_resumes(1) by (rule forward_ok_same) simp_all
next
  case (reads i m)
  then show ?thesis using forward_ok_reads [OF assms(3)] by simp
next
  case (forwards i m pm1)
  have inv: "peer_inv pm" using assms(2) by (simp add: manager_inv_def)
  have assoc: "j < length (pm_cons pm) \<and> pc_key (con pm j) = otherKey (pc_key (con pm i))"
    if "pc_associated (con pm i) = Some j" for j
    using inv that forwards(2) by (auto simp: peer_inv_def assoc_ok_def)
  have v: "valid_mode (snd (pc_key (con pm i)))"
    using inv forwards(2) by (simp add: peer_inv_def con_ok_def)
  then have neq: "pc_associated (con pm i) \<noteq> Some i" using assoc otherKey_neq by metis
  show ?thesis
  proof (rule forward_ok_forward [OF assms(3) _ forwards(3) _ assoc _ v])
    show "i < length (pm_cons pm)" using forwards(2) by simp
    show "length (pm_cons pm') = length (pm_cons pm)"
      using forwards(1,4) by (auto simp: writeToAssociated_def split: option.splits outcome.splits)
    show "pc_key (con pm' k) = pc_key (con pm k) \<and> pc_received (con pm' k) = pc_received (con pm k) \<and>
      pc_accepted (con pm' k) = pc_accepted (con pm k) @
        (if pc_associated (con pm i) = Some k then [(Some i, m)] else []) \<and>
      pc_passed (con pm' k) = pc_passed (con pm k) @
        (if k = i then [(pc_associated (con pm i), m)] else []) \<and>
      pc_read (con pm' k) = (if k = i then None else pc_read (con pm k))"
      if "k < length (pm_cons pm)" for k
      using forwards(1,4) neq that
      by (auto simp: writeToAssociated_def con_upd_con asyncWrite_Return nth_list_update
          split: option.splits outcome.splits)
  qed
next
  case (debug_send tunnelID md m)
  then show ?thesis
    using forward_ok_debug [OF assms(3)]
    by (auto simp: sendToPeer_def split: option.splits outcome.splits)
next
  case (expires control_ok now store order)
  then show ?thesis using assms(3) by (simp add: closeExpiredConnection_def forward_ok_close_keys)
next
  case (starts i ok)
  then show ?thesis using forward_ok_upd [OF assms(3)] by simp
next
  case (waits_for_room i m)
  show ?thesis unfolding waits_for_room(1) by (rule forward_ok_upd [OF assms(3)]) (simp add: seen_def)
next
  case (writes i)
  then show ?thesis using forward_ok_upd [OF assms(3)] by simp
next
  case (reader_ends i)
  show ?thesis unfolding reader_ends(1) by (rule forward_ok_upd [OF assms(3)]) (simp add: seen_def)
next
  case (write_fails i)
  then show ?thesis using forward_ok_upd [OF assms(3)] by simp
next
  case (writer_ends i)
  show ?thesis unfolding writer_ends(1) by (rule forward_ok_upd [OF assms(3)]) (simp add: seen_def)
next
  case (run_closes i ok)
  then show ?thesis using forward_ok_upd [OF assms(3)] by simp
next
  case (peer_drops i)
  show ?thesis unfolding peer_drops(1) by (rule forward_ok_upd [OF assms(3)]) (simp add: seen_def)
next
  case (stops i ok)
  then show ?thesis using forward_ok_upd [OF assms(3)] by simp
qed

interpretation forwarding: invariant_system peer_init peer_step "\<lambda>pm. manager_inv pm \<and> forward_ok pm"
proof
  show "manager_inv pm \<and> forward_ok pm" if "peer_init pm" for pm
    using that peer_machine.init_inv by (simp add: peer_init_def forward_ok_def)
qed (use peer_step_inv peer_step_forward in blast)

section \<open>Properties\<close>

text \<open>
  C18 (functional): the server forwards in order, within the tunnel, and loses a message only with
  a failed write.  In every reachable state, what was written to the websocket of a connection is
  its service ids message followed by the first messages that its channel took; then comes the
  one message whose write failed, if there was one, after which nothing is written any more; the
  rest, at most ten, waits in the channel.  The channel took messages from connections of the same tunnel and the other mode
  only (and from the debug handler); from each of them exactly the messages that this
  connection's reader passed to it, in their order; and every message that a reader read was
  passed on once, but for the one it holds.  This holds for connections that were replaced or are
  gone, too.
\<close>

theorem messages_forwarded_in_order:
  assumes "reachable peer_init peer_step pm" and "j < length (pm_cons pm)"
  shows "(pc_sent (con pm j) = [] \<or> hd (pc_sent (con pm j)) = serviceIDsMsg (pc_serviceIDs (con pm j))) \<and>
    map snd (pc_accepted (con pm j)) =
      tl (pc_sent (con pm j)) @ pc_lost (con pm j) @ pc_chMessage (con pm j) \<and>
    length (pc_chMessage (con pm j)) \<le> 10 \<and>
    length (pc_lost (con pm j)) \<le> 1 \<and> (pc_lost (con pm j) \<noteq> [] \<longrightarrow> \<not> pc_writing (con pm j)) \<and>
    (\<forall>i m. (Some i, m) \<in> set (pc_accepted (con pm j)) \<longrightarrow>
       i < length (pm_cons pm) \<and> pc_key (con pm i) = otherKey (pc_key (con pm j))) \<and>
    (\<forall>i < length (pm_cons pm).
       of_con i (pc_accepted (con pm j)) = of_con j (pc_passed (con pm i)) \<and>
       pc_received (con pm i) = map snd (pc_passed (con pm i)) @ in_reader (con pm i))"
proof -
  have inv: "manager_inv pm" "forward_ok pm"
    using forwarding.reachable_inv [OF assms(1)] by simp_all
  have "con_ok (con pm j)" using inv(1) assms(2) by (simp add: manager_inv_def peer_inv_def)
  then show ?thesis
    using forward_okD(3,4) [OF inv(2) assms(2)] forward_okD(1) [OF inv(2)]
    by (auto simp: con_ok_def chan_cap_def)
qed

text \<open>The second of two paired connections is sent what the first reads.\<close>

definition relayed :: "message \<Rightarrow> peerConManager" where
  "relayed m = upd_con 1 write_one (passing_of m
     (upd_con 1 (\<lambda>c. c\<lparr>pc_chMessage := [m], pc_accepted := [(Some 0, m)]\<rparr>)
       (reading_of m (upd_con 1 (run_start True) paired))))"

lemma relayed_con:
  "length (pm_cons (relayed m)) = 2" "pc_received (con (relayed m) 0) = [m]"
  "pc_passed (con (relayed m) 0) = [(Some 1, m)]" "pc_accepted (con (relayed m) 1) = [(Some 0, m)]"
  "pc_sent (con (relayed m) 1) = [serviceIDsMsg [], m]" "pc_read (con (relayed m) 0) = None"
  "pc_chMessage (con (relayed m) 1) = []" "pc_lost (con (relayed m) 1) = []"
  by (simp_all add: relayed_def con_upd_con paired_con run_start_def write_one_def
      newPeerConnection_def)

lemma relayed_reachable: "reachable peer_init peer_step (relayed m)"
proof -
  let ?a = "upd_con 1 (run_start True) paired"
  let ?b = "reading_of m ?a"
  let ?c = "upd_con 1 (\<lambda>c. c\<lparr>pc_chMessage := [m], pc_accepted := [(Some 0, m)]\<rparr>) ?b"
  have a: "peer_step paired ?a" by (rule starts) (simp_all add: paired_con)
  have b: "peer_step ?a ?b" by (rule reads) (simp_all add: paired_con con_upd_con)
  have "writeToAssociated 0 m ?b = Return ?c"
    by (simp add: writeToAssociated_def con_upd_con paired_con run_start_def asyncWrite_def
        chan_cap_def newPeerConnection_def) (simp add: upd_con_def paired_con run_start_def
        newPeerConnection_def)
  then have c: "peer_step ?b (passing_of m ?c)"
    by (intro forwards) (simp_all add: paired_con con_upd_con)
  have "peer_step (passing_of m ?c) (relayed m)"
    unfolding relayed_def by (rule writes) (simp_all add: paired_con con_upd_con run_start_def)
  from peer_reach [OF peer_reach [OF peer_reach [OF peer_reach [OF paired_reachable a] b] c] this]
  show ?thesis .
qed

theorem messages_forwarded_in_order_witness:
  "of_con 0 (pc_accepted (con (relayed zero_message) 1)) = [zero_message] \<and>
   tl (pc_sent (con (relayed zero_message) 1)) = [zero_message]"
  using messages_forwarded_in_order [OF relayed_reachable, of 1 zero_message]
  by (simp add: relayed_con [unfolded One_nat_def])

end
