(* ===== verification/End_To_End.thy ===== *)
theory End_To_End
  imports Proxy_Delivery Cli Tunnel_Lifecycle Peer_Forwarding
begin

text \<open>
  Properties that span the program: the bytes of the local programs through the sockets, the
  client, the wire, the server, and the client and the sockets of the other side; and the answers of the server's connect
  handler through the retry loop of the client.
\<close>

section \<open>The wire\<close>

text \<open>
  What protobuf promises of the size of a message: the fields other than the texts and the payload
  take a fixed number of bytes.
\<close>

definition small_overhead :: "(message \<Rightarrow> string + bytes) \<Rightarrow> bool" where
  "small_overhead marshal \<longleftrightarrow>
     (\<forall>m b. AvailableServiceIds m = [] \<and> marshal m = Inr b \<longrightarrow>
        length b \<le> length (Payload m) + length (ServiceId m) + 64)"

lemma wire_sizes:
  assumes "wire_ok io s" and "small_overhead (env_marshal io)"
    and "\<forall>m \<in> set (cl_sent s). length (ServiceId m) \<le> 32000"
  shows "\<forall>b \<in> set (cl_wire s). length b \<le> 65535"
proof
  fix bin
  assume "bin \<in> set (cl_wire s)"
  then have "Inr bin \<in> set (map (SerializeMessage (env_marshal io)) (cl_sent s))"
    using assms(1) by (simp add: wire_ok_def)
  then obtain m where m: "m \<in> set (cl_sent s)" "SerializeMessage (env_marshal io) m = Inr bin" by auto
  then obtain b where b: "env_marshal io m = Inr b" "bin = add_size b" by (auto simp: SerializeMessage_Inr)
  have "AvailableServiceIds m = []" "length (Payload m) \<le> 32768"
    using assms(1) m(1) by (auto simp: wire_ok_def readBufSize_def)
  then have "length b \<le> 32768 + 32000 + 64"
    using assms(2,3) m(1) b(1) unfolding small_overhead_def by fastforce
  then show "length bin \<le> 65535" using b(2) by simp
qed

text \<open>
  C3 (roundtrip): the other side reads exactly what the local programs wrote.  Whatever the
  goroutines of the proxy did, and however its bytes are cut into frames on the way, the messages
  it sent are read back in order with nothing left over (no length prefix wraps, so the reader does
  not panic), and the Data payloads read for a stream are what the stream's local connections
  handed over.
\<close>

theorem peer_reads_local_data:
  assumes "NewLocalProxy h H S io dial cw mo options = (Inr (pc, env, s0), opened)"
    and "proxy_reaches pc env s0 s"
    and "codec_roundtrip (env_marshal io) unmarshal" and "small_overhead (env_marshal io)"
    and "\<forall>m \<in> set (cl_sent s). length (ServiceId m) \<le> 32000"
    and "concat chunks = concat (cl_wire s)"
  shows "\<exists>ms r. read_messages unmarshal (length (cl_sent s)) (ws_reader (map binary_frame chunks)) =
      Some (ms, r) \<and> messageBin r = [] \<and> ms = cl_sent s \<and>
    (\<forall>sid. concat (map Payload (filter (\<lambda>m. Type m = Message_DATA \<and> StreamId m = sid) ms)) =
       concat (map ls_forwarded (filter (\<lambda>k. ls_streamID k = sid) (lp_sockets s))))"
proof -
  note inv = proxy_reaches_inv(1) [OF assms(1,2)]
  have w: "wire_ok io s"
    using inv NewLocalProxy_Inr(4) [OF assms(1)] by (simp add: proxy_inv_def client_ok_def)
  then have "map (SerializeMessage (env_marshal io)) (cl_sent s) = map Inr (cl_wire s)"
    by (simp add: wire_ok_def)
  from read_serialized [OF assms(3) this wire_sizes [OF w assms(4,5)] assms(6)]
  obtain r where "read_messages unmarshal (length (cl_sent s)) (ws_reader (map binary_frame chunks)) =
      Some (cl_sent s, r)" "messageBin r = []"
    by blast
  moreover have "forwarded sent_data s" using inv by (simp add: proxy_inv_def)
  ultimately show ?thesis by (simp add: forwarded_def sent_data_def)
qed

lemma demo_overhead: "small_overhead demo_marshal"
  by (auto simp: small_overhead_def demo_marshal_def Let_def split: if_splits)

theorem peer_reads_local_data_witness:
  "\<exists>ms r. read_messages demo_unmarshal 1 (ws_reader (map binary_frame [[0], [4, 1, 0], [1, 2]])) = Some (ms, r) \<and>
     concat (map Payload (filter (\<lambda>m. Type m = Message_DATA \<and> StreamId m = 7) ms)) = [1, 2]"
proof -
  have f: "length (cl_sent demo_s4) = 1" "cl_wire demo_s4 = [[0, 4, 1, 0, 1, 2]]"
    "\<forall>m \<in> set (cl_sent demo_s4). length (ServiceId m) \<le> 32000"
    "concat (map ls_forwarded (filter (\<lambda>k. ls_streamID k = 7) (lp_sockets demo_s4))) = [1, 2]"
    by (simp_all add: demo_s4_def demo_s3_def demo_s2_def zero_message_def socket_Start_def
        newLocalSocket_def)
  have io: "codec_roundtrip (env_marshal demo_io) demo_unmarshal" "small_overhead (env_marshal demo_io)"
    by (simp_all add: demo_io_def demo_codec demo_overhead)
  have "concat [[0], [4, 1, 0], [1, 2]] = concat (cl_wire demo_s4)" by (simp add: f)
  from peer_reads_local_data [OF demo_run io f(3) this] f(1,4) show ?thesis by auto
qed

section \<open>From program to program\<close>

lemma sublist_concat: "sublist xss yss \<Longrightarrow> sublist (concat xss) (concat yss)"
  by (metis concat_append sublist_def)

text \<open>From a link that brings the Data messages of a stream in order.\<close>

lemma sent_not_ignorable:
  assumes "NewLocalProxy h H S io dial cw mo options = (Inr (pc, env, s0), opened)"
    and "proxy_reaches pc env s0 a" and "m \<in> set (cl_sent a)"
  shows "\<not> Ignorable m"
  using proxy_reaches_inv(1) [OF assms(1,2)] assms(3)
  by (simp add: proxy_inv_def client_ok_def wire_ok_def)

text \<open>What the client of the second proxy takes up of the stream, it does not ignore.\<close>

lemma handled_over_link:
  assumes "NewLocalProxy h H S io dial cw mo options = (Inr (pc, env, s0), opened)"
    and "proxy_reaches pc env s0 a" and "prefix (filter (is_data sid) hs) (filter (is_data sid) (cl_sent a))"
  shows "filter (takes sid) hs = filter (is_data sid) hs"
proof (rule filter_cong [OF refl])
  fix m assume m: "m \<in> set hs"
  have "\<not> Ignorable m" if "is_data sid m"
  proof -
    have "m \<in> set (filter (is_data sid) hs)" using m that by simp
    then have "m \<in> set (filter (is_data sid) (cl_sent a))" using set_mono_prefix [OF assms(3)] by blast
    then show ?thesis using sent_not_ignorable [OF assms(1,2)] by simp
  qed
  then show "takes sid m = is_data sid m" by (auto simp: takes_def)
qed

lemma forwarded_is_sent:
  assumes "NewLocalProxy h H S io dial cw mo options = (Inr (pc, env, s0), opened)"
    and "proxy_reaches pc env s0 a"
  shows "concat (map ls_forwarded (filter (\<lambda>k. ls_streamID k = sid) (lp_sockets a))) =
    concat (map Payload (filter (is_data sid) (cl_sent a)))"
  using proxy_reaches_inv(1) [OF assms]
  by (simp add: proxy_inv_def forwarded_def sent_data_def is_data_def [abs_def])

lemma bytes_over_link:
  assumes "NewLocalProxy h1 H1 S1 io1 dial1 cw1 mo1 options1 = (Inr (pc1, env1, s01), opened1)"
    and "proxy_reaches pc1 env1 s01 a"
    and "NewLocalProxy h2 H2 S2 io2 dial2 (\<lambda>n. None) mo2 options2 = (Inr (pc2, env2, s02), opened2)"
    and "proxy_reaches pc2 env2 s02 b"
    and link: "prefix (filter (is_data sid) (cl_handled b)) (filter (is_data sid) (cl_sent a))"
    and "one_worker b sid i"
    and "k \<in> set (lp_sockets b)" and "ls_streamID k = sid"
  shows "sublist (con_written (lp_cons b ! ls_con k))
    (concat (map ls_forwarded (filter (\<lambda>k. ls_streamID k = sid) (lp_sockets a))))"
proof -
  obtain n where n: "n < length (lp_sockets b)" "lp_sockets b ! n = k"
    using assms(7) by (metis in_set_conv_nth)
  obtain ts where ts: "con_written (lp_cons b ! ls_con k) = concat ts" "sublist ts (arrived b sid)"
    using received_okD(4) [OF reaches_received_ok [OF assms(3,4)] n(1)] n(2) assms(8)
    by (auto simp: delivered_def Let_def)
  have "sublist (arrived b sid) (map Payload (filter (is_data sid) (cl_handled b)))"
    using arrived_handled [OF assms(3,4,6)] unfolding handled_over_link [OF assms(1,2) link] .
  with ts(2) have "sublist ts (map Payload (filter (is_data sid) (cl_handled b)))"
    by (rule sublist_order.order_trans)
  moreover have "prefix (map Payload (filter (is_data sid) (cl_handled b)))
      (map Payload (filter (is_data sid) (cl_sent a)))"
    using link by (rule map_mono_prefix)
  ultimately have "sublist ts (map Payload (filter (is_data sid) (cl_sent a)))"
    using sublist_order.order_trans prefix_imp_sublist by blast
  then show ?thesis
    unfolding ts(1) forwarded_is_sent [OF assms(1,2)] by (rule sublist_concat)
qed

text \<open>The way through the server, between two connections that were associated for the stream.\<close>

lemma data_of_con:
  assumes "\<forall>x \<in> set xs. is_data sid (snd x) \<longrightarrow> fst x = Some i"
  shows "filter (is_data sid) (map snd xs) = filter (is_data sid) (of_con i xs)"
  using assms by (induction xs) (auto simp: of_con_def)

lemma prefix_filter: "prefix xs ys \<Longrightarrow> prefix (filter P xs) (filter P ys)"
  by (auto simp: prefix_def)

lemma data_through_server:
  assumes "reachable peer_init peer_step pm" and "p < length (pm_cons pm)" "q < length (pm_cons pm)"
    and "\<forall>x \<in> set (pc_passed (con pm p)). is_data sid (snd x) \<longrightarrow> fst x = Some q"
    and "\<forall>x \<in> set (pc_accepted (con pm q)). is_data sid (snd x) \<longrightarrow> fst x = Some p"
  shows "filter (is_data sid) (pc_received (con pm p)) = filter (is_data sid) (pc_sent (con pm q)) @
    filter (is_data sid) (pc_lost (con pm q)) @ filter (is_data sid) (pc_chMessage (con pm q)) @ filter (is_data sid) (in_reader (con pm p))"
proof -
  have inv: "manager_inv pm" "forward_ok pm"
    using forwarding.reachable_inv [OF assms(1)] by simp_all
  have "con_ok (con pm q)" using inv(1) assms(3) by (simp add: manager_inv_def peer_inv_def)
  then have acc: "map snd (pc_accepted (con pm q)) =
      tl (pc_sent (con pm q)) @ pc_lost (con pm q) @ pc_chMessage (con pm q)"
    and hd: "pc_sent (con pm q) = [] \<or> hd (pc_sent (con pm q)) = serviceIDsMsg (pc_serviceIDs (con pm q))"
    by (simp_all add: con_ok_def)
  have "\<not> is_data sid (serviceIDsMsg ids)" for ids
    by (simp add: is_data_def serviceIDsMsg_def Message_SERVICE_IDS_def Message_DATA_def)
  then have "filter (is_data sid) (pc_sent (con pm q)) = filter (is_data sid) (tl (pc_sent (con pm q)))"
    using hd by (cases "pc_sent (con pm q)") auto
  then have "filter (is_data sid) (pc_sent (con pm q)) @ filter (is_data sid) (pc_lost (con pm q)) @
      filter (is_data sid) (pc_chMessage (con pm q)) =
      filter (is_data sid) (map snd (pc_accepted (con pm q)))"
    by (simp add: acc)
  also have "\<dots> = filter (is_data sid) (map snd (pc_passed (con pm p)))"
    unfolding data_of_con [OF assms(4)] data_of_con [OF assms(5)]
    using forward_okD(3) [OF inv(2) assms(3,2)] by simp
  finally show ?thesis
    using forward_okD(1) [OF inv(2) assms(2)] by simp
qed

text \<open>For the witnesses: the server relays the Data message of the sample run.\<close>

lemma relay:
  "0 < length (pm_cons (relayed data_message))" "1 < length (pm_cons (relayed data_message))"
  "is_data 7 data_message" "StreamId data_message = 7" "\<not> is_data 7 (serviceIDsMsg [])"
  "\<forall>x \<in> set (pc_passed (con (relayed data_message) 0)). is_data 7 (snd x) \<longrightarrow> fst x = Some 1"
  "\<forall>x \<in> set (pc_accepted (con (relayed data_message) 1)). is_data 7 (snd x) \<longrightarrow> fst x = Some 0"
  by (simp_all add: relayed_con [unfolded One_nat_def] is_data_def data_message_def serviceIDsMsg_def
      zero_message_def Message_SERVICE_IDS_def Message_DATA_def)

lemma start_not_data: "\<not> is_data 7 start_message"
  by (simp add: is_data_def start_message_def zero_message_def message_type_defs)

text \<open>
  C1 (functional): the bytes of one local program reach the other, through both proxies and the
  server.  Take two proxies and a server in any reachable states, and two connections \<open>p\<close> and
  \<open>q\<close> of the server.  Suppose the websockets keep what they carry in order (the server has read
  on \<open>p\<close> the beginning of what the first proxy sent, and the reader of the second proxy has taken
  up, of the stream, the beginning of the Data messages that the server sent on \<open>q\<close>), the server
  had the two connections associated for the stream's data (none went elsewhere, none came from
  elsewhere), one worker serves the stream in the second proxy (it was started once), and no
  write to its local connections fails.  Then what each local connection of the stream was sent is a contiguous part of what the local
  programs on the other side handed over for the stream: nothing is lost in between, doubled,
  reordered or taken from another stream.
\<close>

theorem bytes_reach_other_program:
  assumes "NewLocalProxy h1 H1 S1 io1 dial1 cw1 mo1 options1 = (Inr (pc1, env1, s01), opened1)"
    and "proxy_reaches pc1 env1 s01 a"
    and "NewLocalProxy h2 H2 S2 io2 dial2 (\<lambda>n. None) mo2 options2 = (Inr (pc2, env2, s02), opened2)"
    and "proxy_reaches pc2 env2 s02 b"
    and "reachable peer_init peer_step pm" and "p < length (pm_cons pm)" "q < length (pm_cons pm)"
    and "prefix (pc_received (con pm p)) (cl_sent a)"
    and "prefix (filter (is_data sid) (cl_handled b)) (filter (is_data sid) (pc_sent (con pm q)))"
    and "\<forall>x \<in> set (pc_passed (con pm p)). is_data sid (snd x) \<longrightarrow> fst x = Some q"
    and "\<forall>x \<in> set (pc_accepted (con pm q)). is_data sid (snd x) \<longrightarrow> fst x = Some p"
    and "one_worker b sid i"
    and "k \<in> set (lp_sockets b)" and "ls_streamID k = sid"
  shows "sublist (con_written (lp_cons b ! ls_con k))
    (concat (map ls_forwarded (filter (\<lambda>k. ls_streamID k = sid) (lp_sockets a))))"
proof -
  have "prefix (filter (is_data sid) (pc_sent (con pm q))) (filter (is_data sid) (cl_sent a))"
    using prefix_filter [OF assms(8), of "is_data sid"] append_prefixD
    unfolding data_through_server [OF assms(5-7,10,11)] by blast
  then have "prefix (filter (is_data sid) (cl_handled b)) (filter (is_data sid) (cl_sent a))"
    using assms(9) prefix_order.trans by blast
  from bytes_over_link [OF assms(1-4) this assms(12-14)] show ?thesis .
qed

theorem bytes_reach_other_program_witness:
  "sublist (con_written (lp_cons demo_s6 ! 0)) [1, 2] \<and> con_written (lp_cons demo_s6 ! 0) = [1, 2]"
proof -
  let ?k = "(socket_Start (newLocalSocket 7 ''ssh'' 0))\<lparr>ls_read := [1, 2], ls_forwarded := [1, 2]\<rparr>"
  let ?pm = "relayed data_message"
  have t: "cl_handled demo_s6 = [start_message, data_message]" "length (mg_workers (workerMng demo_s6)) = 1"
    "cl_sent demo_s4 = [data_message]"
    by (simp_all add: demo_s6_def demo_s5_def demo_s4_def demo_s3_def data_message_def zero_message_def)
  have p: "prefix (filter (is_data 7) (cl_handled demo_s6)) (filter (is_data 7) (pc_sent (con ?pm 1)))"
    by (simp add: t relay(3-5) start_not_data relayed_con [unfolded One_nat_def])
  have r: "prefix (pc_received (con ?pm 0)) (cl_sent demo_s4)" by (simp add: t relayed_con)
  have w: "one_worker demo_s6 7 0" by (simp add: one_worker_def t(2))
  have k: "?k \<in> set (lp_sockets demo_s6)" "ls_streamID ?k = 7"
    by (simp_all add: demo_s6_fields socket_Start_def newLocalSocket_def)
  have f: "concat (map ls_forwarded (filter (\<lambda>k. ls_streamID k = 7) (lp_sockets demo_s4))) = [1, 2]"
    "ls_con ?k = 0" "con_written (lp_cons demo_s6 ! 0) = [1, 2]"
    by (simp_all add: demo_s4_def demo_s3_def demo_s2_def demo_s6_fields socket_Start_def newLocalSocket_def)
  show ?thesis
    using bytes_reach_other_program [OF demo_run demo_new [OF valid_mode_simps(2)] demo_delivers
        relayed_reachable relay(1,2) r p relay(6,7) w k]
    unfolding f by simp
qed




section \<open>The connect handler and the retry loop\<close>

text \<open>
  What the dialler of the client returns for a response that refuses the websocket handshake
  (\<^verbatim>\<open>websocket.ErrBadHandshake\<close> with the response); \<open>cause\<close> is the text of the error.
\<close>

definition handshake_refusal :: "string \<Rightarrow> response \<Rightarrow> connectError" where
  "handshake_refusal cause r =
     \<lparr>causeErr = cause,
      response = Some \<lparr>StatusCode = int (code r),
        Header = (case status_reason r of
                    None \<Rightarrow> Map.empty | Some v \<Rightarrow> [HeaderKeyStatusReason \<mapsto> [v]])\<rparr>\<rparr>"

lemma handshake_refusal_simps [simp]:
  "tunnelClosed (handshake_refusal cause r) \<longleftrightarrow> status_reason r = Some StatusReasonTunnelClosed"
  "retryable (handshake_refusal cause r) \<longleftrightarrow> code r < 400 \<or> 500 \<le> code r"
  by (auto simp: handshake_refusal_def tunnelClosed_def retryable_def header_Get_def
      StatusReasonTunnelClosed_def split: option.splits)

lemma closed_reason_iff:
  assumes "TunnelConnect_verify now args srv = Return (Inl r)"
  shows "status_reason r = Some StatusReasonTunnelClosed \<longleftrightarrow>
    (\<exists>t. accepts (t_LifetimeAt t) args srv t)"
  using assms
  by (auto simp: TunnelConnect_verify_def accepts_def Let_def deref_def GetTunnel_def
      table_getWithKey_def refuse_def StatusReasonTunnelClosed_def
      split: sum.splits option.splits outcome.splits if_splits)

lemma accepts_at_end: "accepts now args srv t \<Longrightarrow> accepts (t_LifetimeAt t) args srv t"
  unfolding accepts_def by (elim conjE, intro conjI order_refl)

lemma server_errors_retried:
  assumes "fst (TunnelConnect_add svc rnd now args srv) = Inl r \<or>
    fst (TunnelConnect_update args t cid srv) = Return (Some r)"
  shows "retryable (handshake_refusal cause r) \<and> \<not> tunnelClosed (handshake_refusal cause r)"
  using assms
  by (auto simp: TunnelConnect_add_def TunnelConnect_update_def Let_def refuse_def json_def
      http_defs StatusReasonTunnelClosed_def split: prod.splits sum.splits option.splits)

text \<open>
  C15 (functional): what a refused client reports.  After any number of dials that failed with
  errors it may retry, a client that the server's check refuses returns at once: it reports that
  the tunnel is closed exactly when the tunnel, the token of the mode and the client token were
  right and only the lifetime had ended, and otherwise the refusal itself.  A client refused
  because the server failed to record the connection tries again.
\<close>

theorem refused_client_outcome:
  assumes "\<forall>a \<in> set pre. goes_on a \<and> at_dial a \<noteq> None"
  shows "(TunnelConnect_verify now args srv = Return (Inl r) \<longrightarrow>
      client_Run env (pre @ refused (handshake_refusal cause r) at # post) s = Return (Some (Some
        (if \<exists>t. accepts (t_LifetimeAt t) args srv t then ErrTunnelClosed
         else NotRetryable (handshake_refusal cause r))), s)) \<and>
    (fst (TunnelConnect_add svc rnd now args srv) = Inl r \<or>
     fst (TunnelConnect_update args tunnel cid srv) = Return (Some r) \<longrightarrow>
      client_Run env (pre @ refused (handshake_refusal cause r) at # post) s = client_Run env post s)"
proof -
  let ?ce = "handshake_refusal cause r"
  have run: "client_Run env (pre @ refused ?ce at # post) s =
      (if tunnelClosed ?ce then Return (Some (Some ErrTunnelClosed), s)
       else if \<not> retryable ?ce then Return (Some (Some (NotRetryable ?ce)), s)
       else client_Run env post s)"
    unfolding client_Run_unreachable [OF assms]
    by (simp add: client_start_def client_connect_def refused_def)
  show ?thesis
  proof (intro conjI impI)
    assume v: "TunnelConnect_verify now args srv = Return (Inl r)"
    then show "client_Run env (pre @ refused ?ce at # post) s = Return (Some (Some
        (if \<exists>t. accepts (t_LifetimeAt t) args srv t then ErrTunnelClosed else NotRetryable ?ce)), s)"
      using TunnelConnect_verify_Inl [OF v] closed_reason_iff [OF v]
      by (simp add: run http_defs)
  next
    assume "fst (TunnelConnect_add svc rnd now args srv) = Inl r \<or>
      fst (TunnelConnect_update args tunnel cid srv) = Return (Some r)"
    from server_errors_retried [OF this, of cause]
    show "client_Run env (pre @ refused ?ce at # post) s = client_Run env post s"
      by (simp only: run if_False simp_thms)
  qed
qed

text \<open>The tunnel of the sample request, one nanosecond after its lifetime.\<close>

lemma sample_verify_late:
  "TunnelConnect_verify 60000000001 (sample_args ''me'') (sample_server 1) =
     Return (Inl (refuse StatusBadRequest StatusReasonTunnelClosed))"
proof -
  have "OpenTunnel sample_svc sample_rnd NilNotifier_Notify 0 (sample_open 1) server_init =
      (json StatusOK (OpenBody \<lparr>otr_TunnelID = ''a'', otr_DestinationToken = ''a_c'',
          otr_SourceToken = ''a_b''\<rparr>), sample_server 1)"
    by (simp add: sample_OpenTunnel NilNotifier_Notify_def)
  from opened_tunnel_verify [OF server_init_inv this refl] show ?thesis
    by (fastforce simp: sample_open_def sample_args_def add_minutes_exact max_minutes_def)
qed

theorem refused_client_outcome_witness:
  "client_Run demo_env [refused \<lparr>causeErr = ''timeout'', response = None\<rparr> (silent_attempt None),
      refused (handshake_refusal ''bad handshake'' (refuse StatusBadRequest StatusReasonTunnelClosed))
        (silent_attempt None)] demo_client =
    Return (Some (Some ErrTunnelClosed), demo_client)"
proof -
  let ?busy = "refused \<lparr>causeErr = ''timeout'', response = None\<rparr> (silent_attempt None)"
  have pre: "\<forall>a \<in> set [?busy]. goes_on a \<and> at_dial a \<noteq> None"
    by (simp add: goes_on_def refused_def retryable_def tunnelClosed_def)
  have "\<exists>t. accepts (t_LifetimeAt t) (sample_args ''me'') (sample_server 1) t"
    using accepts_at_end [OF sample_accepts] by blast
  then show ?thesis
    using refused_client_outcome [OF pre, of 60000000001 "sample_args ''me''" "sample_server 1"
        "refuse StatusBadRequest StatusReasonTunnelClosed" demo_env "''bad handshake''"
        "silent_attempt None" "[]" demo_client] sample_verify_late
    by simp
qed

end
