(* ===== verification/Service_Grammar.thy ===== *)
theory Service_Grammar
  imports Service_Config
begin

text \<open>
  The language of the service options, by concatenation of its parts only.  There are two
  grammars: \<open>documented_service\<close> has the forms that the comments of \<^verbatim>\<open>proxy/serviceconfig.go\<close> list,
  and \<open>service_text\<close> all the forms that the code takes, which are more.  The parser of
  \<^verbatim>\<open>Service_Config\<close> accepts exactly the texts of the second, with their meaning, and so all the
  documented ones with theirs.
\<close>

section \<open>The documented forms\<close>

text \<open>
  The comments name the parts \<open>hostname\<close>, \<open>port\<close>, \<open>filepath\<close> and \<open>serviceID\<close>, and the networks
  \<open>tcp\<close> and \<open>unix\<close>.  A name is a word without the separators \<open>,\<close> and \<open>=\<close> of the options; a host
  name is also without colon.
\<close>

definition name_text :: "string \<Rightarrow> bool" where
  "name_text s \<longleftrightarrow> s \<noteq> [] \<and> list_all (\<lambda>c. graphic c \<and> c \<noteq> CHR '','' \<and> c \<noteq> CHR ''='') s"

definition host_text :: "string \<Rightarrow> bool" where
  "host_text h \<longleftrightarrow> name_text h \<and> CHR '':'' \<notin> set h"

inductive documented_url :: "string \<Rightarrow> string \<Rightarrow> string \<Rightarrow> bool" where
  doc_network: "host_text h \<Longrightarrow> ParseUint10 16 p \<noteq> None \<Longrightarrow>
    documented_url (''tcp://'' @ h @ '':'' @ p) ''tcp'' (h @ '':'' @ p)"
| doc_host: "host_text h \<Longrightarrow> ParseUint10 16 p \<noteq> None \<Longrightarrow>
    documented_url (h @ '':'' @ p) ''tcp'' (h @ '':'' @ p)"
| doc_port: "ParseUint10 16 p \<noteq> None \<Longrightarrow> documented_url p ''tcp'' (''localhost:'' @ p)"
| doc_unix: "name_text path \<Longrightarrow> \<not> sublist ''://'' path \<Longrightarrow>
    documented_url (''unix://'' @ path) ''unix'' path"

inductive documented_service :: "string \<Rightarrow> ServiceConfig \<Rightarrow> bool" where
  doc_unnamed: "documented_url t n a \<Longrightarrow> documented_service t \<lparr>ServiceID = '''', Network = n, Address = a\<rparr>"
| doc_named: "name_text sid \<Longrightarrow> documented_url t n a \<Longrightarrow>
    documented_service (sid @ ''='' @ t) \<lparr>ServiceID = sid, Network = n, Address = a\<rparr>"

section \<open>The forms of the code\<close>

text \<open>
  Beyond the documented forms: blanks around each part are ignored, the network can be any text, a
  port can stand alone behind it, and a host or a service id can be empty.
\<close>

text \<open>A port: a decimal number of 16 bits.\<close>

definition port_text :: "string \<Rightarrow> bool" where
  "port_text p \<longleftrightarrow> ParseUint10 16 (TrimSpace p) \<noteq> None"

text \<open>A text, the network and the address that it stands for.\<close>

inductive address_text :: "string \<Rightarrow> string \<Rightarrow> string \<Rightarrow> bool" where
  port: "port_text p \<Longrightarrow> address_text p ''tcp'' (''localhost:'' @ TrimSpace p)"
| host_port: "CHR '':'' \<notin> set h \<Longrightarrow> port_text p \<Longrightarrow>
    address_text (h @ '':'' @ p) ''tcp'' (TrimSpace h @ '':'' @ TrimSpace p)"
| network_port: "\<not> sublist ''://'' n \<Longrightarrow> TrimSpace n \<noteq> ''unix'' \<Longrightarrow> port_text p \<Longrightarrow>
    address_text (n @ ''://'' @ p) (TrimSpace n) (''localhost:'' @ TrimSpace p)"
| network_host_port: "\<not> sublist ''://'' n \<Longrightarrow> TrimSpace n \<noteq> ''unix'' \<Longrightarrow> CHR '':'' \<notin> set h \<Longrightarrow>
    port_text p \<Longrightarrow>
    address_text (n @ ''://'' @ h @ '':'' @ p) (TrimSpace n) (TrimSpace h @ '':'' @ TrimSpace p)"
| unix: "TrimSpace n = ''unix'' \<Longrightarrow> \<not> sublist ''://'' n \<Longrightarrow> \<not> sublist ''://'' path \<Longrightarrow>
    address_text (n @ ''://'' @ path) ''unix'' path"

text \<open>One service: an address, or a name and an address.\<close>

inductive service_text :: "string \<Rightarrow> ServiceConfig \<Rightarrow> bool" where
  unnamed: "CHR ''='' \<notin> set t \<Longrightarrow> address_text (TrimSpace t) n a \<Longrightarrow>
    service_text t \<lparr>ServiceID = '''', Network = n, Address = a\<rparr>"
| named: "CHR ''='' \<notin> set sid \<Longrightarrow> CHR ''='' \<notin> set t \<Longrightarrow> address_text (TrimSpace t) n a \<Longrightarrow>
    service_text (sid @ ''='' @ t) \<lparr>ServiceID = TrimSpace sid, Network = n, Address = a\<rparr>"

section \<open>Splitting the texts of the grammar\<close>

lemma graphic_sep: "graphic (CHR '':'')" "graphic (CHR ''/'')"
  by (simp_all add: graphic_def code_def)

lemma port_text_digits:
  assumes "port_text p"
  shows "TrimSpace p \<noteq> []" "list_all is_digit (TrimSpace p)"
  using assms ParseUint10_Some by (auto simp: port_text_def)

text \<open>Trimming keeps every printable character, so a port consists of digits and blanks.\<close>

lemma lead_space_not_graphic: "graphic x \<Longrightarrow> x \<notin> set (take (lead_space s) s)"
  by (cases s rule: lead_space.cases) auto

lemma trail_space_not_graphic: "graphic x \<Longrightarrow> x \<notin> set (take (trail_space s) s)"
  by (cases s rule: trail_space.cases) auto

lemma strip_keeps:
  "\<forall>s. x \<notin> set (take (f s) s) \<Longrightarrow> x \<in> set s \<Longrightarrow> x \<in> set (strip f s)"
proof (induction f s rule: strip.induct)
  case (2 f c cs)
  show ?case
  proof (cases "f (c # cs) = 0")
    case False
    have "x \<in> set (take (f (c # cs)) (c # cs)) \<union> set (drop (f (c # cs)) (c # cs))"
      using 2(3) by (metis append_take_drop_id set_append)
    then have "x \<in> set (drop (f (c # cs)) (c # cs))" using 2(2) by blast
    from 2(1) [OF False 2(2) this] show ?thesis using False by (simp add: strip_step)
  qed (use 2(3) in \<open>simp add: strip_id\<close>)
qed simp

lemma TrimSpace_keeps:
  assumes "graphic x" and "x \<in> set s"
  shows "x \<in> set (TrimSpace s)"
  using strip_keeps [of x lead_space s] strip_keeps [of x trail_space "rev (strip lead_space s)"]
    lead_space_not_graphic [OF assms(1)] trail_space_not_graphic [OF assms(1)] assms(2)
  by (simp add: TrimSpace_def)

lemma port_text_chars:
  assumes "port_text p"
  shows "CHR '':'' \<notin> set p" "CHR ''/'' \<notin> set p"
  using digits_not_colon [OF port_text_digits(2) [OF assms]] TrimSpace_keeps graphic_sep by blast+

lemma not_sublist_host_port:
  assumes "CHR '':'' \<notin> set h" and "port_text p"
  shows "\<not> sublist ''://'' (h @ '':'' @ p)"
proof
  assume "sublist ''://'' (h @ '':'' @ p)"
  then obtain xs ys where e: "h @ '':'' @ p = xs @ ''://'' @ ys" by (auto simp: sublist_def)
  have "CHR '':'' \<notin> set p" "CHR ''/'' \<notin> set p" using port_text_chars [OF assms(2)] .
  with e assms(1) show False
    by (auto simp: append_eq_append_conv2 append_eq_Cons_conv Cons_eq_append_conv)
qed

section \<open>The parser and the grammar\<close>

lemma url_split: "\<not> sublist ''://'' n \<Longrightarrow> \<not> sublist ''://'' a \<Longrightarrow>
    split_on ''://'' (n @ ''://'' @ a) = [n, a]"
  using split_on_url_append [of n a] by (simp add: split_on_id)

lemma port_url:
  assumes "port_text p"
  shows "split_on '':'' p = [p]" "\<not> sublist ''://'' p"
  using port_text_chars [OF assms] no_url_sep [of "CHR '':''" p] by (simp_all add: split_on_char_id)

lemma host_port_split:
  assumes "CHR '':'' \<notin> set h" and "port_text p"
  shows "split_on '':'' (h @ '':'' @ p) = [h, p]"
  using port_url(1) [OF assms(2)] assms(1) by (simp add: split_on_char_append)

lemma TrimSpace_localhost [simp]: "TrimSpace ''localhost'' = ''localhost''" "TrimSpace ''tcp'' = ''tcp''"
  by (simp_all add: config_eval)

lemma address_text_parses: "address_text url network address \<Longrightarrow> ParseURL url = Inr (network, address)"
proof (induction rule: address_text.induct)
  case (port p)
  then show ?case
    using port_url [OF port] by (auto simp: ParseURL_def Let_def split_on_id port_text_def)
next
  case (host_port h p)
  then show ?case
    using host_port_split [OF host_port] split_on_id [OF not_sublist_host_port [OF host_port]]
    by (auto simp: ParseURL_def Let_def port_text_def)
next
  case (network_port n p)
  then show ?case
    using url_split [OF network_port(1) port_url(2) [OF network_port(3)]] port_url(1) [OF network_port(3)]
    by (auto simp: ParseURL_def Let_def port_text_def)
next
  case (network_host_port n h p)
  then show ?case
    using url_split [OF network_host_port(1) not_sublist_host_port [OF network_host_port(3,4)]]
      host_port_split [OF network_host_port(3,4)]
    by (auto simp: ParseURL_def Let_def port_text_def)
next
  case (unix n path)
  then show ?case
    using url_split [OF unix(2,3)] by (simp add: ParseURL_def Let_def)
qed

lemma split_on_one: "split_on sep s = [a] \<Longrightarrow> s = a"
  using join_split_on [of sep s] by simp

lemma split_on_two: "split_on sep s = [a, b] \<Longrightarrow> s = a @ sep @ b"
  using join_split_on [of sep s] by simp

lemma ParseURL_address_text:
  assumes "ParseURL url = Inr (network, address)"
  shows "address_text url network address"
  using assms
proof (cases rule: ParseURL_Inr)
  case (1 n0 a)
  have hp: "port_text p \<and> (a = p \<and> h = ''localhost'' \<or> a = h @ '':'' @ p \<and> CHR '':'' \<notin> set h)"
    if "split_on '':'' a = [p] \<and> h = ''localhost'' \<or> split_on '':'' a = [h, p]"
      "ParseUint10 16 (TrimSpace p) \<noteq> None" for h p
    using that split_on_char_part [of h "CHR '':''" a] split_on_one [of "'':''" a p]
      split_on_two [of "'':''" a h p]
    by (auto simp: port_text_def)
  consider (u) "network = ''unix''" "address = a"
    | (t) h p where "network \<noteq> ''unix''" "port_text p"
        "a = p \<and> h = ''localhost'' \<or> a = h @ '':'' @ p \<and> CHR '':'' \<notin> set h"
        "address = TrimSpace h @ '':'' @ TrimSpace p"
    using 1(3) hp by blast
  then show ?thesis
  proof cases
    case u
    then have s: "split_on ''://'' url = [n0, a]" using 1(1,2) by auto
    have "\<not> sublist ''://'' n0" "\<not> sublist ''://'' a"
      using split_on_part [of _ "''://''" url] by (auto simp: s)
    then show ?thesis
      using address_text.unix [of n0 a] u 1(2) split_on_two [OF s] by simp
  next
    case (t h p)
    show ?thesis
    proof (cases "split_on ''://'' url = [a] \<and> n0 = ''tcp''")
      case True
      then have "url = a" "network = ''tcp''" using split_on_one 1(2) by auto
      then show ?thesis
        using t address_text.port [of p] address_text.host_port [of h p] by auto
    next
      case False
      then have s: "split_on ''://'' url = [n0, a]" using 1(1) by blast
      then have "\<not> sublist ''://'' n0" using split_on_part [of n0 "''://''" url] by simp
      then show ?thesis
        using t 1(2) split_on_two [OF s] address_text.network_port [of n0 p]
          address_text.network_host_port [of n0 h p] by auto
    qed
  qed
qed

lemma ParseURL_iff: "ParseURL url = Inr (network, address) \<longleftrightarrow> address_text url network address"
  using ParseURL_address_text address_text_parses by blast

lemma parse_service_iff: "parse_service serviceStr s = Inr c \<longleftrightarrow> service_text s c"
proof
  assume "parse_service serviceStr s = Inr c"
  then obtain sid t n a where
    split: "split_on ''='' s = [t] \<and> sid = '''' \<or> split_on ''='' s = [sid, t]"
    and url: "ParseURL (TrimSpace t) = Inr (n, a)"
    and c: "c = \<lparr>ServiceID = TrimSpace sid, Network = n, Address = a\<rparr>"
    by (fastforce simp: parse_service_def split: list.splits sum.splits)
  have addr: "address_text (TrimSpace t) n a" using url ParseURL_iff by blast
  have eq: "CHR ''='' \<notin> set q" if "q \<in> set (split_on ''='' s)" for q
    using that by (rule split_on_char_part)
  from split show "service_text s c"
  proof
    assume "split_on ''='' s = [t] \<and> sid = ''''"
    then show ?thesis
      using service_text.unnamed [OF _ addr] eq [of t] split_on_one [of "''=''" s t] c by simp
  next
    assume "split_on ''='' s = [sid, t]"
    then show ?thesis
      using service_text.named [OF _ _ addr] eq [of sid] eq [of t] split_on_two [of "''=''" s sid t] c
      by simp
  qed
next
  assume "service_text s c"
  then show "parse_service serviceStr s = Inr c"
    by cases (simp_all add: parse_service_def split_on_char_id split_on_char_append
        address_text_parses)
qed

lemma ParseServiceConfig_iff:
  "ParseServiceConfig s = Inr cs \<longleftrightarrow>
     (\<exists>ts. ts \<noteq> [] \<and> s = join '','' ts \<and> list_all2 (\<lambda>t c. CHR '','' \<notin> set t \<and> service_text t c) ts cs)"
proof
  assume "ParseServiceConfig s = Inr cs"
  then have "list_all2 service_text (split_on '','' s) cs"
    by (simp add: ParseServiceConfig_def parse_services_iff parse_service_iff)
  then have "list_all2 (\<lambda>t c. CHR '','' \<notin> set t \<and> service_text t c) (split_on '','' s) cs"
    by (rule list.rel_mono_strong) (simp add: split_on_char_part)
  then show "\<exists>ts. ts \<noteq> [] \<and> s = join '','' ts \<and>
      list_all2 (\<lambda>t c. CHR '','' \<notin> set t \<and> service_text t c) ts cs"
    by (intro exI [of _ "split_on '','' s"]) (simp add: join_split_on)
next
  assume "\<exists>ts. ts \<noteq> [] \<and> s = join '','' ts \<and>
      list_all2 (\<lambda>t c. CHR '','' \<notin> set t \<and> service_text t c) ts cs"
  then obtain ts where ts: "ts \<noteq> []" "s = join '','' ts"
    "list_all2 (\<lambda>t c. CHR '','' \<notin> set t \<and> service_text t c) ts cs"
    by blast
  have "\<forall>t \<in> set ts. CHR '','' \<notin> set t"
    using ts(3) by (auto simp: list_all2_conv_all_nth in_set_conv_nth)
  then have "split_on '','' s = ts" using ts(1,2) by (simp add: split_on_char_join)
  moreover have "list_all2 service_text ts cs"
    using ts(3) by (rule list.rel_mono_strong) simp
  ultimately show "ParseServiceConfig s = Inr cs"
    by (simp add: ParseServiceConfig_def parse_services_iff parse_service_iff)
qed

section \<open>The documented forms are forms of the code\<close>

lemma trimmed_graphic: "list_all graphic s \<Longrightarrow> trimmed s"
proof -
  assume "list_all graphic s"
  then have g: "\<forall>c \<in> set s. graphic c" "\<forall>c \<in> set (rev s). graphic c" by (auto simp: list_all_iff)
  have "lead_space t = 0 \<and> trail_space t = 0" if "\<forall>c \<in> set t. graphic c" for t
    using that by (cases t; cases "tl t"; cases "tl (tl t)") auto
  with g show ?thesis by (simp add: trimmed_def)
qed

text \<open>A word that the options can hold: blanks and their separators do not occur in it.\<close>

abbreviation plain :: "string \<Rightarrow> bool" where
  "plain s \<equiv> list_all (\<lambda>c. graphic c \<and> c \<noteq> CHR '','' \<and> c \<noteq> CHR ''='') s"

lemma plain_trim: "plain s \<Longrightarrow> TrimSpace s = s"
  using trimmed_graphic [of s] by (auto simp: list_all_iff)

lemma plain_seps: "plain s \<Longrightarrow> CHR '','' \<notin> set s \<and> CHR ''='' \<notin> set s"
  by (auto simp: list_all_iff)

lemma digit_plain: "is_digit c \<Longrightarrow> graphic c \<and> c \<noteq> CHR '','' \<and> c \<noteq> CHR ''=''"
  by (auto simp: is_digit_def graphic_def code_def)

lemma port_plain: "ParseUint10 16 p \<noteq> None \<Longrightarrow> plain p"
  using ParseUint10_Some digit_plain by (fastforce simp: list_all_iff)

lemma port_text_plain: "ParseUint10 16 p \<noteq> None \<Longrightarrow> port_text p"
  using plain_trim [OF port_plain] by (simp add: port_text_def)

lemma plain_consts [simp]: "plain ''tcp://''" "plain ''unix://''" "plain '':''"
  by (simp_all add: graphic_def code_def)

lemma tcp_unix_url: "\<not> sublist ''://'' ''tcp''" "\<not> sublist ''://'' ''unix''" "TrimSpace ''unix'' = ''unix''"
  by (simp_all add: sublist_Cons_right config_eval)

lemma documented_url_plain: "documented_url t n a \<Longrightarrow> plain t"
  by (induction rule: documented_url.induct)
    (use port_plain in \<open>simp_all add: host_text_def name_text_def graphic_def code_def\<close>)

lemma documented_url_address: "documented_url t n a \<Longrightarrow> address_text t n a"
proof (induction rule: documented_url.induct)
  case (doc_network h p)
  then show ?case
    using address_text.network_host_port [of "''tcp''" h p] tcp_unix_url port_text_plain [of p]
      plain_trim [of h] plain_trim [OF port_plain, of p]
    by (simp add: host_text_def name_text_def)
next
  case (doc_host h p)
  then show ?case
    using address_text.host_port [of h p] port_text_plain [of p]
      plain_trim [of h] plain_trim [OF port_plain, of p]
    by (simp add: host_text_def name_text_def)
next
  case (doc_port p)
  then show ?case
    using address_text.port [of p] port_text_plain [of p] plain_trim [OF port_plain, of p] by simp
next
  case (doc_unix path)
  then show ?case using address_text.unix [of "''unix''" path] tcp_unix_url by simp
qed

lemma documented_service_text:
  assumes "documented_service t c"
  shows "CHR '','' \<notin> set t \<and> service_text t c"
  using assms
proof cases
  case (doc_unnamed n a)
  note p = documented_url_plain [OF doc_unnamed(2)]
  show ?thesis
    using service_text.unnamed [of t n a] plain_trim [OF p] plain_seps [OF p]
      documented_url_address [OF doc_unnamed(2)] doc_unnamed(1) by simp
next
  case (doc_named sid u n a)
  note p = documented_url_plain [OF doc_named(4)]
  have q: "plain sid" using doc_named(3) by (simp add: name_text_def)
  show ?thesis
    using service_text.named [of sid u n a] plain_trim [OF p] plain_seps [OF p] plain_trim [OF q]
      plain_seps [OF q] documented_url_address [OF doc_named(4)] doc_named(1,2) by auto
qed

text \<open>
  C27 (equivalence): what the service options can be.  The documented forms, a list of services
  joined by commas, each an address (port, host and port, these behind \<open>tcp\<close>, or a path behind
  \<open>unix\<close>) or a service id, an equals sign and an address, are all accepted, with the meaning that
  the comments give them.  And the texts that are accepted are exactly the lists of the forms of
  \<open>service_text\<close>, with their meaning: these have the addresses behind any network, a port alone behind
  a network, empty hosts and ids, and blanks around each part besides.
\<close>

theorem ParseServiceConfig_grammar:
  "(ts \<noteq> [] \<and> list_all2 documented_service ts ds \<longrightarrow> ParseServiceConfig (join '','' ts) = Inr ds) \<and>
   (ParseServiceConfig s = Inr cs \<longleftrightarrow>
     (\<exists>ts. ts \<noteq> [] \<and> s = join '','' ts \<and> list_all2 (\<lambda>t c. CHR '','' \<notin> set t \<and> service_text t c) ts cs))"
proof (intro conjI impI)
  assume ts: "ts \<noteq> [] \<and> list_all2 documented_service ts ds"
  have "list_all2 (\<lambda>t c. CHR '','' \<notin> set t \<and> service_text t c) ts ds"
    by (rule list.rel_mono_strong [OF ts [THEN conjunct2]]) (rule documented_service_text)
  then show "ParseServiceConfig (join '','' ts) = Inr ds"
    using ts by (intro ParseServiceConfig_iff [THEN iffD2] exI [of _ ts]) simp
qed (rule ParseServiceConfig_iff)

theorem ParseServiceConfig_grammar_witness:
  "ParseServiceConfig (join '','' [''SSH=tcp://host:22'', ''22'']) =
     Inr [\<lparr>ServiceID = ''SSH'', Network = ''tcp'', Address = ''host:22''\<rparr>,
          \<lparr>ServiceID = '''', Network = ''tcp'', Address = ''localhost:22''\<rparr>]"
proof -
  have p: "ParseUint10 16 ''22'' \<noteq> None" by (simp add: config_eval)
  have "documented_url (''tcp://'' @ ''host'' @ '':'' @ ''22'') ''tcp'' (''host'' @ '':'' @ ''22'')"
    by (rule documented_url.doc_network [OF _ p])
      (simp add: host_text_def name_text_def graphic_def code_def)
  then have u: "documented_url ''tcp://host:22'' ''tcp'' ''host:22''" by simp
  have "name_text ''SSH''" by (simp add: name_text_def graphic_def code_def)
  from documented_service.doc_named [OF this u]
  have s: "documented_service ''SSH=tcp://host:22''
      \<lparr>ServiceID = ''SSH'', Network = ''tcp'', Address = ''host:22''\<rparr>" by simp
  have t: "documented_service ''22''
      \<lparr>ServiceID = '''', Network = ''tcp'', Address = ''localhost:22''\<rparr>"
    using documented_service.doc_unnamed [OF documented_url.doc_port [OF p]] by simp
  show ?thesis
    by (rule ParseServiceConfig_grammar [THEN conjunct1, rule_format]) (simp add: s t)
qed

end
