(* ===== verification/Tunnel_Daemon.thy ===== *)
theory Tunnel_Daemon
  imports Server_Machine Peer_Con_Manager
begin

text \<open>
  The server program \<^verbatim>\<open>misc/server/cmd/mitra_tunneld/main.go\<close>: its configuration, the start of
  the services (\<^verbatim>\<open>Services.Start\<close>), the routes with the filter in front of them, and the way of
  a request to its handler.  One request is served at a time here; \<^verbatim>\<open>Server_Machine\<close> and
  \<^verbatim>\<open>Peer_Con_Manager\<close> have the interleavings.  The router itself and the binding of requests are
  gin's: a parameter.
\<close>

section \<open>State and start\<close>

record tunneld =
  td_server :: server
  td_pm :: peerConManager

definition tunneld_services :: Services where
  "tunneld_services =
     \<lparr>svc_IDTokenGen = \<lparr>TunnelIDDigit = 3, TokenDigit = 3, ConnectionIDDigit = 3\<rparr>,
      svc_NeedAuth = False, svc_InterServerNetwork = ''tcp'',
      svc_InterServerAddress = ''0.0.0.0:18081''\<rparr>"

definition debugMode :: bool where "debugMode = True"

text \<open>\<^verbatim>\<open>Start\<close> makes the manager; \<open>expiry_tick\<close> is a round of the goroutine that it starts.\<close>

definition Services_Start :: "server \<Rightarrow> tunneld" where
  "Services_Start sv =
     \<lparr>td_server = sv, td_pm = \<lparr>pm_map = Map.empty, pm_cons = [], pm_waiting = None\<rparr>\<rparr>"

definition expiry_tick :: "(peerKey \<Rightarrow> bool) \<Rightarrow> time \<Rightarrow> peerKey list \<Rightarrow> tunneld \<Rightarrow> tunneld" where
  "expiry_tick control_ok now order s =
     s\<lparr>td_pm := closeExpiredConnection control_ok now (sv_store (td_server s)) order (td_pm s)\<rparr>"

text \<open>
  \<^verbatim>\<open>main\<close> up to the router: the libraries are initialised in turn, and the first failure ends the
  program.  The memory store, the nil authorizer and the nil notifier never fail.
\<close>

fun init_pluggables :: "string option list \<Rightarrow> string option" where
  "init_pluggables [] = None"
| "init_pluggables (Some err # results) = Some err"
| "init_pluggables (None # results) = init_pluggables results"

definition NilAuthorizer_Init :: "string option" where "NilAuthorizer_Init = None"
definition NilNotifier_Init :: "string option" where "NilNotifier_Init = None"

definition tunneld_main :: "string + tunneld" where
  "tunneld_main =
     (case init_pluggables [NilAuthorizer_Init, None, NilNotifier_Init] of
        Some err \<Rightarrow> Inl err
      | None \<Rightarrow> Inr (Services_Start server_init))"

section \<open>Routes\<close>

datatype http_method = GET | POST | PUT

datatype api =
    Login | Logout | OpenAPI | ListAPI | DescribeAPI | CloseAPI | DebugListAPI | DebugSendAPI | ConnectAPI

text \<open>Method and path, whether the filter \<^verbatim>\<open>AuthFilter\<close> comes first, and the service.\<close>

definition routes :: "bool \<Rightarrow> ((http_method \<times> string) \<times> bool \<times> api) list" where
  "routes debug =
     [((POST, ''/login''), False, Login),
      ((POST, ''/logout''), True, Logout),
      ((POST, ''/tunnel/open''), True, OpenAPI),
      ((GET, ''/tunnel/list''), True, ListAPI),
      ((GET, ''/tunnel/describe''), True, DescribeAPI),
      ((PUT, ''/tunnel/close''), True, CloseAPI)] @
     (if debug then
        [((GET, ''/debug/tunnel/list''), True, DebugListAPI),
         ((POST, ''/debug/tunnel/send''), True, DebugSendAPI)]
      else []) @
     [((GET, ''/tunnel''), False, ConnectAPI)]"

section \<open>Serving a request\<close>

text \<open>A request is its text, as it came in.\<close>

type_synonym http_req = string

text \<open>gin's \<^verbatim>\<open>Bind\<close> and \<^verbatim>\<open>BindHeader\<close> for one type of arguments.\<close>

record 'a gin_binding =
  bind_form :: "http_req \<Rightarrow> string + 'a"
  bind_head :: "http_req \<Rightarrow> 'a \<Rightarrow> string + 'a"

text \<open>
  What a request meets outside the program: the binders, the authorizer, the notifier, the random
  source, the clock, the iteration orders of the maps, and what happens while the websocket of a
  connection lives.
\<close>

record world =
  w_open :: "OpenTunnelRequest gin_binding"
  w_close :: "CloseTunnelRequest gin_binding"
  w_describe :: "string gin_binding"     \<comment> \<open>\<^verbatim>\<open>DescribeTunnelRequest\<close>: the tunnel id\<close>
  w_list :: "unit gin_binding"
  w_debug_list :: "unit gin_binding"
  w_send :: "DebugSendRequest gin_binding"
  w_connect :: "TunnelConnectArgs gin_binding"
  w_login :: "http_req \<Rightarrow> response"
  w_logout :: "http_req \<Rightarrow> response"
  w_has_auth :: "http_req \<Rightarrow> string option"
  w_notify :: "Tunnel \<Rightarrow> string option"
  w_random :: random
  w_now :: time
  w_now_open :: time
  w_now_end :: time
  w_order :: "string list"
  w_corder :: "string list"
  w_upgrade :: upgrade
  w_session :: "server \<Rightarrow> server"
  w_pm_session :: "peerConManager \<Rightarrow> peerConManager"

text \<open>The nil authorizer answers 200 to both.\<close>

definition NilAuthorizer_Login :: "http_req \<Rightarrow> response" where
  "NilAuthorizer_Login req = json StatusOK EmptyBody"

definition NilAuthorizer_Logout :: "http_req \<Rightarrow> response" where
  "NilAuthorizer_Logout req = json StatusOK EmptyBody"

definition Services_Login :: "world \<Rightarrow> http_req \<Rightarrow> response" where
  "Services_Login w req = w_login w req"

definition Services_Logout :: "world \<Rightarrow> http_req \<Rightarrow> response" where
  "Services_Logout w req = w_logout w req"

text \<open>No service but the connection has arguments whose \<^verbatim>\<open>Validate\<close> can fail.\<close>

definition valid :: "'a \<Rightarrow> string option" where "valid args = None"

definition pre ::
  "'a gin_binding \<Rightarrow> ('a \<Rightarrow> string option) \<Rightarrow>
     ('a \<Rightarrow> tunneld \<Rightarrow> response option outcome \<times> tunneld) \<Rightarrow> http_req \<Rightarrow> tunneld \<Rightarrow>
     response option outcome \<times> tunneld" where
  "pre b validate handler req s = PreProcess (bind_form b) (bind_head b) (Some validate) handler req s"

definition answer :: "response \<Rightarrow> tunneld \<Rightarrow> response option outcome \<times> tunneld" where
  "answer r s = (Return (Some r), s)"

fun run_api ::
  "Services \<Rightarrow> world \<Rightarrow> api \<Rightarrow> http_req \<Rightarrow> tunneld \<Rightarrow> response option outcome \<times> tunneld" where
  "run_api svc w Login req s = answer (Services_Login w req) s"
| "run_api svc w Logout req s = answer (Services_Logout w req) s"
| "run_api svc w OpenAPI req s = pre (w_open w) valid (\<lambda>args s.
     let (r, sv) = OpenTunnel svc (w_random w) (w_notify w) (w_now w) args (td_server s)
     in answer r (s\<lparr>td_server := sv\<rparr>)) req s"
| "run_api svc w ListAPI req s = pre (w_list w) valid (\<lambda>args s.
     answer (ListTunnels (w_order w) (w_now w) (td_server s)) s) req s"
| "run_api svc w DescribeAPI req s = pre (w_describe w) valid (\<lambda>tunnelID s.
     (case DescribeTunnel (w_now w) tunnelID (td_server s) of
        Return r \<Rightarrow> answer r s | Panic \<Rightarrow> (Panic, s) | Blocked \<Rightarrow> (Blocked, s))) req s"
| "run_api svc w CloseAPI req s = pre (w_close w) valid (\<lambda>args s.
     let (r, sv) = CloseTunnel (w_now w) args (td_server s)
     in answer r (s\<lparr>td_server := sv\<rparr>)) req s"
| "run_api svc w DebugListAPI req s = pre (w_debug_list w) valid (\<lambda>args s.
     answer (DebugListTunnels (w_order w) (w_corder w) (td_server s)) s) req s"
| "run_api svc w DebugSendAPI req s = pre (w_send w) valid (\<lambda>args s.
     (case DebugSendToPeer args (td_pm s) of
        (Return r, pm) \<Rightarrow> answer r (s\<lparr>td_pm := pm\<rparr>)
      | (Panic, pm) \<Rightarrow> (Panic, s) | (Blocked, pm) \<Rightarrow> (Blocked, s))) req s"
| "run_api svc w ConnectAPI req s = pre (w_connect w) TunnelConnectArgs_Validate (\<lambda>args s.
     let (out, sv) = TunnelConnect svc (w_random w) (w_upgrade w) (w_session w)
           (w_now w) (w_now_open w) (w_now_end w) args (td_server s)
     in (out, s\<lparr>td_server := sv,
          td_pm := (if out = Return None \<and> w_upgrade w = Upgraded then w_pm_session w (td_pm s)
                   else td_pm s)\<rparr>)) req s"

text \<open>\<open>Taken\<close>: the connection was taken over from HTTP, so that the handler answers nothing.\<close>

datatype reply = NotRouted | Taken | Reply response

fun reply_of :: "response option outcome \<Rightarrow> reply outcome" where
  "reply_of (Return None) = Return Taken"
| "reply_of (Return (Some r)) = Return (Reply r)"
| "reply_of Panic = Panic"
| "reply_of Blocked = Blocked"

definition serve ::
  "bool \<Rightarrow> Services \<Rightarrow> world \<Rightarrow> http_method \<Rightarrow> string \<Rightarrow> http_req \<Rightarrow> tunneld \<Rightarrow> reply outcome \<times> tunneld" where
  "serve debug svc w meth path req s =
     (case map_of (routes debug) (meth, path) of
        None \<Rightarrow> (Return NotRouted, s)
      | Some (filtered, a) \<Rightarrow>
          (case (if filtered then AuthFilter svc (w_has_auth w) req else None) of
             Some r \<Rightarrow> (Return (Reply r), s)
           | None \<Rightarrow> (case run_api svc w a req s of (out, s') \<Rightarrow> (reply_of out, s'))))"

section \<open>The invariant\<close>

text \<open>What happens while a connection lives is other requests: it keeps the invariant.\<close>

definition world_ok :: "world \<Rightarrow> bool" where
  "world_ok w \<longleftrightarrow> (\<forall>s. server_inv {} s \<longrightarrow> server_inv {} (w_session w s))"

inductive tunneld_step :: "Services \<Rightarrow> tunneld \<Rightarrow> tunneld \<Rightarrow> bool" for svc :: Services where
  request: "world_ok w \<Longrightarrow> serve debug svc w meth path req s = (out, s') \<Longrightarrow>
    tunneld_step svc s s'"
| tick: "tunneld_step svc s (expiry_tick control_ok now order s)"

section \<open>The replies\<close>

text \<open>The interface of the server, by method and path.\<close>

definition documented_api :: "bool \<Rightarrow> http_method \<Rightarrow> string \<Rightarrow> api option" where
  "documented_api debug meth path =
     (case meth of
        GET \<Rightarrow>
          if path = ''/tunnel'' then Some ConnectAPI
          else if path = ''/tunnel/list'' then Some ListAPI
          else if path = ''/tunnel/describe'' then Some DescribeAPI
          else if path = ''/debug/tunnel/list'' \<and> debug then Some DebugListAPI else None
      | POST \<Rightarrow>
          if path = ''/tunnel/open'' then Some OpenAPI
          else if path = ''/login'' then Some Login
          else if path = ''/logout'' then Some Logout
          else if path = ''/debug/tunnel/send'' \<and> debug then Some DebugSendAPI else None
      | PUT \<Rightarrow> if path = ''/tunnel/close'' then Some CloseAPI else None)"

lemma routes_documented:
  "map_option snd (map_of (routes debug) (meth, path)) = documented_api debug meth path"
  by (cases meth) (auto simp: routes_def documented_api_def)

lemma not_routed: "map_of (routes debug) (meth, path) = None \<longleftrightarrow> documented_api debug meth path = None"
  unfolding routes_documented [symmetric] by simp

text \<open>The body of a successful reply of each service, and the form of every reply of a service.\<close>

fun body_fits :: "api \<Rightarrow> body \<Rightarrow> bool" where
  "body_fits OpenAPI (OpenBody b) = True"
| "body_fits ListAPI (ListBody b) = True"
| "body_fits DescribeAPI (DescribeBody b) = True"
| "body_fits CloseAPI CloseBody = True"
| "body_fits DebugListAPI (DebugListBody b) = True"
| "body_fits DebugSendAPI EmptyBody = True"
| "body_fits a b = False"

definition reply_fits :: "api \<Rightarrow> response \<Rightarrow> bool" where
  "reply_fits a r \<longleftrightarrow>
     code r = StatusOK \<and> body_fits a (body r) \<or>
     (code r = StatusBadRequest \<or> code r = StatusUnauthorized \<or> code r = StatusInternalServerError) \<and>
     (\<exists>m. body r = Message m)"

lemma reply_fits_json [simp]:
  "reply_fits a (json StatusOK b) = body_fits a b"
  "reply_fits a (json StatusBadRequest (Message m))" "reply_fits a (json StatusUnauthorized (Message m))"
  "reply_fits a (json StatusInternalServerError (Message m))"
  "reply_fits a (refuse StatusBadRequest m)" "reply_fits a (refuse StatusInternalServerError m)"
  by (simp_all add: reply_fits_def json_def refuse_def http_defs)

text \<open>
  The login and the logout answer what the authorizer says; behind the failed upgrade of a
  connection is the answer of the websocket library.
\<close>

definition foreign_reply :: "world \<Rightarrow> http_req \<Rightarrow> api \<Rightarrow> response \<Rightarrow> bool" where
  "foreign_reply w req a r \<longleftrightarrow>
     a = Login \<and> r = w_login w req \<or> a = Logout \<and> r = w_logout w req \<or>
     a = ConnectAPI \<and> failed_upgrade (w_upgrade w) = Some r"

definition api_ok :: "world \<Rightarrow> http_req \<Rightarrow> api \<Rightarrow> response option outcome \<Rightarrow> bool" where
  "api_ok w req a out \<longleftrightarrow>
     (case out of
        Return None \<Rightarrow> a = ConnectAPI
      | Return (Some r) \<Rightarrow> foreign_reply w req a r \<or> reply_fits a r
      | _ \<Rightarrow> a = DebugSendAPI)"

lemma api_ok_simps [simp]:
  "api_ok w req a (Return None) \<longleftrightarrow> a = ConnectAPI"
  "api_ok w req a (Return (Some r)) \<longleftrightarrow> foreign_reply w req a r \<or> reply_fits a r"
  "api_ok w req a Panic \<longleftrightarrow> a = DebugSendAPI" "api_ok w req a Blocked \<longleftrightarrow> a = DebugSendAPI"
  by (simp_all add: api_ok_def)

lemma OpenTunnel_reply:
  assumes "server_inv F s" and "OpenTunnel svc rnd notify now args s = (r, s')"
  shows "reply_fits OpenAPI r \<and> server_inv F s'"
proof (cases "OpenTunnel_add svc rnd now args s")
  case (Pair x s1)
  note inv = OpenTunnel_add_inv [OF assms(1) Pair]
  show ?thesis
  proof (cases x)
    case (Inl e)
    then have "r = e" "s' = s1" using assms(2) Pair by (simp_all add: OpenTunnel_def)
    moreover have "reply_fits OpenAPI e"
      using Pair Inl by (auto simp: OpenTunnel_add_def Let_def split: prod.splits sum.splits option.splits)
    ultimately show ?thesis using inv Inl by simp
  next
    case (Inr t)
    then have n: "OpenTunnel_notify notify t s1 = (r, s')"
      using assms(2) Pair by (simp add: OpenTunnel_def)
    have "server_inv F s1" using inv Inr by (auto intro: server_inv_subset)
    from OpenTunnel_notify_inv [OF this n] n show ?thesis
      by (auto simp: OpenTunnel_notify_def Let_def split: option.splits prod.splits)
  qed
qed

lemma CloseTunnel_reply:
  assumes "server_inv F s" and "CloseTunnel now args s = (r, s')"
  shows "reply_fits CloseAPI r \<and> server_inv F s'"
proof (cases "CloseTunnel_get args s")
  case (Inl e)
  then show ?thesis using assms
    by (auto simp: CloseTunnel_def CloseTunnel_get_def split: sum.splits)
next
  case (Inr t)
  note i = server_inv_read [OF assms(1) Inr [unfolded CloseTunnel_get_Inr]]
  obtain x s1 where u: "CloseTunnel_update now t s = (x, s1)" by fastforce
  have i1: "server_inv F s1"
    using CloseTunnel_update_inv [OF i insertI1 u] by (auto intro: server_inv_subset)
  show ?thesis
  proof (cases x)
    case None
    then have d: "CloseTunnel_delete args s1 = (r, s')"
      using assms(2) Inr u by (simp add: CloseTunnel_def)
    from CloseTunnel_delete_inv [OF i1 d] d show ?thesis
      by (auto simp: CloseTunnel_delete_def split: if_splits prod.splits option.splits)
  next
    case (Some e)
    then have "r = e" "s' = s1" using assms(2) Inr u by (simp_all add: CloseTunnel_def)
    then show ?thesis
      using u Some i1 by (auto simp: CloseTunnel_update_def split: prod.splits option.splits)
  qed
qed

lemma DescribeTunnel_reply:
  "DescribeTunnel now i s = Return r \<Longrightarrow> reply_fits DescribeAPI r"
  by (auto simp: DescribeTunnel_def split: sum.splits outcome.splits)

lemma listings_reply:
  "reply_fits ListAPI (ListTunnels order now s)" "reply_fits DebugListAPI (DebugListTunnels order corder s)"
  by (simp_all add: ListTunnels_def DebugListTunnels_def split: sum.splits)

lemma TunnelConnect_reply:
  assumes inv: "server_inv {} s" and val: "TunnelConnectArgs_Validate args = None"
    and ses: "\<And>s. server_inv {} s \<Longrightarrow> server_inv {} (session s)"
    and tc: "TunnelConnect svc rnd (w_upgrade w) session now now1 now2 args s = (out, s')"
  shows "server_inv {} s' \<and> api_ok w req ConnectAPI out"
proof -
  note md = Validate_mode [OF val]
  obtain x where v: "TunnelConnect_verify now1 args s = Return x"
    using TunnelConnect_verify_returns [OF inv md] by blast
  show ?thesis
  proof (cases x)
    case (Inl r)
    then have "out = Return (Some r)" "s' = s" using tc v by (simp_all add: TunnelConnect_def)
    then show ?thesis
      using inv TunnelConnect_verify_Inl [of now1 args s r] v Inl
      by (auto simp: reply_fits_def)
  next
    case (Inr t)
    have t: "tunnel_at (sv_store s) (token_TunnelID (ca_AccessToken args)) = Some t"
      using v [unfolded Inr TunnelConnect_verify_Inr accepts_def] by (rule conjunct1)
    obtain y s1 where a: "TunnelConnect_add svc rnd now args s = (y, s1)" by fastforce
    have i1: "server_inv {t} s1"
      using TunnelConnect_add_inv [OF server_inv_read [OF inv t] a] by simp
    show ?thesis
    proof (cases y)
      case (Inl r)
      then have "out = Return (Some r)" "s' = s1" using tc v Inr a by (simp_all add: TunnelConnect_def)
      moreover have "reply_fits ConnectAPI r"
        using a Inl by (auto simp: TunnelConnect_add_def Let_def split: prod.splits sum.splits option.splits)
      ultimately show ?thesis using server_inv_subset [OF i1, of "{}"] by (simp add: api_ok_def)
    next
      case (Inr cid)
      obtain z s2 where u: "TunnelConnect_update args t cid s1 = (z, s2)" by fastforce
      have i2: "z \<noteq> Panic" "z \<noteq> Blocked" "server_inv {} s2"
        using TunnelConnect_update_inv [OF i1 insertI1 md u] server_inv_subset [of "{t}" s2 "{}"] by simp_all
      obtain e where z: "z = Return e" using i2(1,2) by (cases z) simp_all
      have res: "(out, s') = (case e of
          None \<Rightarrow> if w_upgrade w \<noteq> Upgraded then
                    (Return (failed_upgrade (w_upgrade w)), TunnelConnect_disconnect now2 cid s2)
                  else (Return None, TunnelConnect_disconnect now2 cid (session s2))
        | Some r \<Rightarrow> (Return (Some r), s2))"
        using tc v \<open>x = Inr t\<close> a Inr u z by (simp add: TunnelConnect_def split: option.splits)
      have r: "reply_fits ConnectAPI r" if "e = Some r" for r
        using u z that by (auto simp: TunnelConnect_update_def Let_def split: option.splits prod.splits)
      show ?thesis
        using res r i2(3) ses TunnelConnect_disconnect_inv
        by (cases e; cases "failed_upgrade (w_upgrade w)") (auto simp: foreign_reply_def split: if_splits)
    qed
  qed
qed

lemma pre_reply:
  assumes "pre b val handler req s = (out, s')" and "server_inv {} (td_server s)"
    and "\<And>args. val args = None \<Longrightarrow> handler args s = (out, s') \<Longrightarrow>
      server_inv {} (td_server s') \<and> api_ok w req a out"
  shows "server_inv {} (td_server s') \<and> api_ok w req a out"
  using assms by (auto simp: pre_def PreProcess_def split: sum.splits option.splits)

lemma run_api_reply:
  assumes inv: "server_inv {} (td_server s)" and w: "world_ok w" and run: "run_api svc w a req s = (out, s')"
  shows "server_inv {} (td_server s') \<and> api_ok w req a out"
proof (cases a)
  case Login
  then show ?thesis using run inv by (auto simp: answer_def foreign_reply_def Services_Login_def Services_Logout_def)
next
  case Logout
  then show ?thesis using run inv by (auto simp: answer_def foreign_reply_def Services_Login_def Services_Logout_def)
next
  case OpenAPI
  show ?thesis
    by (rule pre_reply [OF run [unfolded OpenAPI run_api.simps] inv])
      (auto simp: answer_def OpenAPI split: prod.splits dest: OpenTunnel_reply [OF inv])
next
  case ListAPI
  show ?thesis
    by (rule pre_reply [OF run [unfolded ListAPI run_api.simps] inv])
      (use inv in \<open>auto simp: answer_def ListAPI listings_reply\<close>)
next
  case DescribeAPI
  show ?thesis
  proof (rule pre_reply [OF run [unfolded DescribeAPI run_api.simps] inv])
    fix i
    assume h: "(case DescribeTunnel (w_now w) i (td_server s) of
        Return r \<Rightarrow> answer r s | Panic \<Rightarrow> (Panic, s) | Blocked \<Rightarrow> (Blocked, s)) = (out, s')"
    obtain r where "DescribeTunnel (w_now w) i (td_server s) = Return r"
      using DescribeTunnel_returns [OF inv] by blast
    then show "server_inv {} (td_server s') \<and> api_ok w req a out"
      using h inv DescribeTunnel_reply by (auto simp: answer_def DescribeAPI)
  qed
next
  case CloseAPI
  show ?thesis
    by (rule pre_reply [OF run [unfolded CloseAPI run_api.simps] inv])
      (auto simp: answer_def CloseAPI split: prod.splits dest: CloseTunnel_reply [OF inv])
next
  case DebugListAPI
  show ?thesis
    by (rule pre_reply [OF run [unfolded DebugListAPI run_api.simps] inv])
      (use inv in \<open>auto simp: answer_def DebugListAPI listings_reply\<close>)
next
  case DebugSendAPI
  show ?thesis
    by (rule pre_reply [OF run [unfolded DebugSendAPI run_api.simps] inv])
      (use inv in \<open>auto simp: answer_def DebugSendAPI DebugSendToPeer_def Let_def
        split: prod.splits outcome.splits sum.splits\<close>)
next
  case ConnectAPI
  show ?thesis
  proof (rule pre_reply [OF run [unfolded ConnectAPI run_api.simps] inv])
    fix args
    assume "TunnelConnectArgs_Validate args = None"
      and "(let (out, sv) = TunnelConnect svc (w_random w) (w_upgrade w) (w_session w)
           (w_now w) (w_now_open w) (w_now_end w) args (td_server s)
         in (out, s\<lparr>td_server := sv,
          td_pm := (if out = Return None \<and> w_upgrade w = Upgraded then w_pm_session w (td_pm s)
                   else td_pm s)\<rparr>)) = (out, s')"
    then show "server_inv {} (td_server s') \<and> api_ok w req a out"
      using TunnelConnect_reply [OF inv, of args "w_session w"] w
      by (auto simp: world_ok_def ConnectAPI split: prod.splits)
  qed
qed

lemma map_of_routes:
  "map_of (routes debug) key = Some (f, a) \<Longrightarrow>
     (f \<longleftrightarrow> key \<noteq> (POST, ''/login'') \<and> key \<noteq> (GET, ''/tunnel'')) \<and>
     (a = ConnectAPI \<longleftrightarrow> key = (GET, ''/tunnel'')) \<and>
     (a = DebugSendAPI \<longleftrightarrow> debug \<and> key = (POST, ''/debug/tunnel/send''))"
  by (auto simp: routes_def split: if_splits)

lemma serve_reply:
  assumes inv: "server_inv {} (td_server s)" and w: "world_ok w"
    and run: "serve debug svc w meth path req s = (out, s')"
  shows "server_inv {} (td_server s') \<and>
    (case out of
       Return NotRouted \<Rightarrow> documented_api debug meth path = None
     | Return Taken \<Rightarrow> documented_api debug meth path = Some ConnectAPI
     | Return (Reply r) \<Rightarrow> \<exists>a. documented_api debug meth path = Some a \<and>
         (foreign_reply w req a r \<or> reply_fits a r)
     | _ \<Rightarrow> documented_api debug meth path = Some DebugSendAPI)"
proof (cases "map_of (routes debug) (meth, path)")
  case None
  then show ?thesis using run inv not_routed [of debug meth path] by (auto simp: serve_def)
next
  case (Some fa)
  obtain f a where fa: "map_of (routes debug) (meth, path) = Some (f, a)" using Some by (cases fa) simp
  have key: "documented_api debug meth path = Some a"
    using routes_documented [of debug meth path] fa by simp
  show ?thesis
  proof (cases "if f then AuthFilter svc (w_has_auth w) req else None")
    case (Some r)
    then have "reply_fits a r" by (auto simp: AuthFilter_def split: if_splits option.splits)
    then show ?thesis using run inv fa Some key by (auto simp: serve_def)
  next
    case None
    obtain out1 s1 where r: "run_api svc w a req s = (out1, s1)" by fastforce
    have ok: "server_inv {} (td_server s1) \<and> api_ok w req a out1"
      using run_api_reply [OF inv w r] by simp
    have "out = reply_of out1" "s' = s1" using run fa None r by (simp_all add: serve_def)
    then show ?thesis
      using ok key by (cases out1 rule: reply_of.cases) simp_all
  qed
qed

interpretation daemon: invariant_system "\<lambda>s. tunneld_main = Inr s" "tunneld_step svc"
    "\<lambda>s. server_inv {} (td_server s)"
  for svc
proof
  show "server_inv {} (td_server s)" if "tunneld_main = Inr s" for s
    using that server_init_inv
    by (auto simp: tunneld_main_def NilAuthorizer_Init_def NilNotifier_Init_def Services_Start_def)
  show "server_inv {} (td_server t)" if "tunneld_step svc s t" "server_inv {} (td_server s)" for s t
    using that by cases (auto simp: expiry_tick_def dest: serve_reply)
qed

section \<open>Properties\<close>

text \<open>
  C26 (type): the replies are those of the interface.  Whatever requests the server has served since
  its start and however often it has looked for expired connections, what comes of a request is
  one of five: it is not routed, and then its method and path are none of the interface; its
  connection is taken over from HTTP, at \<open>GET /tunnel\<close> only; its service replies with status 200 and
  the body of that service, or with status 400, 401 or 500 and a message; the reply is not the
  server's own, which is so for the login and the logout (the authorizer's) and for a connection
  whose upgrade fails (the websocket library's, with the server's message behind it); or the
  handler waits or panics, which only the debug service that sends messages can do.
\<close>

theorem replies_well_typed:
  assumes "reachable (\<lambda>s. tunneld_main = Inr s) (tunneld_step svc) s" and "world_ok w"
    and "serve debug svc w meth path req s = (out, s')"
  shows "(case out of
       Return NotRouted \<Rightarrow> documented_api debug meth path = None
     | Return Taken \<Rightarrow> documented_api debug meth path = Some ConnectAPI
     | Return (Reply r) \<Rightarrow> \<exists>a. documented_api debug meth path = Some a \<and>
         (foreign_reply w req a r \<or> reply_fits a r)
     | _ \<Rightarrow> documented_api debug meth path = Some DebugSendAPI)"
  using serve_reply [OF daemon.reachable_inv [OF assms(1)] assms(2,3)] by blast

text \<open>A world whose requests open a tunnel of one minute, and a later one that describes it.\<close>

definition no_binding :: "'a gin_binding" where
  "no_binding = \<lparr>bind_form = (\<lambda>req. Inl ''EOF''), bind_head = (\<lambda>req a. Inr a)\<rparr>"

definition demo_world :: world where
  "demo_world =
     \<lparr>w_open = \<lparr>bind_form = (\<lambda>req. Inr (sample_open 1)), bind_head = (\<lambda>req a. Inr a)\<rparr>,
      w_close = no_binding, w_describe = no_binding, w_list = no_binding, w_debug_list = no_binding,
      w_send = no_binding, w_connect = no_binding, w_login = NilAuthorizer_Login,
      w_logout = NilAuthorizer_Logout, w_has_auth = NilAuthorizer_HasAuth,
      w_notify = NilNotifier_Notify, w_random = sample_rnd, w_now = 0, w_now_open = 0, w_now_end = 0,
      w_order = [], w_corder = [], w_upgrade = Upgraded, w_session = (\<lambda>s. s),
      w_pm_session = (\<lambda>pm. pm)\<rparr>"

lemma demo_world_ok: "world_ok demo_world"
  by (simp add: world_ok_def demo_world_def)

lemma tunneld_main_start: "tunneld_main = Inr (Services_Start server_init)"
  by (simp add: tunneld_main_def NilAuthorizer_Init_def NilNotifier_Init_def)

lemma demo_opened:
  "serve debugMode sample_svc demo_world POST ''/tunnel/open'' '''' (Services_Start server_init) =
     (Return (Reply (json StatusOK (OpenBody \<lparr>otr_TunnelID = ''a'', otr_DestinationToken = ''a_c'',
        otr_SourceToken = ''a_b''\<rparr>))), Services_Start (sample_server 1))"
proof -
  have "map_of (routes debugMode) (POST, ''/tunnel/open'') = Some (True, OpenAPI)"
    by (simp add: routes_def)
  moreover have "AuthFilter sample_svc h '''' = None" for h :: "http_req \<Rightarrow> string option"
    by (simp add: AuthFilter_def sample_svc_def)
  moreover have "OpenTunnel sample_svc sample_rnd NilNotifier_Notify 0 (sample_open 1) server_init =
      (json StatusOK (OpenBody \<lparr>otr_TunnelID = ''a'', otr_DestinationToken = ''a_c'',
          otr_SourceToken = ''a_b''\<rparr>), sample_server 1)"
    by (simp add: sample_OpenTunnel NilNotifier_Notify_def)
  ultimately show ?thesis
    by (simp add: serve_def demo_world_def pre_def PreProcess_def valid_def answer_def Services_Start_def)
qed

theorem replies_well_typed_witness:
  "\<exists>r. fst (serve debugMode sample_svc demo_world GET ''/tunnel/describe'' '''' (Services_Start (sample_server 1))) =
       Return (Reply r) \<and> reply_fits DescribeAPI r"
proof -
  have "reachable (\<lambda>s. tunneld_main = Inr s) (tunneld_step sample_svc) (Services_Start server_init)"
    by (rule reachable.start) (simp add: tunneld_main_start)
  then have r: "reachable (\<lambda>s. tunneld_main = Inr s) (tunneld_step sample_svc) (Services_Start (sample_server 1))"
    by (rule reachable.step) (rule tunneld_step.request [OF demo_world_ok demo_opened])
  have k: "map_of (routes debugMode) (GET, ''/tunnel/describe'') = Some (True, DescribeAPI)"
    by (simp add: routes_def)
  then have "\<exists>r. fst (serve debugMode sample_svc demo_world GET ''/tunnel/describe'' ''''
      (Services_Start (sample_server 1))) = Return (Reply r)"
    by (simp add: serve_def AuthFilter_def sample_svc_def demo_world_def pre_def PreProcess_def no_binding_def)
  then obtain r s' where "serve debugMode sample_svc demo_world GET ''/tunnel/describe'' ''''
      (Services_Start (sample_server 1)) = (Return (Reply r), s')"
    by (metis prod.collapse)
  with replies_well_typed [OF r demo_world_ok this] show ?thesis
    by (simp add: documented_api_def foreign_reply_def)
qed

lemma taken_accepted:
  assumes "serve debug svc w meth path req s = (Return Taken, s')" and "server_inv {} (td_server s)"
    and "world_ok w"
  shows "\<exists>args t. TunnelConnectArgs_Validate args = None \<and> accepts (w_now_open w) args (td_server s) t"
proof -
  have "documented_api debug meth path = Some ConnectAPI"
    using serve_reply [OF assms(2,3,1)] by simp
  then have key: "(meth, path) = (GET, ''/tunnel'')"
    by (auto simp: documented_api_def split: http_method.splits if_splits)
  then have "map_of (routes debug) (meth, path) = Some (False, ConnectAPI)"
    by (simp add: routes_def)
  then obtain s1 where "run_api svc w ConnectAPI req s = (Return None, s1)"
    using assms(1) by (auto simp: serve_def split: prod.splits elim!: reply_of.elims)
  then obtain args where args: "TunnelConnectArgs_Validate args = None"
    "fst (TunnelConnect svc (w_random w) (w_upgrade w) (w_session w) (w_now w) (w_now_open w)
       (w_now_end w) args (td_server s)) = Return None"
    by (auto simp: pre_def PreProcess_def split: sum.splits option.splits prod.splits)
  then obtain t where "TunnelConnect_verify (w_now_open w) args (td_server s) = Return (Inr t)"
    by (auto simp: TunnelConnect_def split: outcome.splits sum.splits)
  with args(1) show ?thesis using TunnelConnect_verify_Inr by blast
qed

text \<open>
  C25 (safety): who may do what.  When the services need authentication, a request that the
  authorizer refuses changes nothing, whatever its method and path are but for the login and the
  websocket: it is answered with status 401, or not routed at all.  And no connection is taken over
  by a websocket unless its request was valid and its token, for its mode, is that of an open
  tunnel which is free or bound to the same client token.
\<close>

theorem access_control:
  assumes "reachable (\<lambda>s. tunneld_main = Inr s) (tunneld_step svc) s" and "world_ok w"
  shows "(svc_NeedAuth svc \<and> w_has_auth w req = Some err \<and>
      (meth, path) \<notin> {(POST, ''/login''), (GET, ''/tunnel'')} \<longrightarrow>
      serve debug svc w meth path req s =
        (Return (if map_of (routes debug) (meth, path) = None then NotRouted
                 else Reply (json StatusUnauthorized (Message err))), s)) \<and>
    (fst (serve debug svc w meth path req s) = Return Taken \<longrightarrow>
      (\<exists>args t. TunnelConnectArgs_Validate args = None \<and> accepts (w_now_open w) args (td_server s) t))"
proof (intro conjI impI)
  assume h: "svc_NeedAuth svc \<and> w_has_auth w req = Some err \<and>
      (meth, path) \<notin> {(POST, ''/login''), (GET, ''/tunnel'')}"
  show "serve debug svc w meth path req s =
      (Return (if map_of (routes debug) (meth, path) = None then NotRouted
               else Reply (json StatusUnauthorized (Message err))), s)"
  proof (cases "map_of (routes debug) (meth, path)")
    case (Some fa)
    then show ?thesis
      using h map_of_routes [of debug "(meth, path)" "fst fa" "snd fa"]
      by (cases fa) (simp add: serve_def AuthFilter_def)
  qed (simp add: serve_def)
next
  assume "fst (serve debug svc w meth path req s) = Return Taken"
  then obtain s' where "serve debug svc w meth path req s = (Return Taken, s')"
    by (metis prod.collapse)
  then show "\<exists>args t. TunnelConnectArgs_Validate args = None \<and> accepts (w_now_open w) args (td_server s) t"
    using taken_accepted daemon.reachable_inv [OF assms(1)] assms(2) by blast
qed

theorem access_control_witness:
  "serve True (sample_svc\<lparr>svc_NeedAuth := True\<rparr>) (demo_world\<lparr>w_has_auth := (\<lambda>req. Some ''no credentials'')\<rparr>)
       GET ''/debug/tunnel/list'' '''' (Services_Start server_init) =
     (Return (Reply (json StatusUnauthorized (Message ''no credentials''))), Services_Start server_init)"
proof -
  let ?svc = "sample_svc\<lparr>svc_NeedAuth := True\<rparr>"
  let ?w = "demo_world\<lparr>w_has_auth := (\<lambda>req. Some ''no credentials'')\<rparr>"
  have r: "reachable (\<lambda>s. tunneld_main = Inr s) (tunneld_step ?svc) (Services_Start server_init)"
    by (rule reachable.start) (simp add: tunneld_main_start)
  have w: "world_ok ?w" by (simp add: world_ok_def demo_world_def)
  have k: "map_of (routes True) (GET, ''/debug/tunnel/list'') = Some (True, DebugListAPI)"
    by (simp add: routes_def)
  show ?thesis
    using access_control [OF r w, THEN conjunct1, of "''''" "''no credentials''" GET
        "''/debug/tunnel/list''" True]
    unfolding k by simp
qed

end
