(* ===== verification/Tunnel_Spec.thy ===== *)
theory Tunnel_Spec
  imports Tunnel_Lifecycle
begin

text \<open>
  An abstract specification of the tunnel service, and its refinement by the handlers of
  \<^verbatim>\<open>misc/server\<close> when they run one after the other: a map from identifiers to tunnels
  with two seats, without peers behind pointers, revisions or a table of connections.  The locale
  \<open>trace_refinement\<close> carries a simulation to histories; what is proved of the specification
  then holds of every history of the server.  The theory \<^verbatim>\<open>Tunnel_Lifecycle\<close> shows that handlers
  that race break the specification.
\<close>

section \<open>Histories and refinement\<close>

inductive history :: "('s \<Rightarrow> 'l \<Rightarrow> 's \<Rightarrow> bool) \<Rightarrow> 's \<Rightarrow> 'l list \<Rightarrow> 's \<Rightarrow> bool"
  for step :: "'s \<Rightarrow> 'l \<Rightarrow> 's \<Rightarrow> bool" where
  none: "history step s [] s"
| more: "history step s ls t \<Longrightarrow> step t l u \<Longrightarrow> history step s (ls @ [l]) u"

inductive_cases history_NilE: "history step s [] t"
inductive_cases history_snocE: "history step s (ls @ [l]) t"

lemma history_Nil [simp]: "history step s [] t \<longleftrightarrow> s = t"
  by (auto elim: history_NilE intro: history.none)

lemma history_snoc [simp]: "history step s (ls @ [l]) u \<longleftrightarrow> (\<exists>t. history step s ls t \<and> step t l u)"
  by (auto elim: history_snocE intro: history.more)

lemma history_one [simp]: "history step s [l] t \<longleftrightarrow> step s l t"
  using history_snoc [of step s "[]" l t] by simp

lemma history_append:
  "history step s (ls @ ms) u \<longleftrightarrow> (\<exists>t. history step s ls t \<and> history step t ms u)"
proof (induction ms arbitrary: u rule: rev_induct)
  case (snoc m ms)
  show ?case
    unfolding append_assoc [symmetric] history_snoc using snoc by auto
qed simp

lemma history_Cons:
  "history step s (l # ls) u \<longleftrightarrow> (\<exists>t. step s l t \<and> history step t ls u)"
  using history_append [of step s "[l]" ls u] by simp

locale trace_refinement =
  fixes step :: "'s \<Rightarrow> 'l \<Rightarrow> 's \<Rightarrow> bool"
    and astep :: "'a \<Rightarrow> 'l \<Rightarrow> 'a \<Rightarrow> bool"
    and inv :: "'s \<Rightarrow> bool"
    and abs :: "'s \<Rightarrow> 'a"
  assumes step_keeps: "step s l t \<Longrightarrow> inv s \<Longrightarrow> inv t"
    and simulation: "step s l t \<Longrightarrow> inv s \<Longrightarrow> astep (abs s) l (abs t)"
begin

lemma history_inv: "history step s ls t \<Longrightarrow> inv s \<Longrightarrow> inv t"
  by (induction rule: history.induct) (auto intro: step_keeps)

lemma history_refines: "history step s ls t \<Longrightarrow> inv s \<Longrightarrow> history astep (abs s) ls (abs t)"
  by (induction rule: history.induct) (auto intro: history.intros simulation history_inv)

end

section \<open>The specification\<close>

text \<open>
  A seat of a tunnel belongs to a mode.  Who holds it: the client token, the connection that
  serves it, and the state of that connection.
\<close>

record holder =
  h_client :: string
  h_connection :: string
  h_state :: DescribeTunnelConnectionState

record spec_tunnel =
  st_ThingName :: string
  st_Minutes :: uint
  st_Payload :: string
  st_Created :: time
  st_Updated :: time
  st_Until :: time
  st_Token :: "string \<Rightarrow> string"
  st_Holder :: "string \<Rightarrow> holder option"

type_synonym spec_state = "string \<Rightarrow> spec_tunnel option"

text \<open>What a request shows to the outside: the request, its times and its answer.\<close>

datatype call =
    OpenCall time OpenTunnelRequest response
  | CloseCall time CloseTunnelRequest response
  | ConnectCall time time TunnelConnectArgs "response + string"
      \<comment> \<open>begin, check of the lifetime; the refusal, or the new connection\<close>
  | ConnectionEnded time string
  | DescribeCall time string response
  | ListCall time response

definition not_found :: "string \<Rightarrow> string" where
  "not_found i = ''tunnel not found id='' @ i"

definition spec_open :: "time \<Rightarrow> OpenTunnelRequest \<Rightarrow> string \<Rightarrow> string \<Rightarrow> spec_tunnel" where
  "spec_open now req src dst =
     (let minutes = (if or_TimeoutMinutes req = 0 then 720 else or_TimeoutMinutes req)
      in \<lparr>st_ThingName = or_ThingName req, st_Minutes = minutes, st_Payload = or_Payload req,
          st_Created = now, st_Updated = now, st_Until = add_minutes now minutes,
          st_Token = (\<lambda>m. if m = ModeDestination then dst else if m = ModeSource then src else ''''),
          st_Holder = Map.empty\<rparr>)"

definition spec_close ::
  "time \<Rightarrow> CloseTunnelRequest \<Rightarrow> spec_state \<Rightarrow> response \<times> spec_state" where
  "spec_close now req \<sigma> =
     (case \<sigma> (cr_TunnelID req) of
        None \<Rightarrow> (json StatusBadRequest (Message (not_found (cr_TunnelID req))), \<sigma>)
      | Some a \<Rightarrow>
          (json StatusOK CloseBody,
           \<sigma>(cr_TunnelID req :=
              (if cr_Delete req then None else Some (a\<lparr>st_Updated := now, st_Until := now\<rparr>)))))"

text \<open>Why a connection request is refused, if it is.\<close>

definition spec_refusal :: "time \<Rightarrow> TunnelConnectArgs \<Rightarrow> spec_state \<Rightarrow> string option" where
  "spec_refusal at args \<sigma> =
     (let i = token_TunnelID (ca_AccessToken args); m = ca_Mode args
      in case \<sigma> i of
           None \<Rightarrow> Some (''invalid access-token: '' @ not_found i)
         | Some a \<Rightarrow>
             if ca_AccessToken args \<noteq> st_Token a m then
               Some (if ca_AccessToken args = st_Token a (OtherMode m)
                     then ''access-token for '' @ OtherMode m @
                       '' mode was specified for the connection in '' @ m @ '' mode''
                     else ''invalid access-token'')
             else if (\<exists>h \<in> set_option (st_Holder a m). h_client h \<noteq> ca_ClientToken args)
             then Some ''invalid client-token''
             else if st_Until a < at then Some StatusReasonTunnelClosed
             else None)"

definition spec_connect ::
  "time \<Rightarrow> TunnelConnectArgs \<Rightarrow> string \<Rightarrow> spec_state \<Rightarrow> spec_state" where
  "spec_connect now args cid \<sigma> =
     (let i = token_TunnelID (ca_AccessToken args)
      in \<sigma>(i := map_option (\<lambda>a. a\<lparr>st_Holder := (st_Holder a)(ca_Mode args \<mapsto>
           \<lparr>h_client = ca_ClientToken args, h_connection = cid,
            h_state = \<lparr>dcs_Status = ConnStatusConnected, dcs_LastUpdatedAt = now\<rparr>\<rparr>)\<rparr>) (\<sigma> i)))"

definition end_holder :: "time \<Rightarrow> string \<Rightarrow> holder \<Rightarrow> holder" where
  "end_holder now cid h =
     (if h_connection h = cid
      then h\<lparr>h_state := \<lparr>dcs_Status = ConnStatusDisconnected, dcs_LastUpdatedAt = now\<rparr>\<rparr>
      else h)"

definition spec_end :: "time \<Rightarrow> string \<Rightarrow> spec_state \<Rightarrow> spec_state" where
  "spec_end now cid \<sigma> =
     (\<lambda>i. map_option (\<lambda>a. a\<lparr>st_Holder := map_option (end_holder now cid) \<circ> st_Holder a\<rparr>) (\<sigma> i))"

definition seat_state :: "holder option \<Rightarrow> DescribeTunnelConnectionState" where
  "seat_state x =
     (case x of
        None \<Rightarrow> \<lparr>dcs_Status = ConnStatusDisconnected, dcs_LastUpdatedAt = zero_time\<rparr>
      | Some h \<Rightarrow> h_state h)"

definition spec_status :: "time \<Rightarrow> spec_tunnel \<Rightarrow> string" where
  "spec_status now a = (if now \<le> st_Until a then TunnelStatusOpen else TunnelStatusClosed)"

definition spec_describe :: "time \<Rightarrow> string \<Rightarrow> spec_state \<Rightarrow> response" where
  "spec_describe now i \<sigma> =
     (case \<sigma> i of
        None \<Rightarrow> json StatusBadRequest (Message (not_found i))
      | Some a \<Rightarrow> json StatusOK (DescribeBody
          \<lparr>dtr_TunnelID = i, dtr_ThingName = st_ThingName a, dtr_TimeoutMinutes = st_Minutes a,
           dtr_Payload = st_Payload a, dtr_Status = spec_status now a,
           dtr_DstConnState = seat_state (st_Holder a ModeDestination),
           dtr_SrcConnState = seat_state (st_Holder a ModeSource),
           dtr_LastUpdatedAt = st_Updated a, dtr_CreatedAt = st_Created a\<rparr>))"

definition spec_summary :: "time \<Rightarrow> string \<Rightarrow> spec_tunnel \<Rightarrow> ListTunnelsTunnel" where
  "spec_summary now i a =
     \<lparr>ltt_ID = i, ltt_Status = spec_status now a, ltt_ThingName = st_ThingName a,
      ltt_LastUpdatedAt = st_Updated a\<rparr>"

text \<open>
  What may happen.  The answers are determined, but for the identifiers, the tokens and the
  connections, which are chosen fresh, the order of a listing, and internal errors.
\<close>

inductive spec_step :: "spec_state \<Rightarrow> call \<Rightarrow> spec_state \<Rightarrow> bool" where
  opened: "\<sigma> i = None \<Longrightarrow> token_TunnelID src = i \<Longrightarrow> token_TunnelID dst = i \<Longrightarrow>
    spec_step \<sigma> (OpenCall now req (json StatusOK (OpenBody
       \<lparr>otr_TunnelID = i, otr_DestinationToken = dst, otr_SourceToken = src\<rparr>)))
      (\<sigma>(i \<mapsto> spec_open now req src dst))"
| open_failed: "code r = StatusInternalServerError \<Longrightarrow> spec_step \<sigma> (OpenCall now req r) \<sigma>"
| closed: "spec_close now creq \<sigma> = (r, \<sigma>') \<Longrightarrow> spec_step \<sigma> (CloseCall now creq r) \<sigma>'"
| connect_refused: "spec_refusal at args \<sigma> = Some why \<Longrightarrow>
    spec_step \<sigma> (ConnectCall now at args (Inl (refuse StatusBadRequest why))) \<sigma>"
| connect_failed: "spec_refusal at args \<sigma> = None \<Longrightarrow> code r = StatusInternalServerError \<Longrightarrow>
    spec_step \<sigma> (ConnectCall now at args (Inl r)) \<sigma>"
| connected: "spec_refusal at args \<sigma> = None \<Longrightarrow>
    (\<And>i a m h. \<sigma> i = Some a \<Longrightarrow> st_Holder a m = Some h \<Longrightarrow> h_connection h \<noteq> cid) \<Longrightarrow>
    spec_step \<sigma> (ConnectCall now at args (Inr cid)) (spec_connect now args cid \<sigma>)"
| ended: "spec_step \<sigma> (ConnectionEnded now cid) (spec_end now cid \<sigma>)"
| described: "spec_step \<sigma> (DescribeCall now i (spec_describe now i \<sigma>)) \<sigma>"
| listed: "distinct ids \<Longrightarrow> set ids = dom \<sigma> \<Longrightarrow>
    spec_step \<sigma> (ListCall now (json StatusOK
      (ListBody (map (\<lambda>i. spec_summary now i (the (\<sigma> i))) ids)))) \<sigma>"

section \<open>The handlers one after the other\<close>

text \<open>
  One handler at a time, except that a connection lives while others run: its handler is a step
  up to the upgrade and one for its deferred function.
\<close>

inductive serial_step :: "Services \<Rightarrow> server \<Rightarrow> call \<Rightarrow> server \<Rightarrow> bool" for svc :: Services where
  open_call: "OpenTunnel svc rnd notify now req s = (r, s') \<Longrightarrow>
    serial_step svc s (OpenCall now req r) s'"
| close_call: "CloseTunnel now creq s = (r, s') \<Longrightarrow> serial_step svc s (CloseCall now creq r) s'"
| connect_refused: "TunnelConnectArgs_Validate args = None \<Longrightarrow>
    TunnelConnect_verify at args s = Return (Inl r) \<Longrightarrow>
    serial_step svc s (ConnectCall now at args (Inl r)) s"
| connect_call: "TunnelConnectArgs_Validate args = None \<Longrightarrow>
    TunnelConnect_verify at args s = Return (Inr t) \<Longrightarrow>
    connect_commit svc rnd now args t s = (Return x, s') \<Longrightarrow>
    serial_step svc s (ConnectCall now at args x) s'"
| connection_ended: "serial_step svc s (ConnectionEnded now cid) (TunnelConnect_disconnect now cid s)"
| describe_call: "DescribeTunnel now i s = Return r \<Longrightarrow> serial_step svc s (DescribeCall now i r) s"
| list_call: "iteration_order (tunnelTable (sv_store s)) order \<Longrightarrow>
    serial_step svc s (ListCall now (ListTunnels order now s)) s"

section \<open>Abstraction\<close>

definition seat_holder :: "server \<Rightarrow> peer_ptr \<Rightarrow> holder option" where
  "seat_holder s ptr =
     (case ptr of
        None \<Rightarrow> None
      | Some p \<Rightarrow>
          let peer = sv_peers s ! p
          in if 0 < p_NumOfConn peer
             then Some \<lparr>h_client = p_ClientToken peer, h_connection = p_ConnectionID peer,
                        h_state = conn_state (p_ConnectionID peer) s\<rparr>
             else None)"

definition view_tunnel :: "server \<Rightarrow> Tunnel \<Rightarrow> spec_tunnel" where
  "view_tunnel s t =
     \<lparr>st_ThingName = t_ThingName t, st_Minutes = t_TimeoutMinutes t, st_Payload = t_Payload t,
      st_Created = t_CreatedAt t, st_Updated = t_LastUpdatedAt t, st_Until = t_LifetimeAt t,
      st_Token = Tunnel_Token t, st_Holder = (\<lambda>m. seat_holder s (Tunnel_Peer t m))\<rparr>"

definition view :: "server \<Rightarrow> spec_state" where
  "view s = (\<lambda>i. map_option (view_tunnel s) (tunnel_at (sv_store s) i))"

text \<open>A peer that was taken names a stored connection, one that was not names none.\<close>

definition peer_ok :: "server \<Rightarrow> Peer \<Rightarrow> bool" where
  "peer_ok s peer \<longleftrightarrow>
     (if 0 < p_NumOfConn peer then connection_at (sv_store s) (p_ConnectionID peer) \<noteq> None
      else p_ConnectionID peer = '''')"

definition serial_inv :: "server \<Rightarrow> bool" where
  "serial_inv s \<longleftrightarrow>
     server_inv {} s \<and> connection_at (sv_store s) '''' = None \<and> (\<forall>p \<in> set (sv_peers s). peer_ok s p)"

lemma serial_invD:
  assumes "serial_inv s"
  shows "server_inv {} s" "connection_at (sv_store s) '''' = None"
    "p < length (sv_peers s) \<Longrightarrow> peer_ok s (sv_peers s ! p)"
  using assms by (simp_all add: serial_inv_def)

lemma view_sel:
  "view s i = None \<longleftrightarrow> tunnel_at (sv_store s) i = None"
  "view s i = Some a \<longleftrightarrow> (\<exists>t. tunnel_at (sv_store s) i = Some t \<and> a = view_tunnel s t)"
  by (auto simp: view_def)

lemma view_tunnel_sel [simp]:
  "st_ThingName (view_tunnel s t) = t_ThingName t" "st_Minutes (view_tunnel s t) = t_TimeoutMinutes t"
  "st_Payload (view_tunnel s t) = t_Payload t" "st_Created (view_tunnel s t) = t_CreatedAt t"
  "st_Updated (view_tunnel s t) = t_LastUpdatedAt t" "st_Until (view_tunnel s t) = t_LifetimeAt t"
  "st_Token (view_tunnel s t) = Tunnel_Token t"
  "st_Holder (view_tunnel s t) m = seat_holder s (Tunnel_Peer t m)"
  by (simp_all add: view_tunnel_def)

lemma conn_state_cong:
  "connection_at (sv_store s') c = connection_at (sv_store s) c \<Longrightarrow> conn_state c s' = conn_state c s"
  by (simp add: conn_state_def GetConnection_def table_getWithKey_def)

text \<open>Neither the peers of a tunnel nor their connections changed.\<close>

lemma view_tunnel_cong:
  assumes "\<And>m p. Tunnel_Peer t m = Some p \<Longrightarrow> sv_peers s' ! p = sv_peers s ! p \<and>
      conn_state (p_ConnectionID (sv_peers s ! p)) s' = conn_state (p_ConnectionID (sv_peers s ! p)) s"
  shows "view_tunnel s' t = view_tunnel s t"
  using assms by (auto simp: view_tunnel_def seat_holder_def Let_def fun_eq_iff split: option.splits)

lemma Tunnel_Peer_stored:
  assumes "server_inv F s" and "tunnel_at (sv_store s) i = Some t" and "Tunnel_Peer t m = Some p"
  shows "p < length (sv_peers s)" and "m = ModeSource \<or> m = ModeDestination" and "p \<in> tunnel_ptrs t"
  using server_invD(2) [OF assms(1,2)] assms(3)
  by (auto simp: tunnel_ok_def Tunnel_Peer_def tunnel_ptrs_def split: if_splits)

lemma peer_unshared:
  assumes "server_inv F s" and "tunnel_at (sv_store s) i = Some t" "tunnel_at (sv_store s) j = Some u"
    and "Tunnel_Peer t m = Some p" "Tunnel_Peer u n = Some p"
  shows "i = j" and "m = n"
proof -
  have ids: "t_ID t = i" "t_ID u = j" using server_invD(4) [OF assms(1)] assms(2,3) by auto
  have "t \<in> stored s" "u \<in> stored s" using assms(2,3) by (auto intro: ranI)
  then have "t_ID t \<noteq> t_ID u \<Longrightarrow> tunnel_ptrs t \<inter> tunnel_ptrs u = {}"
    using assms(1) by (auto simp: server_inv_def dest: tunnels_ok_disjoint)
  then show "i = j"
    using Tunnel_Peer_stored(3) [OF assms(1,2,4)] Tunnel_Peer_stored(3) [OF assms(1,3,5)] ids by auto
  then show "m = n"
    using assms(2-5) server_invD(2) [OF assms(1,2)]
    by (auto simp: tunnel_ok_def Tunnel_Peer_def split: if_splits)
qed

text \<open>
  A step that changes one stored tunnel at most, and of the peers at most some that no stored
  tunnel names.
\<close>

lemma view_tunnel_same:
  assumes "serial_inv s" and "tunnel_at (sv_store s) i = Some t"
    and "connection_at (sv_store s') = connection_at (sv_store s)"
    and "\<And>p. p < length (sv_peers s) \<Longrightarrow> sv_peers s' ! p = sv_peers s ! p"
  shows "view_tunnel s' t = view_tunnel s t"
  using assms(3,4) Tunnel_Peer_stored(1) [OF serial_invD(1) [OF assms(1)] assms(2)]
  by (intro view_tunnel_cong conjI conn_state_cong) auto

lemma view_upd:
  assumes "serial_inv s" and "tunnel_at (sv_store s') = (tunnel_at (sv_store s))(i := x)"
    and "connection_at (sv_store s') = connection_at (sv_store s)"
    and "\<And>p. p < length (sv_peers s) \<Longrightarrow> sv_peers s' ! p = sv_peers s ! p"
  shows "view s' = (view s)(i := map_option (view_tunnel s') x)"
  using view_tunnel_same [OF assms(1) _ assms(3,4)]
  by (auto simp: view_def assms(2) fun_eq_iff intro!: option.map_cong)

lemma view_same:
  assumes "serial_inv s" and "tunnel_at (sv_store s') = tunnel_at (sv_store s)"
    and "connection_at (sv_store s') = connection_at (sv_store s)"
    and "\<And>p. p < length (sv_peers s) \<Longrightarrow> sv_peers s' ! p = sv_peers s ! p"
  shows "view s' = view s"
  using view_tunnel_same [OF assms(1) _ assms(3,4)]
  by (auto simp: view_def assms(2) fun_eq_iff intro!: option.map_cong)

lemma serial_inv_keep:
  assumes "serial_inv s" and "server_inv F s'"
    and "connection_at (sv_store s') = connection_at (sv_store s)"
    and "\<And>p. p \<in> set (sv_peers s') \<Longrightarrow> p \<in> set (sv_peers s) \<or> p = zero_Peer"
  shows "serial_inv s'"
  using assms(1,3,4) server_inv_subset [OF assms(2), of "{}"]
  by (fastforce simp: serial_inv_def peer_ok_def zero_Peer_def)

section \<open>Simulation, handler by handler\<close>

lemma seat_holder_None [simp]: "seat_holder s None = None"
  by (simp add: seat_holder_def)

lemma seat_holder_fresh: "sv_peers s ! p = zero_Peer \<Longrightarrow> seat_holder s (Some p) = None"
  by (simp add: seat_holder_def zero_Peer_def)

lemma view_tunnel_fresh:
  assumes "OpenTunnel_add svc rnd now req s = (Inr t, s')" and "server_inv F s"
  shows "view_tunnel s' t = spec_open now req (t_SourceToken t) (t_DestinationToken t)"
  using OpenTunnel_add_Inr [OF assms(2,1)]
  by (auto simp: view_tunnel_def spec_open_def Let_def fun_eq_iff Tunnel_Token_def Tunnel_Peer_def
      seat_holder_fresh nth_append)

lemma OpenTunnel_serial:
  assumes "serial_inv s" and "OpenTunnel svc rnd notify now req s = (r, s')"
  shows "serial_inv s' \<and> spec_step (view s) (OpenCall now req r) (view s')"
proof (cases "OpenTunnel_add svc rnd now req s")
  case (Pair x s1)
  note inv = serial_invD(1) [OF assms(1)]
  show ?thesis
  proof (cases x)
    case (Inl e)
    note add = OpenTunnel_add_Inl [OF inv Pair [unfolded Inl]]
    have s': "r = e" "s' = s1" using assms(2) Pair Inl by (simp_all add: OpenTunnel_def)
    have "server_inv {} s1" using OpenTunnel_add_inv [OF inv Pair] Inl by simp
    then have "serial_inv s1"
      using add by (intro serial_inv_keep [OF assms(1)]) auto
    moreover have "view s1 = view s"
      using add by (intro view_same [OF assms(1)]) (auto simp: nth_append)
    ultimately show ?thesis
      using add s' by (simp add: spec_step.open_failed)
  next
    case (Inr t)
    note add = Pair [unfolded Inr]
    note t = OpenTunnel_add_Inr [OF inv add]
    have inv1: "server_inv {t} s1" using OpenTunnel_add_inv [OF inv add] by simp
    have id: "t_ID t = token_TunnelID (t_SourceToken t)" "t_ID t = token_TunnelID (t_DestinationToken t)"
      using t(6) by (simp_all add: tunnel_ok_def)
    show ?thesis
    proof (cases "notify t")
      case None
      then have s': "s' = s1" "r = json StatusOK (OpenBody \<lparr>otr_TunnelID = t_ID t,
          otr_DestinationToken = t_DestinationToken t, otr_SourceToken = t_SourceToken t\<rparr>)"
        using assms(2) add by (simp_all add: OpenTunnel_def OpenTunnel_notify_def)
      have "serial_inv s1"
        using t by (intro serial_inv_keep [OF assms(1) inv1]) auto
      moreover have "view s1 = (view s)(t_ID t \<mapsto> view_tunnel s1 t)"
        using t by (subst view_upd [OF assms(1), of s1 "t_ID t" "Some t"]) (auto simp: nth_append)
      moreover have "view s (t_ID t) = None" using t(1) by (simp add: view_sel)
      then have "spec_step (view s) (OpenCall now req r)
          ((view s)(t_ID t \<mapsto> spec_open now req (t_SourceToken t) (t_DestinationToken t)))"
        unfolding s'(2) by (rule spec_step.opened) (rule id [symmetric])+
      ultimately show ?thesis
        unfolding s'(1) view_tunnel_fresh [OF add inv] by simp
    next
      case (Some err)
      then have "s' = s1\<lparr>sv_store := set_tunnel None (t_ID t) (sv_store s1)\<rparr>"
        and code: "code r = StatusInternalServerError"
        using assms(2) add by (auto simp: OpenTunnel_def OpenTunnel_notify_def DeleteTunnel_set json_def)
      then have s': "s' = s1\<lparr>sv_store := sv_store s\<rparr>"
        unfolding t(2) set_tunnel_undo [OF t(1)] by simp
      have "server_inv {t} s'"
        using OpenTunnel_notify_inv [OF inv1, of notify t r s'] assms(2) add by (simp add: OpenTunnel_def)
      then have "serial_inv s'"
        using t s' by (intro serial_inv_keep [OF assms(1)]) auto
      moreover have "view s' = view s"
        using t s' by (intro view_same [OF assms(1)]) (auto simp: nth_append)
      ultimately show ?thesis
        using code by (simp add: spec_step.open_failed)
    qed
  qed
qed

lemma not_found_GetTunnel:
  "tunnel_at (sv_store s) i = None \<Longrightarrow> GetTunnel i (sv_store s) = Inl (not_found i)"
  by (simp add: GetTunnel_def table_getWithKey_def not_found_def)

lemma Tunnel_sel_close:
  "Tunnel_Token (t\<lparr>t_LifetimeAt := a, t_LastUpdatedAt := b, t_Rev := c\<rparr>) = Tunnel_Token t"
  "Tunnel_Peer (t\<lparr>t_LifetimeAt := a, t_LastUpdatedAt := b, t_Rev := c\<rparr>) = Tunnel_Peer t"
  by (simp_all add: fun_eq_iff Tunnel_Token_def Tunnel_Peer_def)

lemma CloseTunnel_serial:
  assumes "serial_inv s" and "CloseTunnel now req s = (r, s')"
  shows "serial_inv s' \<and> spec_step (view s) (CloseCall now req r) (view s')"
proof (cases "tunnel_at (sv_store s) (cr_TunnelID req)")
  case None
  then have "r = json StatusBadRequest (Message (not_found (cr_TunnelID req)))" "s' = s"
    using assms(2) by (simp_all add: CloseTunnel_def CloseTunnel_get_def not_found_GetTunnel)
  moreover have "view s (cr_TunnelID req) = None" using None by (simp add: view_sel)
  ultimately show ?thesis
    using assms(1) by (auto simp: spec_close_def intro!: spec_step.closed)
next
  case (Some t)
  note inv = serial_invD(1) [OF assms(1)]
  let ?t = "t\<lparr>t_LifetimeAt := now, t_LastUpdatedAt := now, t_Rev := t_Rev t + 1\<rparr>"
  have get: "CloseTunnel_get req s = Inr t" using Some by (simp add: CloseTunnel_get_Inr)
  obtain s1 where upd: "CloseTunnel_update now t s = (None, s1)"
    and s1: "s1 = s\<lparr>sv_store := set_tunnel (Some ?t) (cr_TunnelID req) (sv_store s)\<rparr>"
    using Some server_invD(4) [OF inv Some]
    by (auto simp: CloseTunnel_update_def UpdateTunnel_cases [OF server_invD(1) [OF inv]])
  have s': "r = json StatusOK CloseBody" "sv_peers s' = sv_peers s"
    "connection_at (sv_store s') = connection_at (sv_store s)"
    "tunnel_at (sv_store s') = (tunnel_at (sv_store s))
       (cr_TunnelID req := (if cr_Delete req then None else Some ?t))"
    using assms(2) get upd s1
    by (auto simp: CloseTunnel_def CloseTunnel_delete_def DeleteTunnel_set split: if_splits)
  have "server_inv {t} s1"
    using CloseTunnel_update_inv [OF server_inv_read [OF inv Some] insertI1 upd] by simp
  then have "server_inv {t} s'"
    using CloseTunnel_delete_inv [of "{t}" s1 req r s'] assms(2) get upd by (simp add: CloseTunnel_def)
  then have "serial_inv s'"
    using s' by (intro serial_inv_keep [OF assms(1)]) auto
  moreover have "view_tunnel s' ?t = (view_tunnel s t)\<lparr>st_Updated := now, st_Until := now\<rparr>"
    using view_tunnel_same [OF assms(1) Some s'(3)] s'(2)
    by (simp add: view_tunnel_def Tunnel_sel_close)
  moreover have "view s (cr_TunnelID req) = Some (view_tunnel s t)" using Some by (simp add: view_sel)
  ultimately show ?thesis
    using view_upd [OF assms(1) s'(4,3)] s'(1,2)
    by (auto simp: spec_close_def intro!: spec_step.closed)
qed

lemma seat_holder_Some:
  "seat_holder s (Some p) =
    (if 0 < p_NumOfConn (sv_peers s ! p)
     then Some \<lparr>h_client = p_ClientToken (sv_peers s ! p), h_connection = p_ConnectionID (sv_peers s ! p),
                h_state = conn_state (p_ConnectionID (sv_peers s ! p)) s\<rparr>
     else None)"
  by (simp add: seat_holder_def Let_def)

lemma verify_spec:
  assumes "server_inv F s" and "TunnelConnectArgs_Validate args = None"
  shows "TunnelConnect_verify at args s = Return
    (case spec_refusal at args (view s) of
       Some why \<Rightarrow> Inl (refuse StatusBadRequest why)
     | None \<Rightarrow> Inr (the (tunnel_at (sv_store s) (token_TunnelID (ca_AccessToken args)))))"
proof (cases "tunnel_at (sv_store s) (token_TunnelID (ca_AccessToken args))")
  case None
  moreover have "view s (token_TunnelID (ca_AccessToken args)) = None"
    using None by (simp add: view_sel)
  ultimately show ?thesis
    by (simp add: TunnelConnect_verify_def spec_refusal_def not_found_GetTunnel)
next
  case (Some t)
  have v: "view s (token_TunnelID (ca_AccessToken args)) = Some (view_tunnel s t)"
    using Some by (simp add: view_sel)
  have "ca_Mode args = ModeSource \<or> ca_Mode args = ModeDestination"
    using assms(2) by (auto simp: TunnelConnectArgs_Validate_def split: if_splits)
  then obtain p where p: "Tunnel_Peer t (ca_Mode args) = Some p"
    using server_invD(2) [OF assms(1) Some] by (auto simp: tunnel_ok_def)
  have g: "GetTunnel (token_TunnelID (ca_AccessToken args)) (sv_store s) = Inr t"
    using Some by simp
  show ?thesis
    unfolding Some option.sel
    by (simp add: TunnelConnect_verify_def spec_refusal_def Let_def g p deref_def v seat_holder_Some)
qed

lemma TunnelConnect_add_Inl:
  assumes "server_inv F s" and "TunnelConnect_add svc rnd now args s = (Inl r, s')"
  shows "code r = StatusInternalServerError" and "sv_peers s' = sv_peers s"
    and "sv_store s' = sv_store s"
proof -
  have "connection_at (sv_store s) (c_ID c) \<noteq> None \<Longrightarrow> snd (AddConnection c (sv_store s)) = sv_store s" for c
    using server_invD(1) [OF assms(1)]
    by (auto simp: AddConnection_def table_defs store_inv_def table_inv_def)
  moreover have "AddConnection c (sv_store s) = (Some e, st) \<Longrightarrow> connection_at (sv_store s) (c_ID c) \<noteq> None"
    for c e st
    using connections.add_fresh [OF server_invD(1) [OF assms(1)], of c] by auto
  ultimately have keep: "AddConnection c (sv_store s) = (Some e, st) \<Longrightarrow> st = sv_store s" for c e st
    by (metis snd_conv)
  then show "code r = StatusInternalServerError" "sv_peers s' = sv_peers s" "sv_store s' = sv_store s"
    using assms(2)
    by (auto simp: TunnelConnect_add_def Let_def refuse_def json_def
        split: prod.splits sum.splits option.splits)
qed

text \<open>The connection of a seat is stored.\<close>

lemma holder_connection:
  assumes "serial_inv s" and "tunnel_at (sv_store s) j = Some u"
    and "seat_holder s (Tunnel_Peer u m) = Some h"
  shows "connection_at (sv_store s) (h_connection h) \<noteq> None"
proof (cases "Tunnel_Peer u m")
  case (Some k)
  have "peer_ok s (sv_peers s ! k)"
    by (rule serial_invD(3)
        [OF assms(1) Tunnel_Peer_stored(1) [OF serial_invD(1) [OF assms(1)] assms(2) Some]])
  then show ?thesis
    using assms(3) Some by (auto simp: seat_holder_Some peer_ok_def split: if_splits)
qed (use assms(3) in simp)

lemma Tunnel_sel_rev: "Tunnel_Token (t\<lparr>t_Rev := r\<rparr>) = Tunnel_Token t"
  by (simp add: fun_eq_iff)

lemma seat_holder_taken:
  assumes "serial_inv s" and "tunnel_at (sv_store s) i = Some t" and "Tunnel_Peer t m = Some p"
    and "sv_peers s' = (sv_peers s)[p := q]"
    and "connection_at (sv_store s') = (connection_at (sv_store s))(cid \<mapsto> c)"
    and "connection_at (sv_store s) cid = None" and "cid \<noteq> []"
    and "tunnel_at (sv_store s) j = Some u" and "Tunnel_Peer u n = Some k" and "j \<noteq> i \<or> n \<noteq> m"
  shows "seat_holder s' (Some k) = seat_holder s (Some k)"
proof -
  note inv = serial_invD(1) [OF assms(1)]
  have k: "k \<noteq> p" using peer_unshared [OF inv assms(8,2,9)] assms(3,10) by blast
  have "k < length (sv_peers s)" by (rule Tunnel_Peer_stored(1) [OF inv assms(8,9)])
  then have "peer_ok s (sv_peers s ! k)" by (rule serial_invD(3) [OF assms(1)])
  then have "0 < p_NumOfConn (sv_peers s ! k) \<Longrightarrow> p_ConnectionID (sv_peers s ! k) \<noteq> cid"
    using assms(6) by (auto simp: peer_ok_def)
  then have "0 < p_NumOfConn (sv_peers s ! k) \<Longrightarrow>
      conn_state (p_ConnectionID (sv_peers s ! k)) s' = conn_state (p_ConnectionID (sv_peers s ! k)) s"
    using assms(5) by (intro conn_state_cong) simp
  then show ?thesis using k assms(4) by (simp add: seat_holder_Some)
qed

lemma connect_commit_serial:
  assumes "serial_inv s" and acc: "accepts at args s t"
    and commit: "connect_commit svc rnd now args t s = (Return (Inr cid), s')"
  shows "view s' = spec_connect now args cid (view s)" and "serial_inv s'"
    and "view s i = Some a \<Longrightarrow> st_Holder a m = Some h \<Longrightarrow> h_connection h \<noteq> cid"
proof -
  note inv = serial_invD(1) [OF assms(1)] and a = accepts_ok [OF acc serial_invD(1) [OF assms(1)]]
  obtain p where p: "Tunnel_Peer t (ca_Mode args) = Some p" "p < length (sv_peers s)"
    using a(3) by blast
  have inv': "server_inv {t} s" using server_inv_read [OF inv a(1)] .
  note c = connect_commit_Inr [OF inv' insertI1 p(1) commit]
  obtain s1 where "TunnelConnect_add svc rnd now args s = (Inr cid, s1)"
    using commit by (auto simp: connect_commit_def split: prod.splits sum.splits option.splits outcome.splits)
  note add = TunnelConnect_add_Inr [OF inv this]
  let ?c = "new_connection svc now args cid"
  have fresh: "connection_at (sv_store s) cid = None" "cid \<noteq> []" using add(3,6) by simp_all
  note other = seat_holder_taken [OF assms(1) a(1) p(1) c(3,4) fresh]
  show "view s i = Some a \<Longrightarrow> st_Holder a m = Some h \<Longrightarrow> h_connection h \<noteq> cid"
    using holder_connection [OF assms(1)] fresh(1) by (metis view_sel(2) view_tunnel_sel(8))
  have pos: "0 \<le> p_NumOfConn (sv_peers s ! p)"
    using server_invD(5) [OF inv] p(2) by simp
  have "conn_state cid s' = \<lparr>dcs_Status = ConnStatusConnected, dcs_LastUpdatedAt = now\<rparr>"
    using c(4) by (simp add: conn_state_def GetConnection_def table_getWithKey_def)
  then have new: "seat_holder s' (Some p) = Some \<lparr>h_client = ca_ClientToken args, h_connection = cid,
      h_state = \<lparr>dcs_Status = ConnStatusConnected, dcs_LastUpdatedAt = now\<rparr>\<rparr>"
    using c(3) p(2) pos by (simp add: seat_holder_Some)
  have holders: "seat_holder s' (Tunnel_Peer u n) = seat_holder s (Tunnel_Peer u n)"
    if "tunnel_at (sv_store s) j = Some u" "j \<noteq> t_ID t \<or> n \<noteq> ca_Mode args" for j u n
    using other [OF that(1) _ that(2)] by (cases "Tunnel_Peer u n") simp_all
  have "view s' j = spec_connect now args cid (view s) j" for j
  proof (cases "j = t_ID t")
    case True
    have "(\<lambda>m. seat_holder s' (Tunnel_Peer t m)) =
        (\<lambda>m. seat_holder s (Tunnel_Peer t m))(ca_Mode args \<mapsto> \<lparr>h_client = ca_ClientToken args,
          h_connection = cid,
          h_state = \<lparr>dcs_Status = ConnStatusConnected, dcs_LastUpdatedAt = now\<rparr>\<rparr>)"
      using holders [OF a(1)] new p(1) by (auto simp: fun_eq_iff)
    then show ?thesis
      using True a(1) c(2) by (simp add: spec_connect_def a(4) view_def view_tunnel_def Tunnel_sel_rev)
  next
    case False
    then show ?thesis
      using c(2) holders
      by (cases "tunnel_at (sv_store s) j")
        (simp_all add: spec_connect_def a(4) view_def view_tunnel_def Let_def)
  qed
  then show "view s' = spec_connect now args cid (view s)" by (rule ext)
  have "server_inv {} s'"
    using connect_commit_inv [OF inv' insertI1 p(1) commit] server_inv_subset by blast
  moreover have "peer_ok s' x" if "x \<in> set (sv_peers s')" for x
  proof -
    have "x = taken args cid (sv_peers s ! p) \<or> x \<in> set (sv_peers s)"
      using that c(3) set_update_subset_insert [of "sv_peers s" p] by auto
    then show ?thesis
      using assms(1) c(4) pos by (auto simp: peer_ok_def serial_inv_def)
  qed
  ultimately show "serial_inv s'"
    using serial_invD(2) [OF assms(1)] c(4) fresh(2) by (simp add: serial_inv_def)
qed

lemma connect_commit_failed:
  assumes "server_inv F s" and "tunnel_at (sv_store s) (t_ID t) = Some t"
    and "Tunnel_Peer t (ca_Mode args) = Some p"
    and "connect_commit svc rnd now args t s = (Return (Inl r), s')"
  shows "code r = StatusInternalServerError" and "sv_peers s' = sv_peers s"
    and "sv_store s' = sv_store s"
proof -
  have "fst (TunnelConnect_update args t cid s1) = Return None"
    if "TunnelConnect_add svc rnd now args s = (Inr cid, s1)" for cid s1
    using TunnelConnect_add_Inr(2,5) [OF assms(1) that] assms(2)
    by (simp add: TunnelConnect_update_cases [OF server_invD(1) assms(3)] Let_def)
  then have "TunnelConnect_add svc rnd now args s = (Inl r, s')"
    using assms(4)
    by (auto simp: connect_commit_def split: prod.splits sum.splits option.splits outcome.splits)
  then show "code r = StatusInternalServerError" "sv_peers s' = sv_peers s" "sv_store s' = sv_store s"
    using TunnelConnect_add_Inl [OF assms(1)] by simp_all
qed

lemma TunnelConnect_disconnect_serial:
  assumes "serial_inv s"
  shows "serial_inv (TunnelConnect_disconnect now cid s)"
    and "view (TunnelConnect_disconnect now cid s) = spec_end now cid (view s)"
proof -
  note inv = serial_invD(1) [OF assms]
  let ?s = "TunnelConnect_disconnect now cid s"
  have "serial_inv ?s \<and> view ?s = spec_end now cid (view s)"
  proof (cases "connection_at (sv_store s) cid")
    case None
    then have s: "?s = s"
      by (simp add: TunnelConnect_disconnect_def GetConnection_def table_getWithKey_def)
    have same: "map_option (end_holder now cid) (seat_holder s (Tunnel_Peer t m)) =
        seat_holder s (Tunnel_Peer t m)"
      if "tunnel_at (sv_store s) i = Some t" for i t m
      using holder_connection [OF assms that, of m] None
      by (cases "seat_holder s (Tunnel_Peer t m)") (auto simp: end_holder_def)
    have "spec_end now cid (view s) i = view s i" for i
      by (cases "tunnel_at (sv_store s) i")
        (simp_all add: spec_end_def view_def view_tunnel_def comp_def same)
    then show ?thesis
      using assms by (simp add: s fun_eq_iff)
  next
    case (Some c)
    note d = TunnelConnect_disconnect_at [OF inv Some, of now]
    have "peer_ok ?s x" if "peer_ok s x" for x
      using that d(3) by (auto simp: peer_ok_def)
    then have "serial_inv ?s"
      using assms TunnelConnect_disconnect_inv [OF inv] d Some by (auto simp: serial_inv_def)
    moreover have "conn_state k ?s = (if k = cid
        then \<lparr>dcs_Status = ConnStatusDisconnected, dcs_LastUpdatedAt = now\<rparr> else conn_state k s)" for k
      using d(3) by (simp add: conn_state_def GetConnection_def table_getWithKey_def)
    then have "seat_holder ?s ptr = map_option (end_holder now cid) (seat_holder s ptr)" for ptr
      using d(1) by (cases ptr) (simp_all add: seat_holder_Some end_holder_def)
    then have "view ?s = spec_end now cid (view s)"
      using d(2) by (auto simp: spec_end_def view_def view_tunnel_def fun_eq_iff comp_def
          option.map_comp intro!: option.map_cong)
    ultimately show ?thesis by simp
  qed
  then show "serial_inv ?s" "view ?s = spec_end now cid (view s)" by simp_all
qed

lemma DescribeTunnel_serial:
  assumes "serial_inv s"
  shows "DescribeTunnel now i s = Return (spec_describe now i (view s))"
proof (cases "tunnel_at (sv_store s) i")
  case None
  then show ?thesis
    by (simp add: DescribeTunnel_def not_found_GetTunnel spec_describe_def view_def)
next
  case (Some t)
  note inv = serial_invD(1) [OF assms]
  have seat: "conn_state (p_ConnectionID (sv_peers s ! p)) s = seat_state (seat_holder s (Some p))"
    if "p < length (sv_peers s)" for p
    using serial_invD(2) [OF assms] serial_invD(3) [OF assms that]
    by (auto simp: seat_state_def seat_holder_Some peer_ok_def conn_state_def GetConnection_def
        table_getWithKey_def)
  obtain p q where pq: "t_SourcePeer t = Some p" "t_DestinationPeer t = Some q"
    "p < length (sv_peers s)" "q < length (sv_peers s)"
    using server_invD(2) [OF inv Some] by (auto simp: tunnel_ok_def)
  have get: "GetTunnel i (sv_store s) = Inr t" using Some by simp
  show ?thesis
    using Some pq server_invD(4) [OF inv Some] seat
    by (simp add: get DescribeTunnel_def deref_def spec_describe_def view_def spec_status_def
        Tunnel_Status_cases)
qed

lemma ListTunnels_serial:
  assumes "serial_inv s" and "iteration_order (tunnelTable (sv_store s)) order"
  shows "ListTunnels order now s =
    json StatusOK (ListBody (map (\<lambda>i. spec_summary now i (the (view s i))) order))"
proof -
  have "map (\<lambda>tunnel. \<lparr>ltt_ID = t_ID tunnel, ltt_Status = Tunnel_Status now tunnel,
        ltt_ThingName = t_ThingName tunnel, ltt_LastUpdatedAt = t_LastUpdatedAt tunnel\<rparr>)
      (List.map_filter (tunnel_at (sv_store s)) is) =
    map (\<lambda>i. spec_summary now i (the (view s i))) is"
    if "set is \<subseteq> dom (tunnel_at (sv_store s))" for "is"
    using that
    by (induction "is")
      (auto simp: List.map_filter_def view_def spec_summary_def spec_status_def Tunnel_Status_cases
        server_invD(4) [OF serial_invD(1) [OF assms(1)]])
  then show ?thesis
    using assms(2)
    by (simp add: ListTunnels_def GetTunnels_def table_list_def iteration_order_def)
qed

section \<open>Refinement\<close>

lemma serial_step_refines:
  assumes "serial_step svc s c s'" and "serial_inv s"
  shows "serial_inv s' \<and> spec_step (view s) c (view s')"
  using assms(1)
proof cases
  case (open_call rnd notify now req r)
  then show ?thesis using OpenTunnel_serial [OF assms(2)] by simp
next
  case (close_call now creq r)
  then show ?thesis using CloseTunnel_serial [OF assms(2)] by simp
next
  case (connect_refused args at r now)
  then obtain why where "spec_refusal at args (view s) = Some why" "r = refuse StatusBadRequest why"
    using verify_spec [OF serial_invD(1) [OF assms(2)], of args at] by (auto split: option.splits)
  then show ?thesis
    using connect_refused(1,2) assms(2) by (simp add: spec_step.connect_refused)
next
  case (connect_call args at t rnd now x)
  note inv = serial_invD(1) [OF assms(2)]
  have acc: "accepts at args s t" using connect_call(3) by (simp add: TunnelConnect_verify_Inr)
  have ok: "spec_refusal at args (view s) = None"
    using verify_spec [OF inv connect_call(2), of at] connect_call(3) by (auto split: option.splits)
  show ?thesis
  proof (cases x)
    case (Inl r)
    obtain p where "Tunnel_Peer t (ca_Mode args) = Some p" using accepts_ok(3) [OF acc inv] by blast
    note f = connect_commit_failed [OF inv accepts_ok(1) [OF acc inv] this
        connect_call(4) [unfolded Inl]]
    have "serial_inv s'"
      using f by (intro serial_inv_keep [OF assms(2) server_inv_cong [OF inv]]) auto
    moreover have "view s' = view s" using f by (intro view_same [OF assms(2)]) auto
    ultimately show ?thesis
      using connect_call(1) Inl ok f(1) by (simp add: spec_step.connect_failed)
  next
    case (Inr cid)
    note c = connect_commit_serial [OF assms(2) acc connect_call(4) [unfolded Inr]]
    show ?thesis
      unfolding connect_call(1) Inr c(1) using c(2,3) by (blast intro: spec_step.connected ok)
  qed
next
  case (connection_ended now cid)
  then show ?thesis
    using TunnelConnect_disconnect_serial [OF assms(2)] by (simp add: spec_step.ended)
next
  case (describe_call now i r)
  then show ?thesis
    using DescribeTunnel_serial [OF assms(2), of now i] assms(2) spec_step.described [of "view s" now i]
    by simp
next
  case (list_call order now)
  have "distinct order" "set order = dom (view s)"
    using list_call(3) by (auto simp: iteration_order_def view_def)
  then show ?thesis
    using list_call(1,2) assms(2) ListTunnels_serial [OF assms(2) list_call(3)]
    by (simp add: spec_step.listed)
qed

interpretation serial: trace_refinement "serial_step svc" spec_step serial_inv view for svc
  by unfold_locales (use serial_step_refines in blast)+

lemma serial_init: "serial_inv server_init" "view server_init = Map.empty"
  using server_init_inv
  by (simp_all add: serial_inv_def view_def server_init_def)
    (simp_all add: MemoryStore_Init_def empty_table_def)

text \<open>The handler \<^verbatim>\<open>TunnelConnect\<close> as a whole is these steps, with the session between them.\<close>

lemma TunnelConnect_history:
  assumes "TunnelConnectArgs_Validate args = None"
    and "TunnelConnect svc rnd upgraded session now at end args s = (Return out, s')"
    and "\<And>u. \<exists>calls. history (serial_step svc) u calls (session u)"
  shows "\<exists>x calls. history (serial_step svc) s (ConnectCall now at args x # calls) s' \<and>
    (case x of Inl r \<Rightarrow> out = Some r \<and> calls = []
     | Inr cid \<Rightarrow> \<exists>meanwhile. calls = meanwhile @ [ConnectionEnded end cid] \<and>
         (upgraded \<noteq> Upgraded \<longrightarrow> meanwhile = []) \<and> out = failed_upgrade upgraded)"
proof -
  obtain y where y: "TunnelConnect_verify at args s = Return y"
    using assms(2) by (auto simp: TunnelConnect_def split: outcome.splits)
  show ?thesis
  proof (cases y)
    case (Inl r)
    then have "out = Some r" "s' = s" using assms(2) y by (simp_all add: TunnelConnect_def)
    then show ?thesis
      using serial_step.connect_refused [OF assms(1) y [unfolded Inl]]
      by (intro exI [of _ "Inl r"] exI [of _ "[]"]) simp
  next
    case (Inr t)
    note step = serial_step.connect_call [OF assms(1) y [unfolded Inr]]
    have "(\<exists>r. connect_commit svc rnd now args t s = (Return (Inl r), s') \<and> out = Some r) \<or>
        (\<exists>cid s1. connect_commit svc rnd now args t s = (Return (Inr cid), s1) \<and>
           s' = TunnelConnect_disconnect end cid (if upgraded \<noteq> Upgraded then s1 else session s1) \<and>
           out = failed_upgrade upgraded)"
      using assms(2) y Inr
      by (auto simp: TunnelConnect_def connect_commit_def
          split: prod.splits sum.splits outcome.splits option.splits if_splits)
    then show ?thesis
    proof (elim disjE exE conjE)
      fix r assume "connect_commit svc rnd now args t s = (Return (Inl r), s')" "out = Some r"
      then show ?thesis using step by (intro exI [of _ "Inl r"] exI [of _ "[]"]) simp
    next
      fix cid s1
      assume c: "connect_commit svc rnd now args t s = (Return (Inr cid), s1)"
        "s' = TunnelConnect_disconnect end cid (if upgraded \<noteq> Upgraded then s1 else session s1)"
        "out = failed_upgrade upgraded"
      obtain calls where ses: "history (serial_step svc) s1 calls (if upgraded \<noteq> Upgraded then s1 else session s1)"
        "upgraded \<noteq> Upgraded \<longrightarrow> calls = []"
      proof (cases "upgraded = Upgraded")
        case True
        then show ?thesis using that assms(3) [of s1] by auto
      next
        case False
        then show ?thesis using that [of "[]"] by (simp add: history.none)
      qed
      from ses(1) have "history (serial_step svc) s1 (calls @ [ConnectionEnded end cid]) s'"
        using serial_step.connection_ended unfolding c(2) by (rule history.more)
      then have "history (serial_step svc) s
          (ConnectCall now at args (Inr cid) # calls @ [ConnectionEnded end cid]) s'"
        unfolding history_Cons using step [OF c(1)] by blast
      then show ?thesis using c(3) ses(2) by (intro exI [of _ "Inr cid"]) auto
    qed
  qed
qed

section \<open>What the specification promises\<close>

text \<open>An opening call that gave out the identifier \<open>i\<close>.\<close>

definition opens :: "string \<Rightarrow> call \<Rightarrow> bool" where
  "opens i c \<longleftrightarrow> (\<exists>now req r b. c = OpenCall now req r \<and> body r = OpenBody b \<and> otr_TunnelID b = i)"

definition seat_bound :: "string \<Rightarrow> string \<Rightarrow> string \<Rightarrow> spec_state \<Rightarrow> bool" where
  "seat_bound i m client \<sigma> \<longleftrightarrow>
     (case \<sigma> i of None \<Rightarrow> True | Some a \<Rightarrow> map_option h_client (st_Holder a m) = Some client)"

lemma h_client_end [simp]: "h_client (end_holder now cid h) = h_client h"
  by (simp add: end_holder_def)

lemma refusal_client:
  "spec_refusal at args \<sigma> = None \<Longrightarrow>
     \<exists>a. \<sigma> (token_TunnelID (ca_AccessToken args)) = Some a \<and>
       (\<forall>h. st_Holder a (ca_Mode args) = Some h \<longrightarrow> h_client h = ca_ClientToken args)"
  by (auto simp: spec_refusal_def Let_def split: option.splits if_splits)

lemma seat_bound_accept:
  assumes "spec_refusal at args \<sigma> = None"
    and "seat_bound (token_TunnelID (ca_AccessToken args)) (ca_Mode args) client \<sigma>"
  shows "client = ca_ClientToken args"
  using refusal_client [OF assms(1)] assms(2) by (auto simp: seat_bound_def)

lemma seat_bound_connect:
  assumes "spec_refusal at args \<sigma> = None"
  shows "seat_bound (token_TunnelID (ca_AccessToken args)) (ca_Mode args) (ca_ClientToken args)
    (spec_connect now args cid \<sigma>)"
  using refusal_client [OF assms] by (auto simp: seat_bound_def spec_connect_def Let_def)

lemma seat_bound_step:
  assumes "spec_step \<sigma> c \<sigma>'" and "seat_bound i m client \<sigma>" and "\<not> opens i c"
  shows "seat_bound i m client \<sigma>'"
  using assms(1)
proof cases
  case (opened j src dst now req)
  then have "j \<noteq> i" using assms(3) by (auto simp: opens_def json_def)
  then show ?thesis using opened assms(2) by (simp add: seat_bound_def)
next
  case (closed now creq r)
  then show ?thesis
    using assms(2) by (auto simp: seat_bound_def spec_close_def split: option.splits if_splits)
next
  case (connected at args cid now)
  show ?thesis
  proof (cases "token_TunnelID (ca_AccessToken args) = i \<and> ca_Mode args = m")
    case True
    then show ?thesis
      using seat_bound_connect [OF connected(3), of now cid] seat_bound_accept [OF connected(3)]
        connected(2) assms(2) by auto
  next
    case False
    then show ?thesis
      using assms(2) unfolding connected(2)
      by (auto simp: seat_bound_def spec_connect_def Let_def split: option.splits)
  qed
next
  case (ended now cid)
  then show ?thesis
    using assms(2)
    by (auto simp: seat_bound_def spec_end_def option.map_comp comp_def split: option.splits)
qed (use assms(2) in simp_all)

lemma seat_bound_history:
  "history spec_step \<sigma> cs \<sigma>' \<Longrightarrow> seat_bound i m client \<sigma> \<Longrightarrow> \<forall>c \<in> set cs. \<not> opens i c \<Longrightarrow>
     seat_bound i m client \<sigma>'"
  by (induction rule: history.induct) (auto intro: seat_bound_step)

inductive_cases spec_connectedE: "spec_step \<sigma> (ConnectCall now at args (Inr cid)) \<sigma>'"

section \<open>Properties\<close>

text \<open>
  C9 (refinement): handlers that run one after the other implement the specification.  Every
  history of calls and answers of the server, from its start, with any clock, any random source
  and any notifier, is a history of the specification, and the specification ends in the abstract
  view of the server.  A connection may live on while other handlers run.
\<close>

theorem serial_server_refines_spec:
  assumes "history (serial_step svc) server_init calls s"
  shows "history spec_step Map.empty calls (view s)"
  using serial.history_refines [OF assms] serial_init by simp

definition sample_calls :: "call list" where
  "sample_calls =
     [OpenCall 0 (sample_open 1) (json StatusOK (OpenBody \<lparr>otr_TunnelID = ''a'',
        otr_DestinationToken = ''a_c'', otr_SourceToken = ''a_b''\<rparr>)),
      ConnectCall 0 0 (sample_args ''me'') (Inr ''a_d'')]"

lemma sample_Validate: "TunnelConnectArgs_Validate (sample_args client) = None"
  by (simp add: TunnelConnectArgs_Validate_def sample_args_def)

lemma sample_history: "history (serial_step sample_svc) server_init sample_calls sample_connected"
proof -
  have "OpenTunnel sample_svc sample_rnd NilNotifier_Notify 0 (sample_open 1) server_init =
      (json StatusOK (OpenBody \<lparr>otr_TunnelID = ''a'', otr_DestinationToken = ''a_c'',
          otr_SourceToken = ''a_b''\<rparr>), sample_server 1)"
    by (simp add: sample_OpenTunnel NilNotifier_Notify_def)
  from serial_step.open_call [OF this]
    serial_step.connect_call [OF sample_Validate sample_accepts [folded TunnelConnect_verify_Inr]
      sample_commit]
  show ?thesis unfolding sample_calls_def history_Cons history_Nil by blast
qed

theorem serial_server_refines_spec_witness:
  "history spec_step Map.empty sample_calls (view sample_connected)"
  by (rule serial_server_refines_spec [OF sample_history])

text \<open>
  C21 (safety): one client per access token.  In any history of handlers that run one after
  the other, two accepted connections of one mode with one access token carry the same client
  token, whatever calls came before, between and after them, unless the identifier of the tunnel
  was given out again in between (which takes a deletion): nobody who got hold of the access token
  takes the place of the client that used it first, also not when that client is gone.
\<close>

theorem one_client_per_token:
  assumes "history (serial_step svc) server_init
      (before @ ConnectCall b1 at1 args1 (Inr cid1) # between @ [ConnectCall b2 at2 args2 (Inr cid2)]) s"
    and "ca_Mode args2 = ca_Mode args1" and "ca_AccessToken args2 = ca_AccessToken args1"
    and "\<forall>c \<in> set between. \<not> opens (token_TunnelID (ca_AccessToken args1)) c"
  shows "ca_ClientToken args2 = ca_ClientToken args1"
proof -
  let ?i = "token_TunnelID (ca_AccessToken args1)" and ?m = "ca_Mode args1"
  have "history spec_step Map.empty
      (before @ ConnectCall b1 at1 args1 (Inr cid1) # between @ [ConnectCall b2 at2 args2 (Inr cid2)])
      (view s)"
    using serial.history_refines [OF assms(1)] serial_init by simp
  then obtain \<sigma>1 \<sigma>2 \<sigma>3 where one: "spec_step \<sigma>1 (ConnectCall b1 at1 args1 (Inr cid1)) \<sigma>2"
    and mid: "history spec_step \<sigma>2 between \<sigma>3"
    and two: "spec_step \<sigma>3 (ConnectCall b2 at2 args2 (Inr cid2)) (view s)"
    unfolding history_append history_Cons by auto
  have "seat_bound ?i ?m (ca_ClientToken args1) \<sigma>2"
    using one by (rule spec_connectedE) (simp add: seat_bound_connect)
  then have "seat_bound ?i ?m (ca_ClientToken args1) \<sigma>3"
    using seat_bound_history [OF mid] assms(4) by blast
  then show ?thesis
    using two assms(2,3) seat_bound_accept [of at2 args2 \<sigma>3]
    by (auto elim!: spec_connectedE)
qed

lemma connect_commit_succeeds:
  assumes "server_inv F s" and "tunnel_at (sv_store s) (t_ID t) = Some t"
    and "Tunnel_Peer t (ca_Mode args) = Some p"
    and "TunnelConnect_add svc rnd now args s = (Inr cid, s1)"
  shows "\<exists>s'. connect_commit svc rnd now args t s = (Return (Inr cid), s')"
  using TunnelConnect_add_Inr(2,5) [OF assms(1,4)] assms(2,4)
  by (simp add: connect_commit_def TunnelConnect_update_cases [OF server_invD(1) assms(3)] Let_def)

lemma sample_reconnect:
  "\<exists>s'. serial_step sample_svc sample_connected (ConnectCall 0 0 (sample_args ''me'') (Inr ''a_f'')) s'"
proof -
  let ?t = "sample_opened 1\<lparr>t_Rev := 2\<rparr>"
  have v: "TunnelConnect_verify 0 (sample_args ''me'') sample_connected = Return (Inr ?t)"
  proof -
    have "(0 :: int) \<le> t_LifetimeAt (sample_opened 1)"
      by (simp add: sample_opened_def add_minutes_exact max_minutes_def)
    moreover have "t_Rev (sample_opened 1) + 1 = 2" by (simp add: sample_opened_def)
    ultimately show ?thesis
      using verify_after_commit [OF sample_server_inv [of 1] sample_accepts sample_commit refl refl, of 0]
      by (simp add: not_less [symmetric])
  qed
  obtain s2 where add: "TunnelConnect_add sample_svc (\<lambda>_. Inr 15) 0 (sample_args ''me'')
      sample_connected = (Inr ''a_f'', s2)"
    using sample_race(1) by blast
  have "Tunnel_Peer ?t (ca_Mode (sample_args ''me'')) = Some 0"
    by (simp add: sample_args_def) (simp add: sample_opened_def)
  moreover have "tunnel_at (sv_store sample_connected) (t_ID ?t) = Some ?t"
    using accepts_ok(1) [OF v [unfolded TunnelConnect_verify_Inr] sample_race(2)] .
  ultimately obtain s' where "connect_commit sample_svc (\<lambda>_. Inr 15) 0 (sample_args ''me'') ?t
      sample_connected = (Return (Inr ''a_f''), s')"
    using connect_commit_succeeds [OF sample_race(2) _ _ add] by blast
  from serial_step.connect_call [OF sample_Validate v this] show ?thesis by blast
qed

text \<open>After the sample history, exactly the client that is connected can connect.\<close>

theorem one_client_per_token_witness:
  "{client. \<exists>b at cid s'. history (serial_step sample_svc) server_init
      (sample_calls @ [ConnectCall b at (sample_args client) (Inr cid)]) s'} = {''me''}"
proof -
  have "client = ''me''"
    if "history (serial_step sample_svc) server_init
      (sample_calls @ [ConnectCall b at (sample_args client) (Inr cid)]) s'" for client b at cid s'
  proof -
    have "history (serial_step sample_svc) server_init
        ([hd sample_calls] @ ConnectCall 0 0 (sample_args ''me'') (Inr ''a_d'') #
          [] @ [ConnectCall b at (sample_args client) (Inr cid)]) s'"
      using that by (simp add: sample_calls_def)
    from one_client_per_token [OF this] show ?thesis by (simp add: sample_args_def)
  qed
  moreover obtain s' where "serial_step sample_svc sample_connected
      (ConnectCall 0 0 (sample_args ''me'') (Inr ''a_f'')) s'"
    using sample_reconnect by blast
  then have "history (serial_step sample_svc) server_init
      (sample_calls @ [ConnectCall 0 0 (sample_args ''me'') (Inr ''a_f'')]) s'"
    using sample_history by auto
  ultimately show ?thesis by blast
qed

end
