(* ===== verification/Daemon_Spec.thy ===== *)
theory Daemon_Spec
  imports Tunnel_Daemon Tunnel_Spec
begin

text \<open>
  The server program against the abstract specification of \<^verbatim>\<open>Tunnel_Spec\<close>: from the start of
  \<^verbatim>\<open>mitra_tunneld\<close>, through its routes, its filter and the binding of requests, every request
  that is served is what the specification allows, and so is its answer.
\<close>

section \<open>The calls behind a request\<close>

text \<open>The service that a call belongs to, and the answer that it gives.\<close>

fun api_of :: "call \<Rightarrow> api option" where
  "api_of (OpenCall now req r) = Some OpenAPI"
| "api_of (CloseCall now req r) = Some CloseAPI"
| "api_of (ConnectCall now at args x) = Some ConnectAPI"
| "api_of (ConnectionEnded now cid) = None"
| "api_of (DescribeCall now i r) = Some DescribeAPI"
| "api_of (ListCall now r) = Some ListAPI"

fun answer_of :: "call \<Rightarrow> response option" where
  "answer_of (OpenCall now req r) = Some r"
| "answer_of (CloseCall now req r) = Some r"
| "answer_of (ConnectCall now at args (Inl r)) = Some r"
| "answer_of (ConnectCall now at args (Inr cid)) = None"
| "answer_of (ConnectionEnded now cid) = None"
| "answer_of (DescribeCall now i r) = Some r"
| "answer_of (ListCall now r) = Some r"

text \<open>
  Whether a request gets to the handler: the services but the login and the connection need the
  authorizer's consent, and the arguments must be bound and valid.
\<close>

definition admitted :: "Services \<Rightarrow> world \<Rightarrow> http_req \<Rightarrow> api \<Rightarrow> bool" where
  "admitted svc w req a \<longleftrightarrow>
     a \<in> {Login, ConnectAPI} \<or> \<not> svc_NeedAuth svc \<or> w_has_auth w req = None"

definition binds :: "'a gin_binding \<Rightarrow> ('a \<Rightarrow> string option) \<Rightarrow> http_req \<Rightarrow> bool" where
  "binds b validate req \<longleftrightarrow>
     (case bind_form b req of Inl e \<Rightarrow> False
      | Inr x \<Rightarrow> (case bind_head b req x of Inl e \<Rightarrow> False | Inr args \<Rightarrow> validate args = None))"

lemma valid_fun: "valid = (\<lambda>args. None)"
  by (rule ext) (simp add: valid_def)

fun well_formed :: "world \<Rightarrow> http_req \<Rightarrow> api \<Rightarrow> bool" where
  "well_formed w req OpenAPI = binds (w_open w) (\<lambda>args. None) req"
| "well_formed w req CloseAPI = binds (w_close w) (\<lambda>args. None) req"
| "well_formed w req DescribeAPI = binds (w_describe w) (\<lambda>args. None) req"
| "well_formed w req ListAPI = binds (w_list w) (\<lambda>args. None) req"
| "well_formed w req ConnectAPI = binds (w_connect w) TunnelConnectArgs_Validate req"
| "well_formed w req DebugListAPI = binds (w_debug_list w) (\<lambda>args. None) req"
| "well_formed w req DebugSendAPI = binds (w_send w) (\<lambda>args. None) req"
| "well_formed w req a = True"

text \<open>
  A request of the service \<open>a\<close>, its outcome, and its calls: none when it does not get to the handler,
  and then its answer has the status 401 or 400, or when the service is none of the
  specification; else one, whose answer is the reply.  An accepted connection is the call, what
  happens while it lives, and its end; when the upgrade fails, nothing happens in between.
\<close>

definition turned_down :: "response \<Rightarrow> bool" where
  "turned_down r \<longleftrightarrow> (code r = StatusBadRequest \<or> code r = StatusUnauthorized) \<and> (\<exists>m. body r = Message m)"

definition connection_calls :: "bool \<Rightarrow> call list \<Rightarrow> bool" where
  "connection_calls short calls \<longleftrightarrow>
     (\<exists>now at args cid meanwhile end.
        calls = ConnectCall now at args (Inr cid) # meanwhile @ [ConnectionEnded end cid] \<and>
        (short \<longrightarrow> meanwhile = []))"

definition answered :: "Services \<Rightarrow> world \<Rightarrow> http_req \<Rightarrow> api \<Rightarrow> response option \<Rightarrow> call list \<Rightarrow> bool" where
  "answered svc w req a out calls \<longleftrightarrow>
     (if admitted svc w req a \<and> well_formed w req a then
        a \<in> {Login, Logout, DebugListAPI, DebugSendAPI} \<and> out \<noteq> None \<and> calls = [] \<or>
        (\<exists>c r. out = Some r \<and> calls = [c] \<and> api_of c = Some a \<and> answer_of c = Some r) \<or>
        a = ConnectAPI \<and> connection_calls (w_upgrade w \<noteq> Upgraded) calls \<and>
          out = failed_upgrade (w_upgrade w)
      else
        (\<exists>r. out = Some r \<and> turned_down r) \<and> calls = [])"

text \<open>
  The requests are served one after the other: while a connection lives, other handlers run, and
  the iteration order of the tunnels is one of their map.
\<close>

definition world_serial :: "Services \<Rightarrow> world \<Rightarrow> tunneld \<Rightarrow> bool" where
  "world_serial svc w s \<longleftrightarrow>
     (\<forall>u. \<exists>calls. history (serial_step svc) u calls (w_session w u)) \<and>
     iteration_order (tunnelTable (sv_store (td_server s))) (w_order w)"

abbreviation explained ::
  "Services \<Rightarrow> world \<Rightarrow> http_req \<Rightarrow> api \<Rightarrow> response option \<Rightarrow> tunneld \<Rightarrow> tunneld \<Rightarrow> bool" where
  "explained svc w req a out s s' \<equiv>
     \<exists>calls. history (serial_step svc) (td_server s) calls (td_server s') \<and> answered svc w req a out calls"

lemma explained_nothing:
  "admitted svc w req a \<Longrightarrow> well_formed w req a \<Longrightarrow> td_server s' = td_server s \<Longrightarrow>
     a \<in> {Login, Logout, DebugListAPI, DebugSendAPI} \<Longrightarrow> explained svc w req a (Some r) s s'"
  by (rule exI [of _ "[]"]) (simp add: answered_def)

lemma explained_turned_down:
  "\<not> (admitted svc w req a \<and> well_formed w req a) \<Longrightarrow> td_server s' = td_server s \<Longrightarrow> turned_down r \<Longrightarrow>
     explained svc w req a (Some r) s s'"
  by (rule exI [of _ "[]"]) (auto simp: answered_def)

lemma explained_call:
  "serial_step svc (td_server s) c (td_server s') \<Longrightarrow> admitted svc w req a \<Longrightarrow> well_formed w req a \<Longrightarrow>
     api_of c = Some a \<Longrightarrow> answer_of c = Some r \<Longrightarrow>
     explained svc w req a (Some r) s s'"
  by (rule exI [of _ "[c]"]) (simp add: answered_def)

lemma pre_explained:
  assumes run: "pre b val handler req s = (Return out, s')"
    and wf: "well_formed w req a = binds b val req"
    and ok: "\<And>args. val args = None \<Longrightarrow> well_formed w req a \<Longrightarrow> handler args s = (Return out, s') \<Longrightarrow>
      explained svc w req a out s s'"
  shows "explained svc w req a out s s'"
proof -
  have bad: "turned_down (json StatusBadRequest (Message m))" for m
    by (simp add: turned_down_def json_def)
  show ?thesis
  proof (cases "binds b val req")
    case True
    then obtain x args where "bind_form b req = Inr x" "bind_head b req x = Inr args" "val args = None"
      by (auto simp: binds_def split: sum.splits)
    then show ?thesis using run True wf by (intro ok) (auto simp: pre_def PreProcess_def)
  next
    case False
    then obtain r where "out = Some r" "turned_down r" "s' = s"
      using run bad by (auto simp: binds_def pre_def PreProcess_def split: sum.splits option.splits)
    then show ?thesis using explained_turned_down False wf by simp
  qed
qed

lemma connect_explained:
  assumes "TunnelConnectArgs_Validate args = None"
    and "TunnelConnect svc rnd (w_upgrade w) session now at end args (td_server s) = (Return out, td_server s')"
    and "\<And>u. \<exists>calls. history (serial_step svc) u calls (session u)"
    and wf: "well_formed w req ConnectAPI"
  shows "explained svc w req ConnectAPI out s s'"
proof -
  obtain x calls where h: "history (serial_step svc) (td_server s) (ConnectCall now at args x # calls) (td_server s')"
    and x: "case x of Inl r \<Rightarrow> out = Some r \<and> calls = []
      | Inr cid \<Rightarrow> \<exists>meanwhile. calls = meanwhile @ [ConnectionEnded end cid] \<and>
         (w_upgrade w \<noteq> Upgraded \<longrightarrow> meanwhile = []) \<and> out = failed_upgrade (w_upgrade w)"
    using TunnelConnect_history [OF assms(1-3)] by blast
  have a: "admitted svc w req ConnectAPI" by (simp add: admitted_def)
  have "answered svc w req ConnectAPI out (ConnectCall now at args x # calls)"
  proof (cases x)
    case (Inl r)
    then show ?thesis using x a wf by (simp add: answered_def)
  next
    case (Inr cid)
    then obtain ms where ms: "calls = ms @ [ConnectionEnded end cid]"
      "w_upgrade w \<noteq> Upgraded \<longrightarrow> ms = []" "out = failed_upgrade (w_upgrade w)"
      using x by auto
    then have "connection_calls (w_upgrade w \<noteq> Upgraded) (ConnectCall now at args x # calls)"
      unfolding connection_calls_def Inr by auto
    then show ?thesis using ms(3) a wf by (simp add: answered_def)
  qed
  with h show ?thesis by blast
qed

lemma run_api_explained:
  assumes w: "world_serial svc w s" and adm: "admitted svc w req a"
    and run: "run_api svc w a req s = (Return out, s')"
  shows "explained svc w req a out s s'"
proof (cases a)
  case Login
  then show ?thesis using run adm by (auto simp: answer_def intro!: explained_nothing)
next
  case Logout
  then show ?thesis using run adm by (auto simp: answer_def intro!: explained_nothing)
next
  case OpenAPI
  show ?thesis
    by (rule pre_explained [OF run [unfolded OpenAPI run_api.simps], of w a])
      (use adm in \<open>auto simp: valid_fun answer_def OpenAPI split: prod.splits intro!: explained_call [OF serial_step.open_call]\<close>)
next
  case ListAPI
  show ?thesis
    by (rule pre_explained [OF run [unfolded ListAPI run_api.simps], of w a])
      (use w adm in \<open>auto simp: valid_fun answer_def ListAPI world_serial_def intro!: explained_call [OF serial_step.list_call]\<close>)
next
  case DescribeAPI
  show ?thesis
    by (rule pre_explained [OF run [unfolded DescribeAPI run_api.simps], of w a])
      (use adm in \<open>auto simp: valid_fun answer_def DescribeAPI split: outcome.splits
        intro!: explained_call [OF serial_step.describe_call]\<close>)
next
  case CloseAPI
  show ?thesis
    by (rule pre_explained [OF run [unfolded CloseAPI run_api.simps], of w a])
      (use adm in \<open>auto simp: valid_fun answer_def CloseAPI split: prod.splits intro!: explained_call [OF serial_step.close_call]\<close>)
next
  case DebugListAPI
  show ?thesis
    by (rule pre_explained [OF run [unfolded DebugListAPI run_api.simps], of w a])
      (use adm in \<open>auto simp: valid_fun answer_def DebugListAPI intro!: explained_nothing\<close>)
next
  case DebugSendAPI
  show ?thesis
    by (rule pre_explained [OF run [unfolded DebugSendAPI run_api.simps], of w a])
      (use adm in \<open>auto simp: valid_fun answer_def DebugSendAPI split: outcome.splits prod.splits intro!: explained_nothing\<close>)
next
  case ConnectAPI
  show ?thesis
  proof (rule pre_explained [OF run [unfolded ConnectAPI run_api.simps], of w a])
    show "well_formed w req a = binds (w_connect w) TunnelConnectArgs_Validate req"
      by (simp add: ConnectAPI)
    fix args
    assume v: "TunnelConnectArgs_Validate args = None"
      and wf: "well_formed w req a"
      and "(let (out, sv) = TunnelConnect svc (w_random w) (w_upgrade w) (w_session w)
           (w_now w) (w_now_open w) (w_now_end w) args (td_server s)
         in (out, s\<lparr>td_server := sv,
          td_pm := (if out = Return None \<and> w_upgrade w = Upgraded then w_pm_session w (td_pm s)
                   else td_pm s)\<rparr>)) = (Return out, s')"
    then have "TunnelConnect svc (w_random w) (w_upgrade w) (w_session w)
        (w_now w) (w_now_open w) (w_now_end w) args (td_server s) = (Return out, td_server s')"
      by (auto split: prod.splits)
    from connect_explained [OF v this] show "explained svc w req a out s s'"
      using w wf unfolding ConnectAPI world_serial_def by blast
  qed
qed

section \<open>The program from its start\<close>

text \<open>A reply, and the calls behind it, by the method and path of the request.\<close>

definition replied ::
  "bool \<Rightarrow> Services \<Rightarrow> world \<Rightarrow> http_method \<Rightarrow> string \<Rightarrow> http_req \<Rightarrow> reply \<Rightarrow> call list \<Rightarrow> bool" where
  "replied debug svc w meth path req rep calls \<longleftrightarrow>
     (case documented_api debug meth path of
        None \<Rightarrow> rep = NotRouted \<and> calls = []
      | Some a \<Rightarrow>
          (case rep of
             NotRouted \<Rightarrow> False
           | Taken \<Rightarrow> answered svc w req a None calls
           | Reply r \<Rightarrow> answered svc w req a (Some r) calls))"

text \<open>The filter stands before all services but the login and the connection.\<close>

lemma map_of_routes_filtered:
  "map_of (routes debug) key = Some (f, a) \<Longrightarrow> f \<longleftrightarrow> a \<noteq> Login \<and> a \<noteq> ConnectAPI"
  by (auto simp: routes_def split: if_splits)

lemma history_nothing: "\<exists>calls. history step s calls s"
  by (rule exI [of _ "[]"]) simp

lemma serve_explained:
  assumes "world_serial svc w s" and "serve debug svc w meth path req s = (Return rep, s')"
  shows "\<exists>calls. history (serial_step svc) (td_server s) calls (td_server s') \<and>
    replied debug svc w meth path req rep calls"
proof (cases "map_of (routes debug) (meth, path)")
  case None
  then show ?thesis
    using assms(2) not_routed [of debug meth path]
    by (intro exI [of _ "[]"]) (simp add: serve_def replied_def)
next
  case (Some fa)
  obtain f a where fa: "map_of (routes debug) (meth, path) = Some (f, a)" using Some by (cases fa) simp
  have api: "documented_api debug meth path = Some a"
    using routes_documented [of debug meth path] fa by simp
  have key: "f \<longleftrightarrow> a \<noteq> Login \<and> a \<noteq> ConnectAPI" by (rule map_of_routes_filtered [OF fa])
  show ?thesis
  proof (cases "if f then AuthFilter svc (w_has_auth w) req else None")
    case (Some r)
    then have "turned_down r" "\<not> admitted svc w req a"
      using key by (auto simp: AuthFilter_def turned_down_def admitted_def json_def split: if_splits option.splits)
    then show ?thesis
      using assms(2) fa Some api
      by (intro exI [of _ "[]"]) (auto simp: serve_def replied_def answered_def)
  next
    case None
    obtain out s1 where r: "run_api svc w a req s = (out, s1)" by fastforce
    have o: "reply_of out = Return rep" "s' = s1" using assms(2) fa None r by (simp_all add: serve_def)
    then obtain x where x: "out = Return x" "rep = (case x of None \<Rightarrow> Taken | Some r \<Rightarrow> Reply r)"
      by (cases out rule: reply_of.cases) auto
    have "admitted svc w req a"
      using None key by (auto simp: admitted_def AuthFilter_def split: if_splits option.splits)
    then show ?thesis
      using run_api_explained [OF assms(1), of req a x s1] r x o(2) api
      by (auto simp: replied_def split: option.splits)
  qed
qed

inductive serial_serve :: "Services \<Rightarrow> tunneld \<Rightarrow> tunneld \<Rightarrow> bool" for svc :: Services where
  request: "world_serial svc w s \<Longrightarrow> serve debug svc w meth path req s = (Return rep, s') \<Longrightarrow>
    serial_serve svc s s'"
| tick: "serial_serve svc s (expiry_tick control_ok now order s)"

definition specified :: "tunneld \<Rightarrow> bool" where
  "specified s \<longleftrightarrow> serial_inv (td_server s) \<and> (\<exists>calls. history spec_step Map.empty calls (view (td_server s)))"

lemma specified_history:
  assumes "specified s" and "history (serial_step svc) (td_server s) calls (td_server s')"
  shows "specified s'" and "history spec_step (view (td_server s)) calls (view (td_server s'))"
proof -
  have inv: "serial_inv (td_server s)" using assms(1) by (simp add: specified_def)
  show h: "history spec_step (view (td_server s)) calls (view (td_server s'))"
    by (rule serial.history_refines [OF assms(2) inv])
  obtain before where "history spec_step Map.empty before (view (td_server s))"
    using assms(1) by (auto simp: specified_def)
  with h have "history spec_step Map.empty (before @ calls) (view (td_server s'))"
    by (auto simp: history_append)
  then show "specified s'"
    using serial.history_inv [OF assms(2) inv] by (auto simp: specified_def)
qed

interpretation serial_daemon: invariant_system "\<lambda>s. tunneld_main = Inr s" "serial_serve svc" specified
  for svc
proof
  show "specified s" if "tunneld_main = Inr s" for s
    using that serial_init history_nothing
    by (auto simp: tunneld_main_start Services_Start_def specified_def)
  show "specified t" if "serial_serve svc s t" "specified s" for s t
    using that
  proof cases
    case (request w debug meth path req rep)
    then show ?thesis using serve_explained specified_history(1) [OF that(2)] by blast
  next
    case (tick control_ok now order)
    then show ?thesis using that(2) by (simp add: specified_def expiry_tick_def)
  qed
qed

text \<open>
  C10 (refinement): the server program implements the specification.  From its start, through routes,
  filter, binding and handlers, and with its periodic check for expired connections in between:
  whatever requests it has served, one after the other (the handlers of two requests may interleave
  only in that other requests are served while a connection lives), its state is one that a
  history of the specification reaches, and the next request, if its handler returns, makes the
  calls that the specification allows, with the reply as the answer of the call.  The method and the
  path say which service it is.  A request of none makes no call; one without the authorizer's
  consent where it is needed, or whose arguments are not bound or not valid, is turned down with
  401 or 400 and makes none; one for a service outside the specification makes none; and a
  connection that is taken over is its call, what happens while it lives, and its end, with
  nothing in between when the upgrade fails.
\<close>

theorem daemon_follows_spec:
  assumes "reachable (\<lambda>s. tunneld_main = Inr s) (serial_serve svc) s" and "world_serial svc w s"
    and "serve debug svc w meth path req s = (Return rep, s')"
  shows "(\<exists>before. history spec_step Map.empty before (view (td_server s))) \<and>
    (\<exists>calls. history spec_step (view (td_server s)) calls (view (td_server s')) \<and>
       replied debug svc w meth path req rep calls)"
proof -
  have s: "specified s" by (rule serial_daemon.reachable_inv [OF assms(1)])
  then show ?thesis
    using serve_explained [OF assms(2,3)] specified_history(2) [OF s] by (auto simp: specified_def)
qed

lemma demo_world_serial: "world_serial svc demo_world (Services_Start server_init)"
proof -
  show ?thesis
    by (simp add: history_nothing world_serial_def demo_world_def Services_Start_def server_init_def iteration_order_def)
      (simp add: MemoryStore_Init_def empty_table_def)
qed

theorem daemon_follows_spec_witness:
  "\<exists>calls. history spec_step Map.empty calls (view (sample_server 1)) \<and>
     replied debugMode sample_svc demo_world POST ''/tunnel/open'' '''' (Reply (json StatusOK (OpenBody \<lparr>otr_TunnelID = ''a'',
       otr_DestinationToken = ''a_c'', otr_SourceToken = ''a_b''\<rparr>))) calls"
proof -
  have r: "reachable (\<lambda>s. tunneld_main = Inr s) (serial_serve sample_svc) (Services_Start server_init)"
    by (rule reachable.start) (simp add: tunneld_main_start)
  from daemon_follows_spec [OF r demo_world_serial demo_opened] show ?thesis
    by (simp add: Services_Start_def serial_init)
qed

end
