(* ===== verification/Cli_Process.thy ===== *)
theory Cli_Process
  imports Cli
begin

text \<open>
  The life of the process \<^verbatim>\<open>mitra_localproxy\<close> after its start: the wait of \<^verbatim>\<open>main\<close>, the signal
  handler (\<^verbatim>\<open>cmd/common/common.go\<close>) and the exit status (\<^verbatim>\<open>cmd/mitra_localproxy/main.go\<close>).  The
  clock is the time since the start; how the goroutine of the proxy ends is a parameter.
\<close>

section \<open>State\<close>

definition Hour :: duration where "Hour = Second * 3600"

definition tunnelMaxLifeTime :: duration where "tunnelMaxLifeTime = Hour * 12"
definition localProxyMaxLifeTime :: duration where "localProxyMaxLifeTime = tunnelMaxLifeTime + Hour"
definition terminateWaitTime :: duration where "terminateWaitTime = Second * 30"

datatype signal = SIGTERM | SIGINT

text \<open>The end of the proxy's goroutine: an error of \<^verbatim>\<open>NewLocalProxy\<close>, or what \<^verbatim>\<open>Run\<close> returned.\<close>

datatype proxy_end = NewFailed proxy_error | RunReturned "run_error option"

record process =
  ps_clock :: duration
  chSignal :: "signal option"    \<comment> \<open>a channel for one signal\<close>
  awaitsSignal :: bool           \<comment> \<open>the goroutine of \<^verbatim>\<open>ApplicationExit\<close> still waits\<close>
  ctx_cancelled :: bool
  killer :: "duration option"    \<comment> \<open>when the goroutine of the handler ends the process\<close>
  chTerminate :: "proxy_end option"
  exit_status :: "int option"

definition exitOnError :: "'e option \<Rightarrow> int option" where
  "exitOnError err = map_option (\<lambda>e. 1) err"

definition main_process ::
  "string option \<Rightarrow> (string \<Rightarrow> string + url) \<Rightarrow> arguments \<Rightarrow> process" where
  "main_process build Parse args =
     \<lparr>ps_clock = 0, chSignal = None, awaitsSignal = True, ctx_cancelled = False, killer = None,
      chTerminate = None,
      exit_status = (case main_start build Parse args of Inl err \<Rightarrow> exitOnError (Some err) | Inr _ \<Rightarrow> None)\<rparr>"

section \<open>Signals\<close>

text \<open>The runtime does not wait: a signal that finds the channel full is dropped.\<close>

definition signal_Notify :: "signal \<Rightarrow> process \<Rightarrow> process" where
  "signal_Notify sig p = (case chSignal p of None \<Rightarrow> p\<lparr>chSignal := Some sig\<rparr> | Some _ \<Rightarrow> p)"

text \<open>The handler that \<^verbatim>\<open>main\<close> passes to \<^verbatim>\<open>ApplicationExit\<close>.\<close>

definition signal_handler :: "signal \<Rightarrow> process \<Rightarrow> process" where
  "signal_handler sig p = p\<lparr>ctx_cancelled := True, killer := Some (ps_clock p + terminateWaitTime)\<rparr>"

text \<open>The goroutine of \<^verbatim>\<open>ApplicationExit\<close> takes one signal and ends.\<close>

definition ApplicationExit :: "(signal \<Rightarrow> process \<Rightarrow> process) \<Rightarrow> process \<Rightarrow> process option" where
  "ApplicationExit handler p =
     (if awaitsSignal p then
        (case chSignal p of
           None \<Rightarrow> None
         | Some sig \<Rightarrow> Some (handler sig (p\<lparr>chSignal := None, awaitsSignal := False\<rparr>)))
      else None)"

section \<open>The wait\<close>

text \<open>
  The \<^verbatim>\<open>select\<close> of \<^verbatim>\<open>main\<close>: the status with which the process can end now.  When both cases are
  ready, Go takes either.
\<close>

definition main_select :: "process \<Rightarrow> int set" where
  "main_select p =
     (if chTerminate p \<noteq> None then {0} else {}) \<union>
     (if localProxyMaxLifeTime \<le> ps_clock p then {1} else {})"

inductive process_step :: "process \<Rightarrow> process \<Rightarrow> bool" where
  time: "exit_status p = None \<Longrightarrow> 0 \<le> d \<Longrightarrow> process_step p (p\<lparr>ps_clock := ps_clock p + d\<rparr>)"
| signal: "exit_status p = None \<Longrightarrow> process_step p (signal_Notify sig p)"
| handles_signal: "exit_status p = None \<Longrightarrow> ApplicationExit signal_handler p = Some p' \<Longrightarrow> process_step p p'"
| kills: "exit_status p = None \<Longrightarrow> killer p = Some t \<Longrightarrow> t \<le> ps_clock p \<Longrightarrow>
    process_step p (p\<lparr>exit_status := Some 1\<rparr>)"
| proxy_ends: "exit_status p = None \<Longrightarrow> chTerminate p = None \<Longrightarrow>
    process_step p (p\<lparr>chTerminate := Some res\<rparr>)"
| main_returns: "exit_status p = None \<Longrightarrow> status \<in> main_select p \<Longrightarrow>
    process_step p (p\<lparr>exit_status := Some status\<rparr>)"

section \<open>The exit status\<close>

text \<open>
  A process that has started ends with 0 only after the proxy, and with 1 only for a signal that
  was not obeyed in time or at the end of its lifetime; the handler runs once.
\<close>

definition process_inv :: "process \<Rightarrow> bool" where
  "process_inv p \<longleftrightarrow>
     0 \<le> ps_clock p \<and> ctx_cancelled p = (\<not> awaitsSignal p) \<and>
     (killer p = None \<longleftrightarrow> awaitsSignal p) \<and>
     (\<forall>t. killer p = Some t \<longrightarrow> t \<le> ps_clock p + terminateWaitTime) \<and>
     (exit_status p = Some 0 \<longrightarrow> chTerminate p \<noteq> None) \<and>
     (\<forall>status. exit_status p = Some status \<longrightarrow> status \<in> {0, 1}) \<and>
     (exit_status p = Some 1 \<longrightarrow>
        (\<exists>t. killer p = Some t \<and> t \<le> ps_clock p) \<or> localProxyMaxLifeTime \<le> ps_clock p)"

definition started_process :: "process \<Rightarrow> bool" where
  "started_process p \<longleftrightarrow> (\<exists>build Parse args r. main_start build Parse args = Inr r \<and> p = main_process build Parse args)"

lemma process_step_inv: "process_step p p' \<Longrightarrow> process_inv p \<Longrightarrow> process_inv p'"
proof (induction rule: process_step.induct)
  case (time p d)
  then show ?case by (fastforce simp: process_inv_def)
next
  case (signal p sig)
  then show ?case by (auto simp: process_inv_def signal_Notify_def split: option.splits)
next
  case (handles_signal p p')
  then show ?case
    by (auto simp: process_inv_def ApplicationExit_def signal_handler_def split: option.splits if_splits)
next
  case (main_returns p status)
  then show ?case by (auto simp: process_inv_def main_select_def split: if_splits)
qed (auto simp: process_inv_def)

interpretation process_machine: invariant_system started_process process_step process_inv
proof
  show "process_inv p" if "started_process p" for p
    using that by (auto simp: started_process_def main_process_def process_inv_def)
qed (rule process_step_inv)

theorem process_exit_status:
  assumes "reachable started_process process_step p" and "exit_status p = Some status"
  shows "status = 0 \<and> chTerminate p \<noteq> None \<or>
    status = 1 \<and> ((\<exists>t. killer p = Some t \<and> t \<le> ps_clock p) \<or> localProxyMaxLifeTime \<le> ps_clock p)"
  using process_machine.reachable_inv [OF assms(1)] assms(2) by (auto simp: process_inv_def)

text \<open>
  A process that handled a signal can always end within the time it promises, whatever the proxy
  does.
\<close>

lemma handled_signal_ends:
  assumes "reachable started_process process_step p" and "exit_status p = None" and "ctx_cancelled p"
  shows "\<exists>d. 0 \<le> d \<and> d \<le> terminateWaitTime \<and>
    process_step p (p\<lparr>ps_clock := ps_clock p + d\<rparr>) \<and>
    process_step (p\<lparr>ps_clock := ps_clock p + d\<rparr>) (p\<lparr>ps_clock := ps_clock p + d, exit_status := Some 1\<rparr>)"
proof -
  have inv: "process_inv p" by (rule process_machine.reachable_inv [OF assms(1)])
  then obtain t where t: "killer p = Some t" "t \<le> ps_clock p + terminateWaitTime"
    using assms(3) by (auto simp: process_inv_def)
  let ?d = "max 0 (t - ps_clock p)"
  have d: "0 \<le> ?d" "?d \<le> terminateWaitTime"
    using t(2) by (auto simp: terminateWaitTime_def Second_def)
  have "process_step (p\<lparr>ps_clock := ps_clock p + ?d\<rparr>)
      ((p\<lparr>ps_clock := ps_clock p + ?d\<rparr>)\<lparr>exit_status := Some 1\<rparr>)"
    by (rule process_step.kills [of _ t]) (use assms(2) t(1) in simp_all)
  moreover have "process_step p (p\<lparr>ps_clock := ps_clock p + ?d\<rparr>)"
    by (rule process_step.time [OF assms(2) d(1)])
  ultimately show ?thesis by (intro exI [of _ ?d]) (use d in simp)
qed

text \<open>
  After the first signal the others do nothing but fill the channel: the user cannot end the
  process sooner.
\<close>

lemma second_signal_ignored:
  assumes "\<not> awaitsSignal p"
  shows "ApplicationExit signal_handler (signal_Notify sig p) = None"
  using assms by (simp add: ApplicationExit_def signal_Notify_def split: option.splits)

text \<open>The status does not tell how the proxy ended.\<close>

lemma failed_proxy_exits_with_0:
  assumes "started_process p"
  shows "\<exists>p'. reachable started_process process_step p' \<and> chTerminate p' = Some res \<and> exit_status p' = Some 0"
proof -
  have p: "exit_status p = None" "chTerminate p = None"
    using assms by (auto simp: started_process_def main_process_def)
  let ?p1 = "p\<lparr>chTerminate := Some res\<rparr>"
  have "reachable started_process process_step ?p1"
    by (rule reachable_step1 [of started_process p, OF assms]) (rule process_step.proxy_ends [OF p])
  moreover have "process_step ?p1 (?p1\<lparr>exit_status := Some 0\<rparr>)"
    by (rule process_step.main_returns) (simp_all add: p main_select_def)
  ultimately have "reachable started_process process_step (?p1\<lparr>exit_status := Some 0\<rparr>)"
    by (rule reachable.step)
  then show ?thesis by (intro exI [of _ "?p1\<lparr>exit_status := Some 0\<rparr>"]) simp
qed

end
