(* ===== verification/Spec2Isabelle.thy ===== *)
theory Spec2Isabelle
  imports Message_RW Service_Config Stream_Id Server_Machine Peer_Con_Manager Worker_Manager End_To_End
    Service_Grammar Tunnel_Daemon Daemon_Spec Cli_Process
begin

text \<open>
  A verification library for \<^verbatim>\<open>securetunnel\<close>, an implementation in Go of the local proxy of the AWS
  IoT secure tunnelling service (version 2 of its websocket protocol) with a server for it.

  \<^bold>\<open>The program.\<close>  A tunnel joins two local proxies, one in source mode and one in destination mode,
  through a server.  The server (\<^verbatim>\<open>misc/server\<close>) opens a tunnel and hands out a token for each mode;
  a proxy (\<^verbatim>\<open>proxy\<close>, started by \<^verbatim>\<open>cmd/mitra_localproxy\<close>) connects with its token through the client
  (\<^verbatim>\<open>client\<close>) over a websocket; the server forwards every message from the one to the other.  In
  source mode the proxy listens for local programs, sends a StreamStart message for each connection
  it accepts, and forwards what it reads as Data messages; in destination mode it dials the local
  service when a StreamStart message arrives.  A message is a protobuf text with a length prefix
  (\<^verbatim>\<open>aws/messagerw.go\<close>).

  \<^bold>\<open>Theories and sources.\<close>
  \<^item> \<^verbatim>\<open>Prelude\<close>: machine types, the outcome of a call (\<open>Return\<close>, \<open>Panic\<close>, or \<open>Blocked\<close> when it waits for
    ever), fact collections, and the locale \<open>invariant_system\<close>, which carries every proof that a
    property holds in all reachable states.
  \<^item> \<^verbatim>\<open>Aws_Types\<close>: modes, constants and the message (\<^verbatim>\<open>aws/mode.go\<close>, \<^verbatim>\<open>const.go\<close>, \<^verbatim>\<open>Message.pb.go\<close>);
    \<^verbatim>\<open>Message_RW\<close>: reader and writer of messages (\<^verbatim>\<open>aws/messagerw.go\<close>), with the locale
    \<open>frame_codec\<close> of a self-delimiting code.
  \<^item> \<^verbatim>\<open>Go_Strings\<close>: the functions of Go's \<^verbatim>\<open>strings\<close> and \<^verbatim>\<open>strconv\<close> that the sources call;
    \<^verbatim>\<open>Service_Config\<close>: the parser of the service options (\<^verbatim>\<open>proxy/serviceconfig.go\<close>), and
    \<^verbatim>\<open>Service_Grammar\<close>: the forms that its comments list, all of which it accepts, and the larger
    grammar of the code, to which it is equivalent;
    \<^verbatim>\<open>Stream_Id\<close>: the generator of stream ids (\<^verbatim>\<open>proxy/idgen.go\<close>).
  \<^item> The server: \<^verbatim>\<open>Versioned_Store\<close> is the contract of a table with revisions, as a locale;
    \<^verbatim>\<open>Data_Table\<close> and \<^verbatim>\<open>Memory_Store\<close> (\<^verbatim>\<open>store_memory.go\<close>) provide it; \<^verbatim>\<open>Server_Ids\<close> (\<^verbatim>\<open>id.go\<close>),
    \<^verbatim>\<open>Tunnels\<close> (\<^verbatim>\<open>tunnel.go\<close>), \<^verbatim>\<open>Services\<close> (\<^verbatim>\<open>services.go\<close>, the \<^verbatim>\<open>services_\<close> files, \<^verbatim>\<open>auth.go\<close>,
    \<^verbatim>\<open>notify.go\<close>) with every handler cut at its store operations, \<^verbatim>\<open>Tunnel_Lifecycle\<close> with what the
    handlers promise together, \<^verbatim>\<open>Tunnel_Spec\<close> with an abstract specification of the service, which
    the handlers refine when they run one after the other (locale \<open>trace_refinement\<close>),
    \<^verbatim>\<open>Server_Machine\<close> with the handlers in any interleaving,
    \<^verbatim>\<open>Peer_Con_Manager\<close> (\<^verbatim>\<open>peerconnection.go\<close>, \<^verbatim>\<open>peerconmanager.go\<close>, \<^verbatim>\<open>services_debugsend.go\<close>) with
    its goroutines as a step relation, \<^verbatim>\<open>Peer_Forwarding\<close> with what they forward over a whole run, and
    \<^verbatim>\<open>Tunnel_Daemon\<close> with the start, the routes and the filter (\<^verbatim>\<open>cmd/mitra_tunneld/main.go\<close>,
    \<^verbatim>\<open>Services.Start\<close>); \<^verbatim>\<open>Daemon_Spec\<close> shows that this program follows the specification.
  \<^item> The client: \<^verbatim>\<open>Workers\<close> (\<^verbatim>\<open>client/worker.go\<close>) and \<^verbatim>\<open>Worker_Manager\<close> (\<^verbatim>\<open>workermanager.go\<close>) with
    abstract functions; \<^verbatim>\<open>Aws_Client\<close> (\<^verbatim>\<open>awsclient.go\<close>), where the functions are the closures of
    \<^verbatim>\<open>invokeEvent\<close>; \<^verbatim>\<open>Client_Machine\<close> with its goroutines as a step relation and the locale
    \<open>client_listeners\<close>, the contract between the client and its listeners; \<^verbatim>\<open>Client_History\<close> extends
    that contract by a history (\<open>client_history\<close>), to count what the workers have run, and
    \<^verbatim>\<open>Client_Reading\<close> follows every message from the reader to the closures of its stream's worker.
  \<^item> The proxy: \<^verbatim>\<open>Local_Socket\<close> (\<^verbatim>\<open>proxy/socket.go\<close>, \<^verbatim>\<open>socket_manager.go\<close>) with the locale
    \<open>socket_reader\<close>, \<^verbatim>\<open>Tcp_Server\<close> (\<^verbatim>\<open>localserver.go\<close>), \<^verbatim>\<open>Local_Proxy\<close> (\<^verbatim>\<open>localproxy.go\<close>);
    \<^verbatim>\<open>Proxy_Machine\<close> runs all goroutines of the proxy and interprets the two locales on the code's
    own listener, \<^verbatim>\<open>Proxy_Properties\<close> states what follows; \<^verbatim>\<open>Proxy_Delivery\<close> extends the invariant by
    the owner of each local connection, for the way from the tunnel to the local programs.
  \<^item> \<^verbatim>\<open>Cli\<close>: the command (\<^verbatim>\<open>cmd/mitra_localproxy\<close>, \<^verbatim>\<open>cmd/common\<close>, \<^verbatim>\<open>log\<close>), and
    \<^verbatim>\<open>Cli_Process\<close>: its process, with signals, timers and the exit status; \<^verbatim>\<open>End_To_End\<close>: properties
    that span the program.

  \<^bold>\<open>How state is modelled.\<close>  A Go object that is shared through pointers lives in a heap, a list of
  records, and a pointer is an index: peers, workers, sockets, connections.  An object that no map
  holds any more still exists, so leaks can be stated.  The state of the proxy is one record that
  extends that of the sockets, which extends that of the client.  Goroutines are rules of an
  inductive step relation; a body that holds one lock throughout is one step, a handler that uses
  several store operations, or sends before it registers, is cut between them.  A closure of the
  client is one step of its worker; while \<^verbatim>\<open>Stop\<close> waits for a worker it has \<open>k\<close> of the waiting
  functions run, for any \<open>k\<close>, and \<open>Stop_runs_to_end\<close> shows that the steps of the worker allow just
  these results.  Fields marked as history (bytes written; messages that the reader took up, that were given to
  \<^verbatim>\<open>WriteMessage\<close>, that were sent; functions executed; a message lost by a failed write)
  record what happened and are read by no operation.

  \<^bold>\<open>Parameters.\<close>  The protobuf codec, the websocket library, the network, the file system, the clock,
  the random source, the host name, SHA-256, the flag parser and \<^verbatim>\<open>url.Parse\<close> are arguments of the
  definitions, as are their failures (by the number of the call) and the order in which Go ranges
  over a map.  What a property needs of them is a premise: that decoding inverts encoding, that the
  protobuf fields other than the texts and the payload take a bounded number of bytes, that an
  iteration visits the keys of the map once each, that a read gives at most the buffer.

  \<^bold>\<open>Bounds and fuel.\<close>  The size of a message is a 16-bit word, and so is the end position that \<^verbatim>\<open>Next\<close>
  computes from it, which wraps at 65536; stream ids are 32-bit, timeouts and durations 64-bit words.
  No definition has fuel.  Reading a frame list recurses on the list; \<^verbatim>\<open>keepReadingMessages\<close> has a
  termination proof by the bytes and frames that are left; \<^verbatim>\<open>Run\<close> recurses on the rounds so far,
  and its result says when it still runs after them.

  \<^bold>\<open>What the lemmas show.\<close>  The reader and the writer are inverse whatever the frames are, and the
  reader refines a parser of the byte stream.  Opening, connecting and closing do what they promise,
  on error paths too; served one after the other, the handlers give, internal errors apart, the answers of a map from
  identifiers to tunnels with two seats, so that one client only can use an access token; and no interleaving makes a handler panic; the replies
  have the form of their services, and no request that the authorizer refuses changes anything.  Peers
  forward only within their tunnel, in order, every message once; a failed websocket write loses the
  message in hand and ends the writer.  The client dispatches every message once and in order, each
  worker runs the functions of consecutive messages of its stream, and \<^verbatim>\<open>Run\<close> ends only for the documented reasons.  The proxy forwards
  what local programs write in order, up to the reader on the other side, with no loss but the last
  data of a connection whose message could not be sent, and writes to each of them the data of its
  stream in order, every Data message handed on once, so that through both proxies and the server
  the bytes of one program reach the other, all of them once everything has come to rest (the
  premises of these properties say when: ordered websockets, one worker for the stream, local writes that
  do not fail); after
  \<^verbatim>\<open>StopAll\<close> no local connection is left.  Where the code falls short of what it means to do, a
  theorem shows a reachable state of it: a sum that wraps, a lock that is never released, a send on
  a closed channel, a lost race that leaves traces, workers and connections that leak.

  \<^bold>\<open>Not modelled.\<close>  Time: durations and deadlines are events that may happen at any moment.  Data
  races: a field is read and written in one step each.  The reflection code that protobuf
  generates, the texts of logs and of \<^verbatim>\<open>connectError.Error\<close>, TLS and HTTP below their results.
  The router and the binding of requests (gin), and the test doubles.  The outcome of a websocket
  upgrade is a parameter, the library's own answer included.  A local read gives data or an error,
  never both, which is what Go's TCP and unix connections do.  Counters of connections do not wrap
  at 2^63, and lower case is that of ASCII (\<^verbatim>\<open>--log\<close> with a dotted capital I is refused here).  Where
  the code takes a lock after an effect that only lock-free readers can see in between, the effect
  and the section behind the lock are one step: the key that \<^verbatim>\<open>connect\<close> deletes before it waits for the
  other connection (only the debug handler reads that map without the lock), and the list of workers
  that \<^verbatim>\<open>stopAll\<close> takes.
\<close>

end
